(* ===== verification/Prelude.thy ===== *)
theory Prelude
  imports "HOL-Library.Word" "HOL-Library.Char_ord" "HOL-Library.List_Lexorder"
begin

text \<open>
  What the components share: Rust's machine integers, strings and ordered maps, and the lemmas
  about them that carry the component proofs.

  A Rust \<^verbatim>\<open>String\<close> is its UTF-8 bytes, one HOL character per byte, so lengths,
  slices and comparisons are the byte-wise ones of the language. Where the code iterates over
  \<^verbatim>\<open>chars()\<close> the model groups the bytes of one code point (\<open>chars\<close>).
  A \<^verbatim>\<open>u64\<close> is a 64-bit word and an \<^verbatim>\<open>i64\<close> a 64-bit word read through \<open>sint\<close>.
  A \<^verbatim>\<open>BTreeMap\<close> keyed by strings is an association list in strictly
  ascending key order, which is the order its iterators run in.
\<close>

named_theorems bt_simps \<open>equations of the ordered-map operations\<close>
named_theorems str_simps \<open>definitions of the string operations, for evaluation\<close>

section \<open>Machine integers\<close>

type_synonym u64 = "64 word"
type_synonym i64 = "64 word"

definition sat_add :: "u64 \<Rightarrow> u64 \<Rightarrow> u64" where
  "sat_add a b = (if unat a + unat b < 2 ^ 64 then a + b else - 1)"

definition sat_sub :: "u64 \<Rightarrow> u64 \<Rightarrow> u64" where
  "sat_sub a b = (if b \<le> a then a - b else 0)"

text \<open>\<^verbatim>\<open>u64::try_from\<close> on an \<^verbatim>\<open>i64\<close>: negative values have no image.\<close>

definition u64_try_from :: "i64 \<Rightarrow> u64 option" where
  "u64_try_from x = (if 0 \<le> sint x then Some x else None)"

lemma unat_u64_less: "unat (a :: u64) < 2 ^ 64"
  using unsigned_less [of a, where ?'a = nat] by simp

lemma unat_max_u64: "unat (- 1 :: u64) = 2 ^ 64 - 1"
  by (simp add: unsigned_minus_1_eq_mask mask_eq_exp_minus_1)

lemma unat_sat_add: "unat (sat_add a b) = min (unat a + unat b) (2 ^ 64 - 1)"
proof (cases "unat a + unat b < 2 ^ 64")
  case True
  then show ?thesis by (simp add: sat_add_def unat_word_ariths)
next
  case False
  then show ?thesis by (simp add: sat_add_def unat_max_u64)
qed

lemma sat_add_mono_left: "a \<le> sat_add a b"
  using unat_u64_less [of a] by (simp add: word_le_nat_alt unat_sat_add)

lemma sat_add_mono_right: "b \<le> sat_add a b"
  using unat_u64_less [of b] by (simp add: word_le_nat_alt unat_sat_add)

lemma sat_add_zero [simp]: "sat_add a 0 = a" "sat_add 0 a = a"
  using unat_u64_less [of a] by (auto simp: sat_add_def)

lemma sat_add_eq_0 [simp]: "sat_add a b = 0 \<longleftrightarrow> a = 0 \<and> b = 0"
proof
  assume "sat_add a b = 0"
  then have "unat (sat_add a b) = 0" by simp
  then show "a = 0 \<and> b = 0" by (simp add: unat_sat_add unat_eq_zero min_def split: if_splits)
qed auto

lemma unat_sat_sub: "unat (sat_sub a b) = unat a - unat b"
  by (auto simp: sat_sub_def word_le_nat_alt unat_sub)

lemma sat_sub_le: "sat_sub a b \<le> a"
  by (simp add: word_le_nat_alt unat_sat_sub)

lemma u64_try_from_Some: "u64_try_from x = Some y \<Longrightarrow> y = x \<and> 0 \<le> sint x"
  by (auto simp: u64_try_from_def split: if_splits)

section \<open>Options\<close>

definition is_some_and :: "'a option \<Rightarrow> ('a \<Rightarrow> bool) \<Rightarrow> bool" where
  "is_some_and x p = (case x of None \<Rightarrow> False | Some a \<Rightarrow> p a)"

definition unwrap_or :: "'a option \<Rightarrow> 'a \<Rightarrow> 'a" where
  "unwrap_or x d = (case x of None \<Rightarrow> d | Some a \<Rightarrow> a)"

definition or_else :: "'a option \<Rightarrow> 'a option \<Rightarrow> 'a option" where
  "or_else x y = (case x of None \<Rightarrow> y | Some a \<Rightarrow> Some a)"

definition option_filter :: "('a \<Rightarrow> bool) \<Rightarrow> 'a option \<Rightarrow> 'a option" where
  "option_filter p x = (case x of None \<Rightarrow> None | Some a \<Rightarrow> if p a then Some a else None)"

lemma is_some_and_simps [simp]:
  "is_some_and None p = False" "is_some_and (Some a) p = p a"
  by (simp_all add: is_some_and_def)

lemma unwrap_or_simps [simp]: "unwrap_or None d = d" "unwrap_or (Some a) d = a"
  by (simp_all add: unwrap_or_def)

lemma or_else_simps [simp]: "or_else None y = y" "or_else (Some a) y = Some a"
  by (simp_all add: or_else_def)

lemma or_else_None_right [simp]: "or_else x None = x"
  by (cases x) simp_all

lemma option_filter_simps [simp]:
  "option_filter p None = None"
  "option_filter p (Some a) = (if p a then Some a else None)"
  by (simp_all add: option_filter_def)

lemma option_filter_Some_iff: "option_filter p x = Some a \<longleftrightarrow> x = Some a \<and> p a"
  by (cases x) auto

section \<open>Strings\<close>

abbreviation newline :: char where "newline \<equiv> CHR 0x0A"
abbreviation carriage_return :: char where "carriage_return \<equiv> CHR 0x0D"
abbreviation backslash :: char where "backslash \<equiv> CHR 0x5C"
abbreviation quote :: char where "quote \<equiv> CHR 0x22"

text \<open>The characters above ASCII the code's own prose uses, as their UTF-8 bytes.\<close>

abbreviation em_dash :: string where "em_dash \<equiv> [CHR 0xE2, CHR 0x80, CHR 0x94]"
abbreviation ellipsis :: string where "ellipsis \<equiv> [CHR 0xE2, CHR 0x80, CHR 0xA6]"
abbreviation middle_dot :: string where "middle_dot \<equiv> [CHR 0xC2, CHR 0xB7]"

definition is_cont :: "char \<Rightarrow> bool" where
  "is_cont c = (128 \<le> (of_char c :: nat) \<and> (of_char c :: nat) < 192)"

text \<open>\<^verbatim>\<open>chars()\<close>: each code point as the bytes that encode it.\<close>

function chars :: "string \<Rightarrow> string list" where
  "chars [] = []"
| "chars (c # s) = (c # takeWhile is_cont s) # chars (dropWhile is_cont s)"
  by pat_completeness auto
termination
  by (relation "measure length") (auto simp: le_imp_less_Suc length_dropWhile_le)

lemma concat_chars [simp]: "concat (chars s) = s"
  by (induction s rule: chars.induct) simp_all

lemma chars_nonempty: "p \<in> set (chars s) \<Longrightarrow> p \<noteq> []"
  by (induction s rule: chars.induct) auto

lemma chars_ascii: "list_all (\<lambda>c. \<not> is_cont c) s \<Longrightarrow> chars s = map (\<lambda>c. [c]) s"
proof (induction s rule: chars.induct)
  case (2 c s)
  then have "takeWhile is_cont s = []" "dropWhile is_cont s = s"
    by (cases s; simp)+
  with 2 show ?case by simp
qed simp

definition char_count :: "string \<Rightarrow> nat" where
  "char_count s = length (chars s)"

definition starts_with :: "string \<Rightarrow> string \<Rightarrow> bool" where
  "starts_with p s = (take (length p) s = p)"

definition ends_with :: "string \<Rightarrow> string \<Rightarrow> bool" where
  "ends_with p s = (length p \<le> length s \<and> drop (length s - length p) s = p)"

definition strip_prefix :: "string \<Rightarrow> string \<Rightarrow> string option" where
  "strip_prefix p s = (if starts_with p s then Some (drop (length p) s) else None)"

definition strip_suffix :: "string \<Rightarrow> string \<Rightarrow> string option" where
  "strip_suffix p s = (if ends_with p s then Some (take (length s - length p) s) else None)"

text \<open>\<^verbatim>\<open>find\<close> of a pattern: the text before the first occurrence and the text after it.\<close>

fun split_at_first :: "string \<Rightarrow> string \<Rightarrow> (string \<times> string) option" where
  "split_at_first p [] = (if p = [] then Some ([], []) else None)"
| "split_at_first p (c # s) =
     (case strip_prefix p (c # s) of
        Some rest \<Rightarrow> Some ([], rest)
      | None \<Rightarrow> map_option (\<lambda>(a, b). (c # a, b)) (split_at_first p s))"

definition contains_str :: "string \<Rightarrow> string \<Rightarrow> bool" where
  "contains_str p s = (split_at_first p s \<noteq> None)"

text \<open>\<^verbatim>\<open>split\<close> on one ASCII character; always at least one field.\<close>

fun split_on :: "char \<Rightarrow> string \<Rightarrow> string list" where
  "split_on d [] = [[]]"
| "split_on d (c # s) =
     (if c = d then [] # split_on d s
      else (case split_on d s of [] \<Rightarrow> [[c]] | f # fs \<Rightarrow> (c # f) # fs))"

text \<open>
  \<^verbatim>\<open>lines()\<close>: a newline ends a line and takes one carriage return before it along; a
  last line without a newline keeps everything.
\<close>

definition strip_cr :: "string \<Rightarrow> string" where
  "strip_cr l = (if l \<noteq> [] \<and> last l = carriage_return then butlast l else l)"

function lines :: "string \<Rightarrow> string list" where
  "lines s =
     (if s = [] then []
      else (case dropWhile (\<lambda>c. c \<noteq> newline) s of
              [] \<Rightarrow> [s]
            | _ # rest \<Rightarrow> strip_cr (takeWhile (\<lambda>c. c \<noteq> newline) s) # lines rest))"
  by pat_completeness auto
termination
proof (relation "measure length", goal_cases)
  case 1
  show ?case by simp
next
  case (2 s c rest)
  then show ?case
    using length_dropWhile_le [of "\<lambda>c. c \<noteq> newline" s] by simp
qed

declare lines.simps [simp del]

text \<open>Unicode \<^verbatim>\<open>White_Space\<close>, each code point as its UTF-8 bytes.\<close>

definition is_whitespace :: "string \<Rightarrow> bool" where
  "is_whitespace p =
     (p \<in> set ([[CHR 0x09], [CHR 0x0A], [CHR 0x0B], [CHR 0x0C], [CHR 0x0D], [CHR 0x20],
        [CHR 0xC2, CHR 0x85], [CHR 0xC2, CHR 0xA0], [CHR 0xE1, CHR 0x9A, CHR 0x80],
        [CHR 0xE2, CHR 0x80, CHR 0xA8], [CHR 0xE2, CHR 0x80, CHR 0xA9],
        [CHR 0xE2, CHR 0x80, CHR 0xAF], [CHR 0xE2, CHR 0x81, CHR 0x9F],
        [CHR 0xE3, CHR 0x80, CHR 0x80]]
        @ map (\<lambda>k. [CHR 0xE2, CHR 0x80, char_of (128 + k :: nat)]) [0..<11]))"

definition trim_start :: "string \<Rightarrow> string" where
  "trim_start s = concat (dropWhile is_whitespace (chars s))"

definition trim_end :: "string \<Rightarrow> string" where
  "trim_end s = concat (rev (dropWhile is_whitespace (rev (chars s))))"

definition trim :: "string \<Rightarrow> string" where
  "trim s = trim_end (trim_start s)"

text \<open>\<^verbatim>\<open>split_whitespace\<close>: the maximal runs of non-blank characters.\<close>

fun words_acc :: "string list \<Rightarrow> string \<Rightarrow> string list" where
  "words_acc [] w = (if w = [] then [] else [w])"
| "words_acc (p # ps) w =
     (if is_whitespace p then (if w = [] then words_acc ps [] else w # words_acc ps [])
      else words_acc ps (w @ p))"

definition split_whitespace :: "string \<Rightarrow> string list" where
  "split_whitespace s = words_acc (chars s) []"

definition char_between :: "char \<Rightarrow> char \<Rightarrow> char \<Rightarrow> bool" where
  [simp]: "char_between lo hi c = (lo \<le> c \<and> c \<le> hi)"

definition is_ascii_digit :: "char \<Rightarrow> bool" where
  "is_ascii_digit c = char_between CHR ''0'' CHR ''9'' c"

definition is_ascii_alpha :: "char \<Rightarrow> bool" where
  "is_ascii_alpha c = (char_between CHR ''A'' CHR ''Z'' c \<or> char_between CHR ''a'' CHR ''z'' c)"

definition is_ascii_alnum :: "char \<Rightarrow> bool" where
  "is_ascii_alnum c = (is_ascii_alpha c \<or> is_ascii_digit c)"

definition to_lower :: "char \<Rightarrow> char" where
  "to_lower c = (if char_between CHR ''A'' CHR ''Z'' c then char_of ((of_char c :: nat) + 32) else c)"

definition to_ascii_lowercase :: "string \<Rightarrow> string" where
  "to_ascii_lowercase = map to_lower"

definition join :: "string \<Rightarrow> string list \<Rightarrow> string" where
  "join sep xs = (case xs of [] \<Rightarrow> [] | y # ys \<Rightarrow> y @ concat (map (\<lambda>z. sep @ z) ys))"

text \<open>
  \<^verbatim>\<open>String::from_utf8_lossy\<close>: each maximal ill-formed prefix of a code point becomes one
  U+FFFD. \<open>utf8_unit\<close> says whether the text starts with a well-formed code point, and how many
  bytes that unit, well-formed or not, takes.
\<close>

definition utf8_second :: "nat \<Rightarrow> nat \<Rightarrow> bool" where
  "utf8_second a b =
     (if a = 224 then 160 \<le> b \<and> b < 192
      else if a = 237 then 128 \<le> b \<and> b < 160
      else if a = 240 then 144 \<le> b \<and> b < 192
      else if a = 244 then 128 \<le> b \<and> b < 144
      else 128 \<le> b \<and> b < 192)"

definition utf8_width :: "nat \<Rightarrow> nat" where
  "utf8_width a =
     (if a < 128 then 1 else if 194 \<le> a \<and> a < 224 then 2
      else if 224 \<le> a \<and> a < 240 then 3 else if 240 \<le> a \<and> a < 245 then 4 else 0)"

definition utf8_unit :: "string \<Rightarrow> bool \<times> nat" where
  "utf8_unit s =
     (let at = (\<lambda>i. if i < length s then of_char (s ! i) else (0 :: nat));
          w = utf8_width (at 0) in
      if w = 0 then (False, 1)
      else if w = 1 then (True, 1)
      else if \<not> utf8_second (at 0) (at 1) then (False, 1)
      else if w = 2 then (True, 2)
      else if \<not> (128 \<le> at 2 \<and> at 2 < 192) then (False, 2)
      else if w = 3 then (True, 3)
      else if \<not> (128 \<le> at 3 \<and> at 3 < 192) then (False, 3)
      else (True, 4))"

lemma utf8_unit_pos: "0 < snd (utf8_unit s)"
  by (simp add: utf8_unit_def Let_def)

function from_utf8_lossy :: "string \<Rightarrow> string" where
  "from_utf8_lossy s =
     (if s = [] then []
      else (case utf8_unit s of (ok, n) \<Rightarrow>
        (if ok then take n s else [CHR 0xEF, CHR 0xBF, CHR 0xBD]) @ from_utf8_lossy (drop n s)))"
  by pat_completeness auto
termination
proof (relation "measure length", goal_cases)
  case (2 s ok n)
  then show ?case using utf8_unit_pos [of s] by (cases s) (auto simp: prod_eq_iff dest: sym)
qed simp

declare from_utf8_lossy.simps [simp del]

lemma from_utf8_lossy_ascii:
  "list_all (\<lambda>c. (of_char c :: nat) < 128) s \<Longrightarrow> from_utf8_lossy s = s"
proof (induction s)
  case (Cons c s)
  then show ?case
    by (subst from_utf8_lossy.simps) (simp add: utf8_unit_def utf8_width_def)
qed (simp add: from_utf8_lossy.simps)

text \<open>Whether bytes are well-formed UTF-8: the lossy reading changes nothing.\<close>

function is_utf8 :: "string \<Rightarrow> bool" where
  "is_utf8 s =
     (if s = [] then True
      else (case utf8_unit s of (ok, n) \<Rightarrow> ok \<and> is_utf8 (drop n s)))"
  by pat_completeness auto
termination
proof (relation "measure length", goal_cases)
  case (2 s ok n)
  then show ?case using utf8_unit_pos [of s] by (cases s) (auto simp: prod_eq_iff dest: sym)
qed simp

declare is_utf8.simps [simp del]

text \<open>Where well-formed text goes on, it goes on at the start of a code point.\<close>

lemma is_utf8_head: "is_utf8 s \<Longrightarrow> s \<noteq> [] \<Longrightarrow> \<not> is_cont (hd s)"
proof (cases s)
  case (Cons c t)
  assume "is_utf8 s"
  then have "fst (utf8_unit s)" unfolding Cons by (subst (asm) is_utf8.simps) (auto split: prod.splits)
  then show ?thesis
    by (auto simp: Cons utf8_unit_def utf8_width_def is_cont_def Let_def split: if_splits)
qed simp

lemma is_utf8_ascii_Cons: "(of_char c :: nat) < 128 \<Longrightarrow> is_utf8 (c # s) \<longleftrightarrow> is_utf8 s"
  by (subst is_utf8.simps) (simp add: utf8_unit_def utf8_width_def)

text \<open>\<^verbatim>\<open>to_string_lossy\<close> and \<^verbatim>\<open>display\<close> of a path, whose bytes need not be text.\<close>

lemma from_utf8_lossy_id: "is_utf8 s \<Longrightarrow> from_utf8_lossy s = s"
proof (induction s rule: is_utf8.induct)
  case (1 s)
  show ?case
  proof (cases "s = []")
    case False
    obtain ok n where u: "utf8_unit s = (ok, n)" by force
    with 1 False have "ok" "from_utf8_lossy (drop n s) = drop n s"
      using "1.prems" by (auto simp: is_utf8.simps [of s])
    then show ?thesis using False u by (subst from_utf8_lossy.simps) simp
  qed (simp add: from_utf8_lossy.simps)
qed

section \<open>Numbers as text\<close>

definition digit_char :: "nat \<Rightarrow> char" where
  "digit_char d = char_of (if d < 10 then d + 48 else d + 87)"

definition digit_value :: "nat \<Rightarrow> char \<Rightarrow> nat option" where
  "digit_value b c =
     (let n = of_char c :: nat;
          d = (if 48 \<le> n \<and> n \<le> 57 then n - 48
               else if 97 \<le> n \<and> n \<le> 122 then n - 87
               else if 65 \<le> n \<and> n \<le> 90 then n - 55 else b)
      in if d < b then Some d else None)"

fun show_base :: "nat \<Rightarrow> nat \<Rightarrow> string" where
  "show_base b n =
     (if n < b \<or> b < 2 then [digit_char n] else show_base b (n div b) @ [digit_char (n mod b)])"

declare show_base.simps [simp del]

definition show_nat :: "nat \<Rightarrow> string" where
  "show_nat = show_base 10"

definition show_u64 :: "u64 \<Rightarrow> string" where
  "show_u64 n = show_nat (unat n)"

datatype int_error = Empty | InvalidDigit | PosOverflow

text \<open>
  \<^verbatim>\<open>from_str_radix\<close> on an unsigned type whose largest value is \<open>lim\<close>: a digit is checked
  before the product it would overflow, so an early overflow hides a later bad digit.
\<close>

fun parse_digits :: "nat \<Rightarrow> nat \<Rightarrow> nat \<Rightarrow> string \<Rightarrow> int_error + nat" where
  "parse_digits b lim acc [] = Inr acc"
| "parse_digits b lim acc (c # s) =
     (case digit_value b c of
        None \<Rightarrow> Inl InvalidDigit
      | Some d \<Rightarrow> if acc * b > lim \<or> acc * b + d > lim then Inl PosOverflow
                  else parse_digits b lim (acc * b + d) s)"

definition from_str_radix :: "nat \<Rightarrow> nat \<Rightarrow> string \<Rightarrow> int_error + nat" where
  "from_str_radix b lim s =
     (case s of
        [] \<Rightarrow> Inl Empty
      | c # rest \<Rightarrow>
          if rest = [] \<and> (c = CHR ''+'' \<or> c = CHR ''-'') then Inl InvalidDigit
          else parse_digits b lim 0 (if c = CHR ''+'' then rest else s))"

lemma show_base_nonempty [simp]: "show_base b n \<noteq> []"
  by (subst show_base.simps) simp

lemma digit_value_digit_char: "d < b \<Longrightarrow> b \<le> 36 \<Longrightarrow> digit_value b (digit_char d) = Some d"
  by (auto simp: digit_value_def digit_char_def Let_def)

lemma digit_char_not_sign:
  "d < 36 \<Longrightarrow> digit_char d \<noteq> CHR ''+'' \<and> digit_char d \<noteq> CHR ''-''"
  by (auto simp: digit_char_def char_of_eq_iff take_bit_nat_eq_self)

lemma parse_digits_append:
  "parse_digits b lim acc (s @ t) =
     (case parse_digits b lim acc s of Inl e \<Rightarrow> Inl e | Inr a \<Rightarrow> parse_digits b lim a t)"
  by (induction s arbitrary: acc) (auto split: option.splits)

lemma parse_digits_show_base:
  assumes "2 \<le> b" "b \<le> 36" "n \<le> lim"
  shows "parse_digits b lim 0 (show_base b n) = Inr n"
  using assms(3)
proof (induction n rule: less_induct)
  case (less n)
  show ?case
  proof (cases "n < b")
    case True
    with less.prems assms show ?thesis
      by (subst show_base.simps) (simp add: digit_value_digit_char)
  next
    case False
    have parts: "n div b * b + n mod b = n" by simp
    then have "n div b * b \<le> lim" using less.prems
      using le_trans le_add1 by metis
    moreover have "n div b < n" using False assms by (simp add: div_less_dividend)
    moreover have "n div b \<le> lim" using less.prems div_le_dividend le_trans by blast
    ultimately show ?thesis using False assms less.IH [of "n div b"] less.prems
      by (subst show_base.simps) (simp add: parse_digits_append digit_value_digit_char)
  qed
qed

lemma hd_show_base:
  "2 \<le> b \<Longrightarrow> \<exists>d < b. hd (show_base b n) = digit_char d"
proof (induction n rule: less_induct)
  case (less n)
  show ?case
  proof (cases "n < b")
    case True
    then show ?thesis by (subst show_base.simps) auto
  next
    case False
    with less.prems have "n div b < n" by (simp add: div_less_dividend)
    with less False show ?thesis by (subst show_base.simps) simp
  qed
qed

lemma parse_show_base:
  assumes "2 \<le> b" "b \<le> 36" "n \<le> lim"
  shows "from_str_radix b lim (show_base b n) = Inr n"
proof -
  obtain d where "d < b" and hd: "hd (show_base b n) = digit_char d"
    using hd_show_base [OF assms(1)] by blast
  with assms(2) have "hd (show_base b n) \<noteq> CHR ''+''" "hd (show_base b n) \<noteq> CHR ''-''"
    using digit_char_not_sign [of d] by auto
  then show ?thesis using parse_digits_show_base [OF assms] show_base_nonempty [of b n]
    by (cases "show_base b n") (auto simp: from_str_radix_def)
qed

section \<open>Codecs\<close>

text \<open>
  A writer with a reader that takes back everything it wrote. The vocabulary tables of the
  wire, the unit names and the numbers in text are all of this shape, and what their users
  rely on is proved once.
\<close>

locale codec =
  fixes enc :: "'a \<Rightarrow> 'b" and dec :: "'b \<Rightarrow> 'a option" and ok :: "'a \<Rightarrow> bool"
  assumes dec_enc: "ok x \<Longrightarrow> dec (enc x) = Some x"
begin

lemma enc_inj: "ok x \<Longrightarrow> ok y \<Longrightarrow> enc x = enc y \<Longrightarrow> x = y"
  by (metis dec_enc option.inject)

lemma dec_none_not_written: "dec w = None \<Longrightarrow> ok x \<Longrightarrow> enc x \<noteq> w"
  by (auto simp: dec_enc)

lemma dec_map_enc: "list_all ok xs \<Longrightarrow> map (\<lambda>x. dec (enc x)) xs = map Some xs"
  by (induction xs) (auto simp: dec_enc)

end

section \<open>Ordered maps\<close>

type_synonym 'v btree = "(string \<times> 'v) list"

definition bt_wf :: "'v btree \<Rightarrow> bool" where
  "bt_wf m = sorted_wrt (<) (map fst m)"

definition bt_get :: "string \<Rightarrow> 'v btree \<Rightarrow> 'v option" where
  "bt_get k m = map_of m k"

fun bt_insert :: "string \<Rightarrow> 'v \<Rightarrow> 'v btree \<Rightarrow> 'v btree" where
  "bt_insert k v [] = [(k, v)]"
| "bt_insert k v ((k', v') # m) =
     (if k < k' then (k, v) # (k', v') # m
      else if k = k' then (k, v) # m
      else (k', v') # bt_insert k v m)"

definition bt_remove :: "string \<Rightarrow> 'v btree \<Rightarrow> 'v btree" where
  "bt_remove k m = filter (\<lambda>(k', _). k' \<noteq> k) m"

definition bt_values :: "'v btree \<Rightarrow> 'v list" where
  "bt_values m = map snd m"

definition bt_keys :: "'v btree \<Rightarrow> string list" where
  "bt_keys m = map fst m"

text \<open>What a user of a keyed store relies on, and what follows for a run of updates.\<close>

locale keyed_store =
  fixes wf :: "'m \<Rightarrow> bool" and empty :: 'm
    and get :: "'k \<Rightarrow> 'm \<Rightarrow> 'v option"
    and put :: "'k \<Rightarrow> 'v \<Rightarrow> 'm \<Rightarrow> 'm"
    and del :: "'k \<Rightarrow> 'm \<Rightarrow> 'm"
  assumes wf_empty: "wf empty"
    and wf_put: "wf m \<Longrightarrow> wf (put k v m)"
    and wf_del: "wf m \<Longrightarrow> wf (del k m)"
    and get_empty: "get k empty = None"
    and get_put: "get k' (put k v m) = (if k' = k then Some v else get k' m)"
    and get_del: "get k' (del k m) = (if k' = k then None else get k' m)"
    and ext: "wf m \<Longrightarrow> wf m' \<Longrightarrow> (\<And>k. get k m = get k m') \<Longrightarrow> m = m'"
begin

lemma wf_foldl_put: "wf m \<Longrightarrow> wf (foldl (\<lambda>acc x. put (key x) (val x) acc) m xs)"
  by (induction xs arbitrary: m) (auto intro: wf_put)

text \<open>A run of insertions answers with the last value given for a key.\<close>

lemma get_foldl_put:
  "get k (foldl (\<lambda>acc x. put (key x) (val x) acc) m xs) =
     (case find (\<lambda>x. key x = k) (rev xs) of Some x \<Rightarrow> Some (val x) | None \<Rightarrow> get k m)"
  by (induction xs rule: rev_induct) (auto simp: get_put)

lemma del_put_same: "wf m \<Longrightarrow> del k (put k v m) = del k m"
  by (rule ext) (auto simp: wf_put wf_del get_put get_del)

lemma put_put_same: "wf m \<Longrightarrow> put k v (put k w m) = put k v m"
  by (rule ext) (auto simp: wf_put get_put)

end

lemma fst_set_bt_insert: "fst ` set (bt_insert k v m) = insert k (fst ` set m)"
  by (induction k v m rule: bt_insert.induct) auto

lemma bt_wf_Cons: "bt_wf ((k, v) # m) \<longleftrightarrow> (\<forall>k' \<in> fst ` set m. k < k') \<and> bt_wf m"
  by (auto simp: bt_wf_def)

lemma bt_wf_Nil [simp]: "bt_wf []"
  by (simp add: bt_wf_def)

lemma bt_wf_insert: "bt_wf m \<Longrightarrow> bt_wf (bt_insert k v m)"
proof (induction k v m rule: bt_insert.induct)
  case (2 k v k' v' m)
  then show ?case
    by (cases "k < k'"; cases "k = k'") (auto simp: bt_wf_Cons fst_set_bt_insert)
qed (simp add: bt_wf_def)

lemma bt_wf_filter: "bt_wf m \<Longrightarrow> bt_wf (filter p m)"
proof (induction m)
  case (Cons kv m)
  then show ?case by (cases kv) (auto simp: bt_wf_Cons)
qed simp

lemma bt_wf_remove: "bt_wf m \<Longrightarrow> bt_wf (bt_remove k m)"
  by (simp add: bt_remove_def bt_wf_filter)

lemma bt_get_insert: "bt_get k' (bt_insert k v m) = (if k' = k then Some v else bt_get k' m)"
  by (induction k v m rule: bt_insert.induct) (auto simp: bt_get_def)

lemma bt_get_remove: "bt_get k' (bt_remove k m) = (if k' = k then None else bt_get k' m)"
  by (induction m) (auto simp: bt_get_def bt_remove_def)

lemma bt_get_Nil [simp]: "bt_get k [] = None"
  by (simp add: bt_get_def)

lemma bt_wf_distinct: "bt_wf m \<Longrightarrow> distinct (map fst m)"
  by (simp add: bt_wf_def strict_sorted_iff)

lemma bt_get_set: "bt_wf m \<Longrightarrow> (k, v) \<in> set m \<longleftrightarrow> bt_get k m = Some v"
  by (simp add: bt_get_def bt_wf_distinct)

lemma bt_get_None: "bt_get k m = None \<longleftrightarrow> k \<notin> fst ` set m"
  by (simp add: bt_get_def map_of_eq_None_iff)

lemma bt_ext:
  assumes "bt_wf m" "bt_wf m'" and eq: "\<And>k. bt_get k m = bt_get k m'"
  shows "m = m'"
proof -
  have sets: "set m = set m'"
    using bt_get_set [OF assms(1)] bt_get_set [OF assms(2)] eq by auto
  have "inj_on fst (set m \<union> set m')"
    using bt_wf_distinct [OF assms(1)] sets by (simp add: distinct_map)
  moreover have "sorted (map fst m)" "sorted (map fst m')"
    using assms(1,2) by (simp_all add: bt_wf_def strict_sorted_imp_sorted)
  ultimately show ?thesis
    using sets bt_wf_distinct [OF assms(1)] bt_wf_distinct [OF assms(2)]
    by (metis map_sorted_distinct_set_unique)
qed

interpretation bt: keyed_store bt_wf "[]" bt_get bt_insert bt_remove
  by unfold_locales
    (auto simp: bt_wf_insert bt_wf_remove bt_get_insert bt_get_remove intro: bt_ext)

lemmas bt_store [bt_simps] = bt_get_insert bt_get_remove bt_get_Nil bt_wf_insert bt_wf_remove

lemma bt_values_insert_subset:
  "x \<in> set (bt_values (bt_insert k v m)) \<Longrightarrow> x = v \<or> x \<in> set (bt_values m)"
  by (induction k v m rule: bt_insert.induct) (auto simp: bt_values_def split: if_splits)

lemma bt_get_values: "bt_get k m = Some v \<Longrightarrow> v \<in> set (bt_values m)"
  by (force simp: bt_get_def bt_values_def dest: map_of_SomeD)

lemma bt_values_get: "bt_wf m \<Longrightarrow> v \<in> set (bt_values m) \<Longrightarrow> \<exists>k. bt_get k m = Some v"
  by (auto simp: bt_values_def bt_get_set [symmetric])

lemma bt_keys_get: "k \<in> set (bt_keys m) \<longleftrightarrow> bt_get k m \<noteq> None"
  by (auto simp: bt_keys_def bt_get_None)

end
