(* ===== verification/Rc.thy ===== *)
theory Rc
  imports Prelude
begin

text \<open>
  The rc client (crates/core/src/rc.rs): why a call failed and which failures mean "no usable
  rc here", the check that a socket is private, one attempt at a call, and the retry loop with
  its single time budget. The kernel and rclone are parameters: what a \<^verbatim>\<open>stat\<close> of the socket
  and of its directory answers, what each stage of the HTTP exchange answers, and how long an
  attempt takes. Durations are nanoseconds; the text of a foreign error is a string.
\<close>

unbundle bit_operations_syntax

section \<open>Errors\<close>

datatype rc_error =
    NotListening string
  | InsecureSocket string string
  | Connect string string
  | Timeout string nat
  | Failed string nat string
  | Decode string string
  | InvalidCommand string string
  | ResponseTooLarge string nat
  | Transport string string

fun is_unreachable :: "rc_error \<Rightarrow> bool" where
  "is_unreachable (NotListening _) = True"
| "is_unreachable (InsecureSocket _ _) = True"
| "is_unreachable (Connect _ _) = True"
| "is_unreachable (Timeout _ _) = True"
| "is_unreachable (Transport _ _) = True"
| "is_unreachable _ = False"

fun is_transport :: "rc_error \<Rightarrow> bool" where
  "is_transport (Transport _ _) = True"
| "is_transport _ = False"

text \<open>\<^verbatim>\<open>{:.1?}\<close> of a \<^verbatim>\<open>Duration\<close>: one decimal in the largest unit with a non-zero integer part.\<close>

definition show_tenths :: "nat \<Rightarrow> nat \<Rightarrow> string" where
  "show_tenths n unit =
     (let t = n * 10 div unit; rest = n * 10 mod unit;
          t' = (if 2 * rest > unit \<or> 2 * rest = unit \<and> odd t then t + 1 else t)
      in show_nat (t' div 10) @ ''.'' @ show_nat (t' mod 10))"

definition show_duration1 :: "nat \<Rightarrow> string" where
  "show_duration1 ns =
     (if 1000000000 \<le> ns then show_tenths ns 1000000000 @ ''s''
      else if 1000000 \<le> ns then show_tenths ns 1000000 @ ''ms''
      else if 1000 \<le> ns then show_tenths ns 1000 @ [CHR 0xC2, CHR 0xB5] @ ''s''
      else show_tenths ns 1 @ ''ns'')"

fun rc_error_text :: "rc_error \<Rightarrow> string" where
  "rc_error_text (NotListening path) = ''no rc socket at '' @ path"
| "rc_error_text (InsecureSocket path reason) =
     ''rc socket '' @ path @ '' is not private: '' @ reason @ ''. Refusing to connect.''"
| "rc_error_text (Connect path src) =
     ''could not connect to rc socket '' @ path @ '': '' @ src"
| "rc_error_text (Timeout command after) =
     ''rc call '' @ command @ '' timed out after '' @ show_duration1 after"
| "rc_error_text (Failed command status body) =
     ''rc call '' @ command @ '' failed ('' @ show_nat status @ ''): '' @ body"
| "rc_error_text (Decode command src) =
     ''rc call '' @ command @ '' returned unreadable JSON: '' @ src"
| "rc_error_text (InvalidCommand command src) =
     ''rc command '' @ command @ '' is not a valid request path: '' @ src"
| "rc_error_text (ResponseTooLarge command limit) =
     ''rc call '' @ command @ '' returned more than '' @ show_nat limit @ '' bytes''"
| "rc_error_text (Transport command src) =
     ''rc call '' @ command @ '' failed: '' @ src"

declare rc_error_text.simps [simp del]

section \<open>The client\<close>

record rc_client =
  socket :: string
  timeout :: nat
  max_attempts :: nat
  max_body :: nat
  expected_owner_uid :: "nat option"
  expected_peer_uid :: "nat option"

definition call_timeout :: nat where "call_timeout = 10000000000"
definition retry_base_delay :: nat where "retry_base_delay = 100000000"
definition max_body_default :: nat where "max_body_default = 64 * 1024 * 1024"

definition rc_new :: "string \<Rightarrow> rc_client" where
  "rc_new sock =
     \<lparr>socket = sock, timeout = call_timeout, max_attempts = 3, max_body = max_body_default,
      expected_owner_uid = None, expected_peer_uid = None\<rparr>"

definition with_limits :: "rc_client \<Rightarrow> nat \<Rightarrow> nat \<Rightarrow> rc_client" where
  "with_limits c t n = c\<lparr>timeout := t, max_attempts := max n 1\<rparr>"

definition required_owner_uid :: "rc_client \<Rightarrow> nat \<Rightarrow> nat" where
  "required_owner_uid c me = unwrap_or (expected_owner_uid c) me"

definition required_peer_uid :: "rc_client \<Rightarrow> nat \<Rightarrow> nat" where
  "required_peer_uid c me = unwrap_or (expected_peer_uid c) me"

text \<open>The socket's file name: \<open>%\<close> and \<open>/\<close> are escaped, everything else stands for itself.\<close>

fun escape_name :: "string \<Rightarrow> string" where
  "escape_name [] = []"
| "escape_name (c # s) =
     (if c = CHR ''/'' then ''%2F'' else if c = CHR ''%'' then ''%25'' else [c]) @ escape_name s"

definition socket_file_name :: "string \<Rightarrow> string" where
  "socket_file_name name = escape_name name @ ''.sock''"

fun unescape_name :: "string \<Rightarrow> string option" where
  "unescape_name [] = Some []"
| "unescape_name (c # s) =
     (if c = CHR ''%'' then
        (case s of
           a # b # rest \<Rightarrow>
             (if a = CHR ''2'' \<and> b = CHR ''F'' then map_option ((#) (CHR ''/'')) (unescape_name rest)
              else if a = CHR ''2'' \<and> b = CHR ''5'' then map_option ((#) (CHR ''%'')) (unescape_name rest)
              else None)
         | _ \<Rightarrow> None)
      else if c = CHR ''/'' then None
      else map_option ((#) c) (unescape_name s))"

definition name_of_socket :: "string \<Rightarrow> string option" where
  "name_of_socket f = (case strip_suffix ''.sock'' f of None \<Rightarrow> None | Some e \<Rightarrow> unescape_name e)"

definition path_join :: "string \<Rightarrow> string \<Rightarrow> string" where
  "path_join base p =
     (if starts_with ''/'' p then p
      else if base = [] \<or> last base = CHR ''/'' then base @ p
      else base @ ''/'' @ p)"

definition socket_dir :: "string option \<Rightarrow> string option" where
  "socket_dir xdg_runtime_dir =
     map_option (\<lambda>v. path_join v ''rclone-vfsmount-tray'')
       (option_filter (\<lambda>v. v \<noteq> []) xdg_runtime_dir)"

definition socket_path_for :: "string option \<Rightarrow> string \<Rightarrow> string option" where
  "socket_path_for xdg name = map_option (\<lambda>d. path_join d (socket_file_name name)) (socket_dir xdg)"

lemma unescape_escape: "unescape_name (escape_name s) = Some s"
  by (induction s) auto

lemma escape_name_no_slash: "CHR ''/'' \<notin> set (escape_name s)"
  by (induction s) auto

lemma strip_suffix_append [simp]: "strip_suffix p (s @ p) = Some s"
  by (simp add: strip_suffix_def ends_with_def)

interpretation sock: codec socket_file_name name_of_socket "\<lambda>_. True"
  by unfold_locales (simp add: socket_file_name_def name_of_socket_def unescape_escape)

section \<open>Privacy of the socket\<close>

datatype file_kind = Socket | Symlink | Directory | Regular | OtherKind

record stat =
  st_kind :: file_kind
  st_mode :: "32 word"
  st_uid :: nat

datatype io_error = IoNotFound | IoOther string

fun io_text :: "io_error \<Rightarrow> string" where
  "io_text IoNotFound = ''No such file or directory (os error 2)''"
| "io_text (IoOther t) = t"

definition show_mode4 :: "32 word \<Rightarrow> string" where
  "show_mode4 m =
     (let d = show_base 8 (unat m) in replicate (4 - length d) (CHR ''0'') @ d)"

definition msg_dir_writable :: "string \<Rightarrow> 32 word \<Rightarrow> string" where
  "msg_dir_writable dir mode =
     ''its directory '' @ dir @ '' is mode '' @ show_mode4 (mode AND 0x1FF)
       @ '' and writable by others, so the socket can be replaced''"

definition msg_dir_uninspected :: "string \<Rightarrow> io_error \<Rightarrow> string" where
  "msg_dir_uninspected dir e =
     ''its directory '' @ dir @ '' could not be inspected: '' @ io_text e"

definition msg_mode_loose :: "32 word \<Rightarrow> string" where
  "msg_mode_loose mode =
     ''mode '' @ show_mode4 mode
       @ '' allows access beyond its owner, and its directory does not exclude other users either''"

definition msg_owner :: "nat \<Rightarrow> nat \<Rightarrow> string" where
  "msg_owner found want = ''owned by uid '' @ show_nat found @ '', not '' @ show_nat want"

text \<open>
  \<open>verify\<close>: \<open>sock\<close> is what \<^verbatim>\<open>symlink_metadata\<close> answers for the socket; \<open>parent\<close> is the
  socket's directory with what \<^verbatim>\<open>metadata\<close> answers for it, absent for a path with none.
\<close>

definition verify ::
  "rc_client \<Rightarrow> nat \<Rightarrow> io_error + stat \<Rightarrow> (string \<times> (io_error + stat)) option \<Rightarrow> rc_error + unit"
where
  "verify c me sock parent =
     (case sock of
        Inl IoNotFound \<Rightarrow> Inl (NotListening (socket c))
      | Inl (IoOther t) \<Rightarrow> Inl (Connect (socket c) t)
      | Inr md \<Rightarrow>
          if st_kind md \<noteq> Socket then
            Inl (InsecureSocket (socket c)
              (if st_kind md = Symlink then ''a symlink, not a socket'' else ''not a socket''))
          else
            (case (case parent of
                     None \<Rightarrow> Inr False
                   | Some (dir, Inl e) \<Rightarrow>
                       Inl (InsecureSocket (socket c) (msg_dir_uninspected dir e))
                   | Some (dir, Inr d) \<Rightarrow>
                       if st_mode d AND 0x12 \<noteq> 0 then
                         Inl (InsecureSocket (socket c) (msg_dir_writable dir (st_mode d)))
                       else Inr (st_mode d AND 0x3F = 0 \<and> st_uid d = me)) of
               Inl e \<Rightarrow> Inl e
             | Inr dir_is_private \<Rightarrow>
                 let mode = st_mode md AND 0x1FF; uid = required_owner_uid c me in
                 if mode AND 0x3F \<noteq> 0 \<and> \<not> dir_is_private then
                   Inl (InsecureSocket (socket c) (msg_mode_loose mode))
                 else if st_uid md \<noteq> uid then
                   Inl (InsecureSocket (socket c) (msg_owner (st_uid md) uid))
                 else Inr ()))"

lemma verify_Inr:
  assumes "verify c me sock parent = Inr ()"
  shows "\<exists>md. sock = Inr md \<and> st_kind md = Socket \<and> st_uid md = required_owner_uid c me
      \<and> (\<forall>dir d. parent = Some (dir, Inr d) \<longrightarrow> st_mode d AND 0x12 = 0)
      \<and> (\<forall>dir e. parent \<noteq> Some (dir, Inl e))
      \<and> ((st_mode md AND 0x1FF) AND 0x3F = 0
         \<or> (\<exists>dir d. parent = Some (dir, Inr d) \<and> st_mode d AND 0x3F = 0 \<and> st_uid d = me))"
  using assms
  by (auto simp: verify_def Let_def split: sum.splits io_error.splits if_splits option.splits prod.splits)

lemma verify_Inl: "verify c me sock parent = Inl e \<Longrightarrow> is_unreachable e"
  by (auto simp: verify_def Let_def split: sum.splits io_error.splits if_splits option.splits prod.splits)

section \<open>One attempt\<close>

text \<open>What the kernel and rclone answer, stage by stage, during one attempt.\<close>

record wire =
  w_sock :: "io_error + stat"
  w_parent :: "(string \<times> (io_error + stat)) option"
  w_request :: "string + unit"
  w_connect :: "io_error + unit"
  w_refused :: bool
  w_peer :: "string + nat"
  w_handshake :: "string + unit"
  w_send :: "string + nat"
  w_body :: "string + string"

definition msg_peer :: "nat \<Rightarrow> nat \<Rightarrow> string" where
  "msg_peer found want = ''served by uid '' @ show_nat found @ '', not '' @ show_nat want"

text \<open>
  \<open>w_refused\<close> is \<^verbatim>\<open>ConnectionRefused\<close>, which counts as nobody listening. The body is either
  a read error or the bytes the server would send; more than the cap is its own failure.
\<close>

definition attempt :: "rc_client \<Rightarrow> nat \<Rightarrow> string \<Rightarrow> wire \<Rightarrow> rc_error + string" where
  "attempt c me command w =
     (case verify c me (w_sock w) (w_parent w) of Inl e \<Rightarrow> Inl e | Inr _ \<Rightarrow>
      (case w_request w of Inl t \<Rightarrow> Inl (InvalidCommand command t) | Inr _ \<Rightarrow>
      (case w_connect w of
         Inl e \<Rightarrow> if e = IoNotFound \<or> w_refused w then Inl (NotListening (socket c))
                  else Inl (Connect (socket c) (io_text e))
       | Inr _ \<Rightarrow>
      (case w_peer w of Inl t \<Rightarrow> Inl (Connect (socket c) t) | Inr uid \<Rightarrow>
       if uid \<noteq> required_peer_uid c me then
         Inl (InsecureSocket (socket c) (msg_peer uid (required_peer_uid c me)))
       else
      (case w_handshake w of Inl t \<Rightarrow> Inl (Transport command t) | Inr _ \<Rightarrow>
      (case w_send w of Inl t \<Rightarrow> Inl (Transport command t) | Inr status \<Rightarrow>
      (case w_body w of Inl t \<Rightarrow> Inl (Transport command t) | Inr body \<Rightarrow>
       if max_body c < length body then Inl (ResponseTooLarge command (max_body c))
       else if \<not> (200 \<le> status \<and> status < 300) then Inl (Failed command status (trim (from_utf8_lossy body)))
       else Inr body)))))))"

lemma attempt_Inr:
  assumes "attempt c me command w = Inr body"
  shows "verify c me (w_sock w) (w_parent w) = Inr ()" "w_peer w = Inr (required_peer_uid c me)"
    "w_body w = Inr body" "length body \<le> max_body c"
  using assms
  by (auto simp: attempt_def split: sum.splits if_splits)

lemma attempt_failed_status:
  "attempt c me command w = Inl (Failed cmd status body) \<Longrightarrow> \<not> (200 \<le> status \<and> status < 300)"
  using verify_Inl [of c me "w_sock w" "w_parent w"]
  by (fastforce simp: attempt_def split: sum.splits if_splits)

section \<open>The retry loop\<close>

text \<open>
  \<open>step\<close> is the environment: from a state it gives an attempt's outcome, how long the attempt
  would run, and the state it leaves. An attempt that outlasts the time left is cut off there.
  The result carries the time spent and the number of attempts made.
\<close>

function call_loop ::
  "rc_client \<Rightarrow> string \<Rightarrow> ('w \<Rightarrow> (rc_error + string) \<times> nat \<times> 'w) \<Rightarrow> nat \<Rightarrow> nat \<Rightarrow> 'w
     \<Rightarrow> (rc_error + string) \<times> nat \<times> nat \<times> 'w"
where
  "call_loop c command step made now w =
     (let n = made + 1; left = timeout c - now in
      if left = 0 then (Inl (Timeout command (timeout c)), now, made, w)
      else (case step w of (r, took, w') \<Rightarrow>
        if left < took then (Inl (Timeout command (timeout c)), now + left, n, w')
        else (case r of
            Inr body \<Rightarrow> (Inr body, now + took, n, w')
          | Inl e \<Rightarrow>
              if \<not> is_transport e \<or> max_attempts c \<le> n then (Inl e, now + took, n, w')
              else let backoff = retry_base_delay * 2 ^ (n - 1) in
                if timeout c - (now + took) \<le> backoff then (Inl e, now + took, n, w')
                else call_loop c command step n (now + took + backoff) w')))"
  by pat_completeness auto
termination
  by (relation "measure (\<lambda>(c, _, _, made, _, _). max_attempts c - made)") auto

declare call_loop.simps [simp del]

definition call_raw ::
  "rc_client \<Rightarrow> string \<Rightarrow> ('w \<Rightarrow> (rc_error + string) \<times> nat \<times> 'w) \<Rightarrow> 'w
     \<Rightarrow> (rc_error + string) \<times> nat \<times> nat \<times> 'w"
where
  "call_raw c command step w = call_loop c command step 0 0 w"

definition call ::
  "rc_client \<Rightarrow> string \<Rightarrow> (string \<Rightarrow> string + 'a) \<Rightarrow> rc_error + string \<Rightarrow> rc_error + 'a"
where
  "call c command decode r =
     (case r of Inl e \<Rightarrow> Inl e
      | Inr body \<Rightarrow> (case decode body of Inl t \<Rightarrow> Inl (Decode command t) | Inr a \<Rightarrow> Inr a))"

lemma call_loop_budget:
  "call_loop c command step made now w = (r, spent, n, w') \<Longrightarrow> now \<le> timeout c
     \<Longrightarrow> spent \<le> timeout c"
proof (induction c command step made now w rule: call_loop.induct)
  case (1 c command step made now w)
  show ?case
    using 1(2,3) by (subst (asm) call_loop.simps)
      (auto simp: Let_def not_less not_le intro: 1(1) split: if_splits prod.splits sum.splits)
qed

lemma call_loop_attempts:
  "call_loop c command step made now w = (r, spent, n, w') \<Longrightarrow> made < max_attempts c
     \<Longrightarrow> n \<le> max_attempts c"
proof (induction c command step made now w rule: call_loop.induct)
  case (1 c command step made now w)
  show ?case
    using 1(2,3) by (subst (asm) call_loop.simps)
      (auto simp: Let_def not_less not_le intro: 1(1) split: if_splits prod.splits sum.splits)
qed

section \<open>Properties\<close>

text \<open>
  C25: No answer is ever taken from a socket that is not private. A call that returned a body
  found a real socket, owned by the required user, behind a directory nobody else can write,
  closed to others by its own mode or by its directory's, and served by a process of the
  required user; and the body is within the size cap.
\<close>

theorem answers_come_from_private_sockets:
  assumes "attempt c me command w = Inr body"
  shows "(\<exists>md. w_sock w = Inr md \<and> st_kind md = Socket \<and> st_uid md = required_owner_uid c me
      \<and> (\<forall>dir d. w_parent w = Some (dir, Inr d) \<longrightarrow> st_mode d AND 0x12 = 0)
      \<and> ((st_mode md AND 0x1FF) AND 0x3F = 0
         \<or> (\<exists>dir d. w_parent w = Some (dir, Inr d) \<and> st_mode d AND 0x3F = 0 \<and> st_uid d = me)))
    \<and> w_peer w = Inr (required_peer_uid c me) \<and> length body \<le> max_body c"
  using attempt_Inr [OF assms] verify_Inr [of c me "w_sock w" "w_parent w"] by blast

definition sample_wire :: "32 word \<Rightarrow> wire" where
  "sample_wire mode =
     \<lparr>w_sock = Inr \<lparr>st_kind = Socket, st_mode = mode, st_uid = 1000\<rparr>,
      w_parent = Some (''/run'', Inr \<lparr>st_kind = Directory, st_mode = 0x1C0, st_uid = 1000\<rparr>),
      w_request = Inr (), w_connect = Inr (), w_refused = False, w_peer = Inr 1000,
      w_handshake = Inr (), w_send = Inr 200, w_body = Inr ''{}''\<rparr>"

lemma sample_attempt: "attempt (rc_new ''/run/s'') 1000 ''rc/list'' (sample_wire 0x1ED) = Inr ''{}''"
  by (simp add: attempt_def verify_def sample_wire_def rc_new_def required_owner_uid_def
      required_peer_uid_def max_body_default_def Let_def)

theorem answers_come_from_private_sockets_witness:
  "length ''{}'' \<le> max_body (rc_new ''/run/s'') \<and> w_peer (sample_wire 0x1ED) = Inr 1000"
  using answers_come_from_private_sockets [OF sample_attempt]
  by (simp add: rc_new_def required_peer_uid_def)

lemma call_loop_last:
  "call_loop c command step made now w = (Inl e, spent, n, w') \<Longrightarrow> n < max_attempts c
     \<Longrightarrow> is_transport e \<Longrightarrow> timeout c \<le> spent + retry_base_delay * 2 ^ (n - 1)"
proof (induction c command step made now w rule: call_loop.induct)
  case (1 c command step made now w)
  show ?case
    using 1(2-4) by (subst (asm) call_loop.simps)
      (auto simp: Let_def not_less not_le intro: 1(1) [unfolded One_nat_def] split: if_splits prod.splits sum.splits)
qed

text \<open>
  C26: A call is bounded whatever rclone does: it returns, within its one time budget retries and
  back-off included and after at most its number of attempts; and it gives up early on a
  transport fault only when the budget leaves no room for the next back-off.
\<close>

theorem call_is_bounded:
  assumes "call_raw c command step w = (r, spent, n, w')" "0 < max_attempts c"
  shows "spent \<le> timeout c \<and> n \<le> max_attempts c
    \<and> (\<forall>e. r = Inl e \<longrightarrow> is_transport e \<longrightarrow> n < max_attempts c \<longrightarrow>
         timeout c \<le> spent + retry_base_delay * 2 ^ (n - 1))"
  using assms call_loop_budget call_loop_attempts call_loop_last
  unfolding call_raw_def by (metis zero_le)

theorem call_is_bounded_witness:
  "fst (snd (snd (call_raw (rc_new ''/run/s'') ''rc/list'' (\<lambda>k. (Inl (Transport ''rc/list'' ''reset''), 7, k + 1)) (0 :: nat))))
     \<le> 3"
  using call_is_bounded [of "rc_new ''/run/s''" "''rc/list''"
      "\<lambda>k. (Inl (Transport ''rc/list'' ''reset''), 7, k + 1)" "0 :: nat"]
  by (cases "call_raw (rc_new ''/run/s'') ''rc/list''
        (\<lambda>k. (Inl (Transport ''rc/list'' ''reset''), 7, k + 1)) (0 :: nat)")
    (simp add: rc_new_def)

text \<open>
  Two mounts never share a socket: the file name is injective in the mount's name, whatever
  characters the name has, and never contains a slash, so it stays in the runtime directory.
\<close>

theorem socket_names_are_private:
  "(socket_file_name a = socket_file_name b \<longleftrightarrow> a = b) \<and> CHR ''/'' \<notin> set (socket_file_name a)"
  using sock.enc_inj [of a b] escape_name_no_slash [of a] by (auto simp: socket_file_name_def)

end
