(* ===== verification/Models.thy ===== *)
theory Models
  imports Complex_Main Rc
begin

text \<open>
  The rc API's answers and the on-disk cache metadata (crates/core/src/models.rs), with the
  cache mode they are read against (crates/core/src/config.rs). Decoding JSON is serde's
  work and not modelled: a record here is an answer already decoded. A double is the rational
  it denotes; JSON carries no infinity and no NaN, so every decoded one is finite.
\<close>

type_synonym f64 = rat

section \<open>The cache mode\<close>

datatype cache_mode = Off | Minimal | Writes | Full

fun cache_mode_str :: "cache_mode \<Rightarrow> string" where
  "cache_mode_str Off = ''off''"
| "cache_mode_str Minimal = ''minimal''"
| "cache_mode_str Writes = ''writes''"
| "cache_mode_str Full = ''full''"

fun has_writeback :: "cache_mode \<Rightarrow> bool" where
  "has_writeback Off = False"
| "has_writeback _ = True"

fun all_writes_queued :: "cache_mode \<Rightarrow> bool" where
  "all_writes_queued Writes = True"
| "all_writes_queued Full = True"
| "all_writes_queued _ = False"

definition cache_mode_default :: cache_mode where "cache_mode_default = Writes"

lemma all_writes_queued_writeback: "all_writes_queued m \<Longrightarrow> has_writeback m"
  by (cases m) auto

text \<open>How often to poll, in seconds (the \<^verbatim>\<open>poll\<close> table of the settings).\<close>

record poll =
  active_secs :: u64
  idle_secs :: u64

definition poll_default :: poll where
  "poll_default = \<lparr>active_secs = 1, idle_secs = 15\<rparr>"

section \<open>core/stats\<close>

definition GLOBAL_STATS_GROUP :: string where "GLOBAL_STATS_GROUP = ''global_stats''"

record transfer =
  tr_name :: string
  tr_size :: i64
  tr_bytes :: i64
  tr_percentage :: "32 word option"
  tr_speed :: f64
  tr_speed_avg :: f64
  tr_eta :: "f64 option"
  tr_group :: "string option"
  tr_src_fs :: "string option"
  tr_dst_fs :: "string option"

record core_stats =
  cs_bytes :: i64
  cs_total_bytes :: i64
  cs_speed :: f64
  cs_eta :: "f64 option"
  cs_transfers :: i64
  cs_total_transfers :: i64
  cs_errors :: i64
  cs_fatal_error :: bool
  cs_retry_error :: bool
  cs_checks :: i64
  cs_total_checks :: i64
  cs_elapsed_time :: f64
  cs_transfer_time :: f64
  cs_last_error :: "string option"
  cs_checking :: "string list option"
  cs_transferring :: "transfer list option"

text \<open>\<^verbatim>\<open>Default\<close> of both, the value a missing key decodes to.\<close>

definition transfer_default :: transfer where
  "transfer_default =
     \<lparr>tr_name = [], tr_size = 0, tr_bytes = 0, tr_percentage = None, tr_speed = 0,
      tr_speed_avg = 0, tr_eta = None, tr_group = None, tr_src_fs = None, tr_dst_fs = None\<rparr>"

definition core_stats_default :: core_stats where
  "core_stats_default =
     \<lparr>cs_bytes = 0, cs_total_bytes = 0, cs_speed = 0, cs_eta = None, cs_transfers = 0,
      cs_total_transfers = 0, cs_errors = 0, cs_fatal_error = False, cs_retry_error = False,
      cs_checks = 0, cs_total_checks = 0, cs_elapsed_time = 0, cs_transfer_time = 0,
      cs_last_error = None, cs_checking = None, cs_transferring = None\<rparr>"

text \<open>rclone's \<^verbatim>\<open>:backend{hash}:\<close> tag, cut at the first closing \<^verbatim>\<open>}:\<close>.\<close>

definition strip_backend_tag :: "string \<Rightarrow> string" where
  "strip_backend_tag fs =
     unwrap_or
       (case strip_prefix '':'' fs of
          None \<Rightarrow> None
        | Some rest \<Rightarrow> map_option snd (split_at_first ''}:'' rest)) fs"

definition has_accounting :: "transfer \<Rightarrow> bool" where
  "has_accounting t = (tr_group t \<noteq> None)"

definition is_ungrouped :: "transfer \<Rightarrow> bool" where
  "is_ungrouped t = (tr_group t = Some GLOBAL_STATS_GROUP)"

definition belongs_to_cache :: "transfer \<Rightarrow> string \<Rightarrow> bool" where
  "belongs_to_cache t cache_path =
     (if cache_path = [] then False
      else (case tr_src_fs t of
              None \<Rightarrow> False
            | Some src \<Rightarrow> strip_backend_tag src = cache_path))"

definition is_writeback_upload :: "transfer \<Rightarrow> string \<Rightarrow> bool" where
  "is_writeback_upload t cache_path = (is_ungrouped t \<and> belongs_to_cache t cache_path)"

definition known_size :: "transfer \<Rightarrow> u64 option" where
  "known_size t = u64_try_from (tr_size t)"

definition transfers_slice :: "core_stats \<Rightarrow> transfer list" where
  "transfers_slice s = unwrap_or (cs_transferring s) []"

definition reported_transferring :: "core_stats \<Rightarrow> bool" where
  "reported_transferring s = (cs_transferring s \<noteq> None)"

definition writeback_uploads :: "core_stats \<Rightarrow> string \<Rightarrow> transfer list" where
  "writeback_uploads s cache_path =
     filter (\<lambda>t. is_writeback_upload t cache_path) (transfers_slice s)"

definition ungrouped_transfers :: "core_stats \<Rightarrow> transfer list" where
  "ungrouped_transfers s = filter is_ungrouped (transfers_slice s)"

lemma split_at_first_skip:
  "split_at_first p s = None \<Longrightarrow> p = [a, b] \<Longrightarrow> a \<noteq> b \<Longrightarrow> a \<notin> set s
     \<Longrightarrow> split_at_first p (s @ p @ t) = Some (s, t)"
  by (induction s) (auto simp: strip_prefix_def starts_with_def split: if_splits option.splits)

lemma split_at_first_absent: "a \<notin> set s \<Longrightarrow> p = [a, b] \<Longrightarrow> split_at_first p s = None"
  by (induction s) (auto simp: strip_prefix_def starts_with_def)

lemma strip_backend_tag_tagged:
  assumes "CHR ''}'' \<notin> set tag"
  shows "strip_backend_tag ('':'' @ tag @ ''}:'' @ path) = path"
proof -
  have "split_at_first ''}:'' (tag @ ''}:'' @ path) = Some (tag, path)"
    using assms by (intro split_at_first_skip split_at_first_absent) auto
  then show ?thesis
    by (simp add: strip_backend_tag_def strip_prefix_def starts_with_def)
qed

lemma strip_backend_tag_bare: "\<not> starts_with '':'' fs \<Longrightarrow> strip_backend_tag fs = fs"
  by (simp add: strip_backend_tag_def strip_prefix_def)

lemma belongs_to_cache_unique:
  "belongs_to_cache t p \<Longrightarrow> belongs_to_cache t q \<Longrightarrow> p = q"
  by (auto simp: belongs_to_cache_def split: if_splits option.splits)

section \<open>vfs/queue\<close>

record queue_item =
  qi_name :: string
  qi_id :: u64
  qi_size :: i64
  qi_expiry :: f64
  qi_delay :: f64
  qi_tries :: u64
  qi_uploading :: bool

record vfs_queue =
  vq_queue :: "queue_item list option"

record pending =
  pd_files :: u64
  pd_known_bytes :: u64
  pd_unknown_size_files :: u64

definition pending_new :: "u64 \<Rightarrow> u64 \<Rightarrow> u64 \<Rightarrow> pending" where
  "pending_new files known unknown =
     \<lparr>pd_files = files, pd_known_bytes = known, pd_unknown_size_files = unknown\<rparr>"

definition pending_default :: pending where "pending_default = pending_new 0 0 0"

definition pending_is_empty :: "pending \<Rightarrow> bool" where
  "pending_is_empty p = (pd_files p = 0)"

definition is_exact :: "pending \<Rightarrow> bool" where
  "is_exact p = (pd_unknown_size_files p = 0)"

definition items :: "vfs_queue \<Rightarrow> queue_item list" where
  "items q = unwrap_or (vq_queue q) []"

definition reported_queue :: "vfs_queue \<Rightarrow> bool" where
  "reported_queue q = (vq_queue q \<noteq> None)"

text \<open>One turn of the loop; \<^verbatim>\<open>+=\<close> wraps, as it does in a release build.\<close>

definition add_item :: "pending \<Rightarrow> queue_item \<Rightarrow> pending" where
  "add_item p item =
     (let p = p\<lparr>pd_files := pd_files p + 1\<rparr> in
      case u64_try_from (qi_size item) of
        Some bytes \<Rightarrow> p\<lparr>pd_known_bytes := pd_known_bytes p + bytes\<rparr>
      | None \<Rightarrow> p\<lparr>pd_unknown_size_files := pd_unknown_size_files p + 1\<rparr>)"

definition pending_of :: "vfs_queue \<Rightarrow> pending" where
  "pending_of q = foldl add_item pending_default (items q)"

definition pending_bytes :: "vfs_queue \<Rightarrow> u64" where
  "pending_bytes q = pd_known_bytes (pending_of q)"

definition uploading :: "vfs_queue \<Rightarrow> queue_item list" where
  "uploading q = filter qi_uploading (items q)"

text \<open>The exact total the counters stand for, over unbounded numbers.\<close>

definition known_total :: "queue_item list \<Rightarrow> nat" where
  "known_total xs = (\<Sum>i\<leftarrow>xs. case u64_try_from (qi_size i) of Some b \<Rightarrow> unat b | None \<Rightarrow> 0)"

definition unknown_total :: "queue_item list \<Rightarrow> nat" where
  "unknown_total xs = length (filter (\<lambda>i. sint (qi_size i) < 0) xs)"

lemma foldl_add_item:
  "foldl add_item p xs =
     \<lparr>pd_files = pd_files p + of_nat (length xs),
      pd_known_bytes = pd_known_bytes p + of_nat (known_total xs),
      pd_unknown_size_files = pd_unknown_size_files p + of_nat (unknown_total xs)\<rparr>"
proof (induction xs arbitrary: p)
  case Nil
  show ?case by (simp add: known_total_def unknown_total_def)
next
  case (Cons i xs)
  then show ?case
    by (auto simp: add_item_def known_total_def unknown_total_def u64_try_from_def Let_def
        algebra_simps)
qed

lemma pending_of_eq:
  "pending_of q = pending_new (of_nat (length (items q))) (of_nat (known_total (items q)))
     (of_nat (unknown_total (items q)))"
  by (simp add: pending_of_def foldl_add_item pending_default_def pending_new_def)

text \<open>
  \<open>VfsQueue::pending\<close> counts every queued file, sums the sizes rclone knew and counts the
  rest apart, so that as long as the figures fit in 64 bits the summary is exactly right; it
  is marked exact only if no size was unknown, and empty only for an empty queue.
\<close>

theorem pending_of_correct:
  assumes "known_total (items q) < 2 ^ 64" "length (items q) < 2 ^ 64"
  shows "unat (pd_files (pending_of q)) = length (items q)
    \<and> unat (pd_known_bytes (pending_of q)) = known_total (items q)
    \<and> unat (pd_unknown_size_files (pending_of q)) = unknown_total (items q)
    \<and> (is_exact (pending_of q) \<longleftrightarrow> (\<forall>i. i \<in> set (items q) \<longrightarrow> 0 \<le> sint (qi_size i)))
    \<and> (pending_is_empty (pending_of q) \<longleftrightarrow> items q = [])"
proof -
  have "unknown_total (items q) < 2 ^ 64"
    using le_less_trans [OF length_filter_le assms(2)] by (simp add: unknown_total_def)
  then have counts: "unat (pd_files (pending_of q)) = length (items q)"
      "unat (pd_known_bytes (pending_of q)) = known_total (items q)"
      "unat (pd_unknown_size_files (pending_of q)) = unknown_total (items q)"
    using assms by (simp_all add: pending_of_eq pending_new_def unsigned_of_nat take_bit_nat_eq_self)
  then have "is_exact (pending_of q) \<longleftrightarrow> unknown_total (items q) = 0"
      "pending_is_empty (pending_of q) \<longleftrightarrow> length (items q) = 0"
    by (simp_all add: is_exact_def pending_is_empty_def flip: unat_eq_zero)
  with counts show ?thesis
    by (auto simp: unknown_total_def filter_empty_conv not_less)
qed

definition sample_item :: "string \<Rightarrow> i64 \<Rightarrow> bool \<Rightarrow> queue_item" where
  "sample_item name sz up =
     \<lparr>qi_name = name, qi_id = 0, qi_size = sz, qi_expiry = 0, qi_delay = 0, qi_tries = 0,
      qi_uploading = up\<rparr>"

theorem pending_of_correct_witness:
  "is_exact (pending_of \<lparr>vq_queue = Some [sample_item ''a'' 5 True, sample_item ''b'' (- 1) False]\<rparr>)
     = False"
  using pending_of_correct
    [of "\<lparr>vq_queue = Some [sample_item ''a'' 5 True, sample_item ''b'' (- 1) False]\<rparr>"]
  by (simp add: items_def sample_item_def known_total_def u64_try_from_def)

section \<open>vfs/stats, rc/list and the cache metadata\<close>

text \<open>A decoded \<^verbatim>\<open>serde_json::Value\<close>. An object keeps one value per key.\<close>

datatype json = JNull | JBool bool | JInt int | JFloat f64 | JString string | JArray "json list"
  | JObject "(string \<times> json) list"

fun json_get :: "string \<Rightarrow> json \<Rightarrow> json option" where
  "json_get k (JObject kvs) = map_of kvs k"
| "json_get k _ = None"

fun as_u64 :: "json \<Rightarrow> u64 option" where
  "as_u64 (JInt n) = (if 0 \<le> n \<and> n < 2 ^ 64 then Some (of_int n) else None)"
| "as_u64 _ = None"

record disk_cache =
  dc_bytes_used :: i64
  dc_errored_files :: u64
  dc_files :: u64
  dc_hash_type :: i64
  dc_out_of_space :: bool
  dc_path :: string
  dc_path_meta :: string
  dc_uploads_in_progress :: u64
  dc_uploads_queued :: u64

record metadata_cache =
  mc_dirs :: u64
  mc_files :: u64

record vfs_stats =
  vs_fs :: "string option"
  vs_in_use :: "u64 option"
  vs_disk_cache :: "disk_cache option"
  vs_metadata_cache :: "metadata_cache option"
  vs_opt :: "json option"

text \<open>The mode the running mount reports: \<open>None\<close> is unknown, never \<open>Off\<close>.\<close>

definition cache_mode_of :: "vfs_stats \<Rightarrow> cache_mode option" where
  "cache_mode_of s =
     (case vs_opt s of None \<Rightarrow> None | Some opt \<Rightarrow>
      (case json_get ''CacheMode'' opt of None \<Rightarrow> None | Some v \<Rightarrow>
      (case as_u64 v of None \<Rightarrow> None | Some n \<Rightarrow>
         if n = 0 then Some Off else if n = 1 then Some Minimal
         else if n = 2 then Some Writes else if n = 3 then Some Full else None)))"

record rc_command =
  rcc_path :: string
  rcc_title :: string
  rcc_no_auth :: bool

record rc_list =
  rl_commands :: "rc_command list"

definition rc_list_has :: "rc_list \<Rightarrow> string \<Rightarrow> bool" where
  "rc_list_has l path = list_ex (\<lambda>c. rcc_path c = path) (rl_commands l)"

definition auth_required :: "rc_command \<Rightarrow> bool" where
  "auth_required c = (\<not> rcc_no_auth c)"

record core_version =
  cv_version :: string
  cv_decomposed :: "u64 list"
  cv_is_beta :: bool
  cv_is_git :: bool
  cv_os :: string
  cv_arch :: string
  cv_go_version :: string

record vfs_list =
  vl_vfses :: "string list"

record range =
  rg_pos :: u64
  rg_size :: u64

record vfs_meta_item =
  vm_mod_time :: string
  vm_atime :: string
  vm_size :: u64
  vm_ranges :: "range list option"
  vm_fingerprint :: string
  vm_dirty :: bool

end
