(* ===== verification/Capabilities.thy ===== *)
theory Capabilities
  imports Models
begin

text \<open>
  What one rclone can be asked and what may honestly be said as a result
  (crates/core/src/capabilities.rs), and the choice of the log filter (crates/core/src/lib.rs).
\<close>

section \<open>Tiers\<close>

datatype tier = T1 | T2 | T3 | T4

fun tier_rank :: "tier \<Rightarrow> nat" where
  "tier_rank T1 = 0"
| "tier_rank T2 = 1"
| "tier_rank T3 = 2"
| "tier_rank T4 = 3"

text \<open>The derived order is that of the declaration.\<close>

instantiation tier :: linorder
begin

definition less_eq_tier :: "tier \<Rightarrow> tier \<Rightarrow> bool" where
  "less_eq_tier a b = (tier_rank a \<le> tier_rank b)"

definition less_tier :: "tier \<Rightarrow> tier \<Rightarrow> bool" where
  "less_tier a b = (tier_rank a < tier_rank b)"

instance
proof
  fix a b :: tier
  show "a \<le> b \<Longrightarrow> b \<le> a \<Longrightarrow> a = b"
    by (cases a; cases b) (simp_all add: less_eq_tier_def)
qed (auto simp: less_eq_tier_def less_tier_def)

end

fun meets_the_bar :: "tier \<Rightarrow> bool" where
  "meets_the_bar T2 = True"
| "meets_the_bar T4 = True"
| "meets_the_bar _ = False"

fun has_per_file_progress :: "tier \<Rightarrow> bool" where
  "has_per_file_progress T1 = True"
| "has_per_file_progress _ = False"

fun has_in_flight_flag :: "tier \<Rightarrow> bool" where
  "has_in_flight_flag T1 = True"
| "has_in_flight_flag T2 = True"
| "has_in_flight_flag _ = False"

section \<open>Capabilities\<close>

record capabilities =
  cap_commands :: "string set"
  cap_degraded :: "string option"

definition from_paths :: "string list \<Rightarrow> capabilities" where
  "from_paths paths = \<lparr>cap_commands = set paths, cap_degraded = None\<rparr>"

definition from_refusal :: "string \<Rightarrow> capabilities" where
  "from_refusal reason = \<lparr>cap_commands = {}, cap_degraded = Some reason\<rparr>"

definition degraded_reason :: "capabilities \<Rightarrow> string option" where
  "degraded_reason c = cap_degraded c"

definition has :: "capabilities \<Rightarrow> string \<Rightarrow> bool" where
  "has c command = (command \<in> cap_commands c)"

definition rc_can_answer_outstanding :: "capabilities \<Rightarrow> bool" where
  "rc_can_answer_outstanding c = has c ''vfs/queue''"

definition cap_is_empty :: "capabilities \<Rightarrow> bool" where
  "cap_is_empty c = (cap_commands c = {})"

definition tier_of :: "capabilities \<Rightarrow> tier" where
  "tier_of c =
     (if has c ''core/stats'' then T1
      else if has c ''vfs/queue'' then T2
      else if has c ''vfs/stats'' then T3
      else T4)"

definition can_attribute_exactly :: "capabilities \<Rightarrow> bool" where
  "can_attribute_exactly c = has c ''vfs/stats''"

definition can_force_upload :: "capabilities \<Rightarrow> bool" where
  "can_force_upload c = has c ''vfs/queue-set-expiry''"

text \<open>\<open>answer\<close> is the outcome of the \<^verbatim>\<open>rc/list\<close> call.\<close>

definition probe :: "rc_error + rc_list \<Rightarrow> rc_error + capabilities" where
  "probe answer =
     (case answer of
        Inr l \<Rightarrow> Inr (from_paths (map rcc_path (rl_commands l)))
      | Inl e \<Rightarrow> if is_unreachable e then Inr (from_refusal (rc_error_text e)) else Inl e)"

lemma has_from_paths: "has (from_paths ps) c \<longleftrightarrow> c \<in> set ps"
  by (simp add: has_def from_paths_def)

lemma has_from_refusal [simp]: "\<not> has (from_refusal r) c"
  by (simp add: has_def from_refusal_def)

lemma tier_of_from_refusal [simp]: "tier_of (from_refusal r) = T4"
  by (simp add: tier_of_def)

lemma probe_has:
  "probe answer = Inr c \<Longrightarrow> has c command
     \<Longrightarrow> \<exists>l. answer = Inr l \<and> rc_list_has l command"
  by (auto simp: probe_def has_from_paths rc_list_has_def list_ex_iff split: sum.splits if_splits)

lemma probe_degraded:
  "probe answer = Inr c \<Longrightarrow> (degraded_reason c = None \<longleftrightarrow> (\<exists>l. answer = Inr l))"
  by (auto simp: probe_def from_paths_def from_refusal_def degraded_reason_def
      split: sum.splits if_splits)

text \<open>
  Knowing more commands never costs detail: a capability set with at least the commands of
  another has a tier at least as detailed, and every question the smaller one could settle
  (what is outstanding, whose transfer it is, forcing an upload) it can settle too.
\<close>

theorem capabilities_monotone:
  assumes "cap_commands a \<subseteq> cap_commands b"
  shows "tier_of b \<le> tier_of a
    \<and> (rc_can_answer_outstanding a \<longrightarrow> rc_can_answer_outstanding b)
    \<and> (can_attribute_exactly a \<longrightarrow> can_attribute_exactly b)
    \<and> (can_force_upload a \<longrightarrow> can_force_upload b)
    \<and> (has_in_flight_flag (tier_of a) \<longrightarrow> has_in_flight_flag (tier_of b))"
proof -
  have mono: "has a c \<Longrightarrow> has b c" for c using assms by (auto simp: has_def)
  then show ?thesis
    by (auto simp: tier_of_def rc_can_answer_outstanding_def can_attribute_exactly_def
        can_force_upload_def less_eq_tier_def)
qed

theorem capabilities_monotone_witness:
  "tier_of (from_paths [''vfs/stats'', ''vfs/queue'']) \<le> tier_of (from_paths [''vfs/stats''])"
  using capabilities_monotone
    [of "from_paths [''vfs/stats'']" "from_paths [''vfs/stats'', ''vfs/queue'']"]
  by (simp add: from_paths_def)

text \<open>
  Probing fails closed: a command is believed in only if rclone's own list named it; an
  rclone that could not be reached yields no command, the scan tier and the reason in words,
  and one that answered with a failure is reported as that failure, never as an empty set.
\<close>

theorem probe_fails_closed:
  "case probe answer of
     Inr c \<Rightarrow>
       (case answer of
          Inr l \<Rightarrow> degraded_reason c = None \<and> (\<forall>cmd. has c cmd = rc_list_has l cmd)
        | Inl e \<Rightarrow> is_unreachable e \<and> cap_is_empty c \<and> tier_of c = T4
            \<and> degraded_reason c = Some (rc_error_text e))
   | Inl e \<Rightarrow> answer = Inl e \<and> \<not> is_unreachable e"
  by (auto simp: probe_def has_from_paths rc_list_has_def list_ex_iff from_paths_def
      from_refusal_def degraded_reason_def cap_is_empty_def tier_of_def has_def split: sum.splits)

section \<open>The log filter\<close>

definition resolve_log_filter :: "string option \<Rightarrow> string option \<Rightarrow> string + string" where
  "resolve_log_filter flag env =
     (case flag of
        Some raw \<Rightarrow>
          (let level = trim raw in
           if to_ascii_lowercase level
                \<notin> set [''off'', ''error'', ''warn'', ''info'', ''debug'', ''trace'']
           then Inl raw else Inr level)
      | None \<Rightarrow> Inr (unwrap_or (option_filter (\<lambda>v. v \<noteq> []) (map_option trim env)) ''info''))"

text \<open>
  The log filter that is used is never blank, whichever door it came through, and the one
  given on the command line is one of the six levels in any case of letters; a rejected flag
  is handed back as it was typed.
\<close>

theorem resolve_log_filter_usable:
  "case resolve_log_filter flag env of
     Inr f \<Rightarrow> f \<noteq> []
       \<and> (\<forall>raw. flag = Some raw \<longrightarrow> f = trim raw \<and> to_ascii_lowercase f
            \<in> {''off'', ''error'', ''warn'', ''info'', ''debug'', ''trace''})
       \<and> (flag = None \<longrightarrow> f = ''info'' \<or> (\<exists>v. env = Some v \<and> f = trim v))
   | Inl bad \<Rightarrow> flag = Some bad"
  by (auto simp: resolve_log_filter_def Let_def to_ascii_lowercase_def option_filter_def
      split: option.splits sum.splits if_splits)

theorem resolve_log_filter_usable_witness:
  "resolve_log_filter (Some '' Info '') None = Inr ''Info''"
proof -
  have "resolve_log_filter (Some '' Info '') None = Inr ''Info''" by code_simp
  with resolve_log_filter_usable [of "Some '' Info ''" None] show ?thesis by simp
qed

end
