(* ===== verification/Scan.thy ===== *)
theory Scan
  imports Models
begin

text \<open>
  The on-disk tier (crates/core/src/scan.rs): a bounded walk of rclone's cache metadata that
  finds what has not reached the remote. The file system is a parameter. A walk asks about
  each path at most once, so one answer per path describes every history of the tree during
  the walk. A path is the list of its components.
\<close>

type_synonym path = "string list"

section \<open>What the file system answers\<close>

record dir_entry =
  de_name :: string
  de_type :: "io_error + file_kind"

record file_handle =
  fh_kind :: "io_error + file_kind"
  fh_read :: "io_error + string"

record fs =
  fs_read_dir :: "path \<Rightarrow> io_error + (io_error + dir_entry) list"
  fs_open :: "path \<Rightarrow> io_error + file_handle"
  fs_lstat :: "path \<Rightarrow> io_error + (file_kind \<times> u64)"
  fs_parse :: "string \<Rightarrow> vfs_meta_item option"

section \<open>The scan's result\<close>

definition MAX_DESCRIPTOR :: nat where "MAX_DESCRIPTOR = 64 * 1024"
definition MAX_ENTRIES :: nat where "MAX_ENTRIES = 50000"

record dirty_file =
  df_name :: string
  df_bytes :: "u64 option"

text \<open>\<open>unreadable\<close> counts at most one per entry and one per directory, far below 64 bits.\<close>

record cache_scan =
  sc_files :: "dirty_file list"
  sc_unreadable :: nat
  sc_truncated :: bool
  sc_root_present :: bool

definition scan_known_bytes :: "cache_scan \<Rightarrow> u64" where
  "scan_known_bytes s = foldl sat_add 0 (List.map_filter df_bytes (sc_files s))"

definition is_complete :: "cache_scan \<Rightarrow> bool" where
  "is_complete s = (sc_unreadable s = 0 \<and> \<not> sc_truncated s)"

lemma unat_foldl_sat_add:
  "unat (foldl sat_add a xs) = min (unat a + (\<Sum>x\<leftarrow>xs. unat x)) (2 ^ 64 - 1)"
proof (induction xs arbitrary: a)
  case Nil
  show ?case using unat_u64_less [of a] by simp
next
  case (Cons x xs)
  then show ?case by (simp add: unat_sat_add min_def)
qed

section \<open>Reading one entry\<close>

definition read_item :: "fs \<Rightarrow> path \<Rightarrow> vfs_meta_item option" where
  "read_item F path =
     (case fs_open F path of Inl _ \<Rightarrow> None | Inr h \<Rightarrow>
      (case fh_kind h of Inl _ \<Rightarrow> None | Inr k \<Rightarrow>
       if k \<noteq> Regular then None
       else (case fh_read h of Inl _ \<Rightarrow> None | Inr bytes \<Rightarrow>
         let buf = take MAX_DESCRIPTOR bytes in
         if is_utf8 buf then fs_parse F buf else None)))"

definition data_size :: "fs \<Rightarrow> path \<Rightarrow> u64 option" where
  "data_size F path =
     (case fs_lstat F path of Inl _ \<Rightarrow> None
      | Inr (k, len) \<Rightarrow> if k = Regular then Some len else None)"

definition relative_name :: "path \<Rightarrow> path \<Rightarrow> string option" where
  "relative_name base path =
     (if take (length base) path = base
      then (let rel = join ''/'' (drop (length base) path) in if is_utf8 rel then Some rel else None)
      else None)"

text \<open>\<^verbatim>\<open>data_root.join(name)\<close>, the components of a relative name appended.\<close>

definition join_name :: "path \<Rightarrow> string \<Rightarrow> path" where
  "join_name base name = base @ filter (\<lambda>c. c \<noteq> []) (split_on (CHR ''/'') name)"

section \<open>The walk\<close>

text \<open>
  What one entry adds: the directory to push, if it is one, and the updated result. The stack
  has its top first.
\<close>

definition skip_unreadable :: "cache_scan \<Rightarrow> cache_scan" where
  "skip_unreadable out = out\<lparr>sc_unreadable := sc_unreadable out + 1\<rparr>"

definition visit_entry ::
  "fs \<Rightarrow> path \<Rightarrow> path \<Rightarrow> path \<Rightarrow> io_error + dir_entry \<Rightarrow> cache_scan \<Rightarrow> path list \<times> cache_scan"
where
  "visit_entry F meta_root data_root dir entry out =
     (case entry of Inl _ \<Rightarrow> ([], skip_unreadable out) | Inr e \<Rightarrow>
      let path = dir @ [de_name e] in
      if de_type e = Inr Directory then ([path], out)
      else if de_type e = Inr Regular then
        (case read_item F path of
           None \<Rightarrow> ([], skip_unreadable out)
         | Some item \<Rightarrow>
             if vm_dirty item then
               (case relative_name meta_root path of
                  None \<Rightarrow> ([], skip_unreadable out)
                | Some name \<Rightarrow>
                    ([], out\<lparr>sc_files := sc_files out
                       @ [\<lparr>df_name = name, df_bytes = data_size F (join_name data_root name)\<rparr>]\<rparr>))
             else ([], out))
      else ([], skip_unreadable out))"

text \<open>One directory's entries. \<open>Inl\<close> is the early return at the cap.\<close>

fun walk_entries ::
  "fs \<Rightarrow> path \<Rightarrow> path \<Rightarrow> nat \<Rightarrow> path \<Rightarrow> (io_error + dir_entry) list
     \<Rightarrow> path list \<Rightarrow> nat \<Rightarrow> cache_scan \<Rightarrow> cache_scan + path list \<times> nat \<times> cache_scan"
where
  "walk_entries F meta_root data_root cap dir [] stack visited out = Inr (stack, visited, out)"
| "walk_entries F meta_root data_root cap dir (entry # es) stack visited out =
     (if cap \<le> visited then Inl (out\<lparr>sc_truncated := True\<rparr>)
      else (case visit_entry F meta_root data_root dir entry out of (push, out') \<Rightarrow>
        walk_entries F meta_root data_root cap dir es (push @ stack) (visited + 1) out'))"

lemma length_visit_entry: "length (fst (visit_entry F m d dir e out)) \<le> 1"
  by (auto simp: visit_entry_def Let_def split: sum.splits option.splits)

lemma walk_entries_measure:
  "walk_entries F m d cap dir es stack visited out = Inr (stack', visited', out')
     \<Longrightarrow> cap - visited' + length stack' \<le> cap - visited + length stack"
proof (induction es arbitrary: stack visited out)
  case (Cons e es)
  obtain push out1 where v: "visit_entry F m d dir e out = (push, out1)" by fastforce
  then have "length push \<le> 1" using length_visit_entry [of F m d dir e out] by simp
  with Cons.prems v Cons.IH [of "push @ stack" "visited + 1" out1] show ?case
    by (auto split: if_splits)
qed simp

text \<open>
  The loop over the stack. Every push is paid for by an entry counted against the cap, so the
  entries left plus the stack's height shrink each time round.
\<close>

function walk ::
  "fs \<Rightarrow> path \<Rightarrow> path \<Rightarrow> nat \<Rightarrow> path list \<Rightarrow> nat \<Rightarrow> cache_scan \<Rightarrow> io_error + cache_scan"
where
  "walk F meta_root data_root cap [] visited out = Inr out"
| "walk F meta_root data_root cap (dir # stack) visited out =
     (case fs_read_dir F dir of
        Inl e \<Rightarrow>
          if dir = meta_root then
            (if e = IoNotFound then Inr (out\<lparr>sc_root_present := False\<rparr>) else Inl e)
          else walk F meta_root data_root cap stack visited (skip_unreadable out)
      | Inr entries \<Rightarrow>
          (case walk_entries F meta_root data_root cap dir entries stack visited out of
             Inl out' \<Rightarrow> Inr out'
           | Inr (stack', visited', out') \<Rightarrow>
               walk F meta_root data_root cap stack' visited' out'))"
  by pat_completeness auto
termination
  by (relation "measure (\<lambda>(F, m, d, cap, stack, visited, out). cap - visited + length stack)")
    (auto dest!: walk_entries_measure simp: less_Suc_eq_le dest: sym)

definition scan_bounded :: "fs \<Rightarrow> path \<Rightarrow> path \<Rightarrow> nat \<Rightarrow> io_error + cache_scan" where
  "scan_bounded F meta_root data_root cap =
     walk F meta_root data_root cap [meta_root] 0
       \<lparr>sc_files = [], sc_unreadable = 0, sc_truncated = False, sc_root_present = True\<rparr>"

definition scan :: "fs \<Rightarrow> path \<Rightarrow> path \<Rightarrow> io_error + cache_scan" where
  "scan F meta_root data_root = scan_bounded F meta_root data_root MAX_ENTRIES"

section \<open>What the tree holds\<close>

text \<open>The directories below \<open>s\<close>, over real directories only, and the dirty descriptors in them.\<close>

inductive tree_dir :: "fs \<Rightarrow> path \<Rightarrow> path \<Rightarrow> bool" for F s where
  here: "tree_dir F s s"
| below: "tree_dir F s d \<Longrightarrow> fs_read_dir F d = Inr es \<Longrightarrow> Inr e \<in> set es
    \<Longrightarrow> de_type e = Inr Directory \<Longrightarrow> tree_dir F s (d @ [de_name e])"

definition dirty_at :: "fs \<Rightarrow> path \<Rightarrow> path \<Rightarrow> bool" where
  "dirty_at F s p =
     (\<exists>d es e item. tree_dir F s d \<and> fs_read_dir F d = Inr es \<and> Inr e \<in> set es
        \<and> de_type e = Inr Regular \<and> p = d @ [de_name e]
        \<and> read_item F p = Some item \<and> vm_dirty item)"

definition reported :: "fs \<Rightarrow> path \<Rightarrow> path \<Rightarrow> dirty_file list \<Rightarrow> path \<Rightarrow> bool" where
  "reported F meta_root data_root files p =
     (\<exists>name. relative_name meta_root p = Some name
        \<and> \<lparr>df_name = name, df_bytes = data_size F (join_name data_root name)\<rparr> \<in> set files)"

text \<open>A directory the walk has dealt with: listed, and nothing in it left unread.\<close>

definition entry_settled ::
  "fs \<Rightarrow> path \<Rightarrow> path \<Rightarrow> dirty_file list \<Rightarrow> path \<Rightarrow> io_error + dir_entry \<Rightarrow> bool"
where
  "entry_settled F m dr files d x =
     (\<exists>e. x = Inr e \<and> (de_type e = Inr Directory \<or>
        de_type e = Inr Regular \<and> (\<exists>item. read_item F (d @ [de_name e]) = Some item
          \<and> (vm_dirty item \<longrightarrow> reported F m dr files (d @ [de_name e])))))"

definition settled :: "fs \<Rightarrow> path \<Rightarrow> path \<Rightarrow> dirty_file list \<Rightarrow> path \<Rightarrow> bool" where
  "settled F m dr files d =
     (\<exists>es. fs_read_dir F d = Inr es \<and> (\<forall>x \<in> set es. entry_settled F m dr files d x))"

definition grows :: "cache_scan \<Rightarrow> cache_scan \<Rightarrow> bool" where
  "grows a b =
     (set (sc_files a) \<subseteq> set (sc_files b) \<and> sc_unreadable a \<le> sc_unreadable b)"

lemma grows_refl [intro!, simp]: "grows a a"
  by (simp add: grows_def)

lemma grows_trans: "grows a b \<Longrightarrow> grows b c \<Longrightarrow> grows a c"
  by (auto simp: grows_def)

lemma grows_skip [simp]: "grows a (skip_unreadable a)"
  by (simp add: grows_def skip_unreadable_def)

lemma grows_truncated [simp]: "grows a (a\<lparr>sc_truncated := t\<rparr>)"
  by (simp add: grows_def)

lemma entry_settled_mono:
  "entry_settled F m dr fs1 d x \<Longrightarrow> set fs1 \<subseteq> set fs2 \<Longrightarrow> entry_settled F m dr fs2 d x"
  by (fastforce simp: entry_settled_def reported_def)

lemma settled_mono: "settled F m dr fs1 d \<Longrightarrow> set fs1 \<subseteq> set fs2 \<Longrightarrow> settled F m dr fs2 d"
  by (auto simp: settled_def intro: entry_settled_mono)

lemma tree_dir_step:
  assumes "tree_dir F s d" "d \<noteq> s" "fs_read_dir F s = Inr es"
  shows "\<exists>e. Inr e \<in> set es \<and> de_type e = Inr Directory \<and> tree_dir F (s @ [de_name e]) d"
  using assms
proof (induction rule: tree_dir.induct)
  case (below d es' e)
  then show ?case
    by (cases "d = s") (auto intro: tree_dir.intros)
qed simp

lemma tree_dir_cases:
  assumes "tree_dir F s d"
  shows "d = s \<or> (\<exists>es e. fs_read_dir F s = Inr es \<and> Inr e \<in> set es
    \<and> de_type e = Inr Directory \<and> tree_dir F (s @ [de_name e]) d)"
  using assms
proof (induction rule: tree_dir.induct)
  case (below d es e)
  then show ?case by (metis tree_dir.here tree_dir.below)
qed simp

lemma visit_entry_grows:
  "visit_entry F m dr d x out = (push, out') \<Longrightarrow> grows out out'
     \<and> sc_truncated out' = sc_truncated out \<and> sc_root_present out' = sc_root_present out"
  by (auto simp: visit_entry_def Let_def skip_unreadable_def grows_def
      split: sum.splits if_splits option.splits)

lemma visit_entry_settled:
  assumes "visit_entry F m dr d x out = (push, out')" "sc_unreadable out' \<le> sc_unreadable out"
  shows "entry_settled F m dr (sc_files out') d x
    \<and> (\<forall>e. x = Inr e \<longrightarrow> de_type e = Inr Directory \<longrightarrow> d @ [de_name e] \<in> set push)"
  using assms
  by (auto simp: visit_entry_def Let_def skip_unreadable_def entry_settled_def reported_def
      split: sum.splits if_splits option.splits)

lemma walk_entries_Inl:
  "walk_entries F m dr cap d es stack visited out = Inl out'
     \<Longrightarrow> sc_truncated out' \<and> grows out out'"
proof (induction es arbitrary: stack visited out)
  case (Cons x es)
  obtain push out1 where v: "visit_entry F m dr d x out = (push, out1)" by fastforce
  show ?case using Cons.prems v visit_entry_grows [OF v]
    by (auto split: if_splits dest!: Cons.IH intro: grows_trans)
qed simp

lemma walk_entries_Inr:
  "walk_entries F m dr cap d es stack visited out = Inr (stack', visited', out') \<Longrightarrow>
     grows out out' \<and> sc_truncated out' = sc_truncated out
     \<and> sc_root_present out' = sc_root_present out \<and> set stack \<subseteq> set stack'
     \<and> (sc_unreadable out' \<le> sc_unreadable out \<longrightarrow>
          (\<forall>x \<in> set es. entry_settled F m dr (sc_files out') d x
             \<and> (\<forall>e. x = Inr e \<longrightarrow> de_type e = Inr Directory \<longrightarrow> d @ [de_name e] \<in> set stack')))"
proof (induction es arbitrary: stack visited out)
  case (Cons x es)
  obtain push out1 where v: "visit_entry F m dr d x out = (push, out1)" by fastforce
  with Cons.prems have w: "walk_entries F m dr cap d es (push @ stack) (visited + 1) out1
      = Inr (stack', visited', out')"
    by (auto split: if_splits)
  note g = visit_entry_grows [OF v] and ih = Cons.IH [OF w]
  show ?case
  proof (intro conjI impI ballI)
    assume un: "sc_unreadable out' \<le> sc_unreadable out"
    then have "sc_unreadable out1 \<le> sc_unreadable out" "sc_unreadable out' \<le> sc_unreadable out1"
      using g ih by (auto simp: grows_def)
    note here = visit_entry_settled [OF v this(1)]
    fix y assume "y \<in> set (x # es)"
    then show "entry_settled F m dr (sc_files out') d y"
      using here ih \<open>sc_unreadable out' \<le> sc_unreadable out1\<close>
      by (auto simp: grows_def intro: entry_settled_mono)
    show "\<forall>e. y = Inr e \<longrightarrow> de_type e = Inr Directory \<longrightarrow> d @ [de_name e] \<in> set stack'"
      using \<open>y \<in> set (x # es)\<close> here ih \<open>sc_unreadable out' \<le> sc_unreadable out1\<close> by auto
  qed (use g ih in \<open>auto intro: grows_trans\<close>)
qed simp

lemma walk_grows: "walk F m dr cap stack visited out = Inr out' \<Longrightarrow> grows out out'"
proof (induction F m dr cap stack visited out rule: walk.induct)
  case (2 F m dr cap d stack visited out)
  show ?case
  proof (cases "fs_read_dir F d")
    case (Inl e)
    with 2 show ?thesis
      by (auto split: if_splits simp: grows_def skip_unreadable_def)
  next
    case (Inr es)
    with 2 show ?thesis
      by (fastforce split: sum.splits dest: walk_entries_Inl walk_entries_Inr intro: grows_trans)
  qed
qed simp

lemma walk_settles:
  "walk F m dr cap stack visited out = Inr out' \<Longrightarrow> is_complete out' \<Longrightarrow> sc_root_present out'
     \<Longrightarrow> s \<in> set stack \<Longrightarrow> tree_dir F s d \<Longrightarrow> settled F m dr (sc_files out') d"
proof (induction F m dr cap stack visited out arbitrary: s rule: walk.induct)
  case (2 F m dr cap d0 stack visited out)
  have zero: "sc_unreadable out' = 0" "\<not> sc_truncated out'"
    using "2.prems"(2) by (simp_all add: is_complete_def)
  show ?case
  proof (cases "fs_read_dir F d0")
    case (Inl e)
    then have "walk F m dr cap stack visited (skip_unreadable out) = Inr out'"
      using "2.prems"(1,3) by (auto split: if_splits)
    then show ?thesis using walk_grows zero by (fastforce simp: grows_def skip_unreadable_def)
  next
    case (Inr es)
    then obtain stack' visited' out1 where
      w: "walk_entries F m dr cap d0 es stack visited out = Inr (stack', visited', out1)"
      and rest: "walk F m dr cap stack' visited' out1 = Inr out'"
      using "2.prems"(1) zero by (auto split: sum.splits dest: walk_entries_Inl)
    note ih = "2.IH"(2) [OF Inr w refl refl rest "2.prems"(2,3)]
    have le: "sc_unreadable out1 \<le> sc_unreadable out" and sub: "set (sc_files out1) \<subseteq> set (sc_files out')"
      using walk_grows [OF rest] zero by (auto simp: grows_def)
    note here = walk_entries_Inr [OF w]
    consider "s \<in> set stack" | "s = d0" using "2.prems"(4) by auto
    then show ?thesis
    proof cases
      case 1
      then show ?thesis using here ih "2.prems"(5) by blast
    next
      case d0: 2
      consider "d = d0"
        | e where "Inr e \<in> set es" "de_type e = Inr Directory" "tree_dir F (d0 @ [de_name e]) d"
        using tree_dir_cases [OF "2.prems"(5)] d0 Inr by auto
      then show ?thesis
      proof cases
        case 1
        then show ?thesis using Inr here le sub
          by (auto simp: settled_def intro: entry_settled_mono)
      next
        case 2
        then show ?thesis using here le ih by blast
      qed
    qed
  qed
qed simp

definition justified :: "fs \<Rightarrow> path \<Rightarrow> path \<Rightarrow> dirty_file \<Rightarrow> bool" where
  "justified F m dr f =
     (\<exists>p. dirty_at F m p \<and> relative_name m p = Some (df_name f)
        \<and> df_bytes f = data_size F (join_name dr (df_name f)))"

lemma justified_new:
  "tree_dir F m d \<Longrightarrow> fs_read_dir F d = Inr es \<Longrightarrow> Inr e \<in> set es
     \<Longrightarrow> de_type e = Inr Regular \<Longrightarrow> read_item F (d @ [de_name e]) = Some item
     \<Longrightarrow> vm_dirty item \<Longrightarrow> relative_name m (d @ [de_name e]) = Some n
     \<Longrightarrow> justified F m dr \<lparr>df_name = n, df_bytes = data_size F (join_name dr n)\<rparr>"
  unfolding justified_def dirty_at_def by auto blast

lemma visit_entry_justified:
  assumes "visit_entry F m dr d x out = (push, out')" "tree_dir F m d"
    and "fs_read_dir F d = Inr es" "x \<in> set es" "\<forall>f \<in> set (sc_files out). justified F m dr f"
  shows "(\<forall>s \<in> set push. tree_dir F m s) \<and> (\<forall>f \<in> set (sc_files out'). justified F m dr f)"
  using assms
  by (auto simp: visit_entry_def Let_def skip_unreadable_def
      split: sum.splits if_splits option.splits intro: tree_dir.intros
      elim: justified_new)

lemma walk_entries_justified:
  assumes "fs_read_dir F d = Inr es0" "tree_dir F m d"
  shows "set es \<subseteq> set es0 \<Longrightarrow> \<forall>s \<in> set stack. tree_dir F m s
    \<Longrightarrow> \<forall>f \<in> set (sc_files out). justified F m dr f
    \<Longrightarrow> (case walk_entries F m dr cap d es stack visited out of
          Inl out' \<Rightarrow> \<forall>f \<in> set (sc_files out'). justified F m dr f
        | Inr (stack', _, out') \<Rightarrow> (\<forall>s \<in> set stack'. tree_dir F m s)
            \<and> (\<forall>f \<in> set (sc_files out'). justified F m dr f))"
proof (induction es arbitrary: stack visited out)
  case (Cons x es)
  obtain push out1 where v: "visit_entry F m dr d x out = (push, out1)" by fastforce
  have "(\<forall>s \<in> set push. tree_dir F m s) \<and> (\<forall>f \<in> set (sc_files out1). justified F m dr f)"
    using visit_entry_justified [OF v assms(2,1)] Cons.prems by simp
  with Cons.prems Cons.IH [where stack = "push @ stack" and out = out1 and visited = "visited + 1"] v show ?case
    by (simp add: ball_Un)
qed simp

lemma walk_justified:
  "walk F m dr cap stack visited out = Inr out' \<Longrightarrow> \<forall>s \<in> set stack. tree_dir F m s
     \<Longrightarrow> \<forall>f \<in> set (sc_files out). justified F m dr f
     \<Longrightarrow> \<forall>f \<in> set (sc_files out'). justified F m dr f"
proof (induction F m dr cap stack visited out rule: walk.induct)
  case (2 F m dr cap d stack visited out)
  show ?case
  proof (cases "fs_read_dir F d")
    case (Inl e)
    with 2 show ?thesis
      by (auto split: if_splits simp: skip_unreadable_def)
  next
    case (Inr es)
    have "tree_dir F m d" "\<forall>s \<in> set stack. tree_dir F m s" using "2.prems"(2) by auto
    note just = walk_entries_justified [OF Inr this(1) subset_refl this(2) "2.prems"(3),
        where cap = cap and visited = visited]
    show ?thesis using just "2.prems"(1) Inr "2.IH"(2) [OF Inr]
      by (auto split: sum.splits prod.splits)
  qed
qed simp

lemma walk_entries_counts:
  "case walk_entries F m dr cap d es stack visited out of
     Inl out' \<Rightarrow> length (sc_files out') + visited \<le> length (sc_files out) + max cap visited
   | Inr (_, visited', out') \<Rightarrow>
       length (sc_files out') + visited \<le> length (sc_files out) + visited'
       \<and> visited' \<le> max cap visited \<and> visited \<le> visited'"
proof (induction es arbitrary: stack visited out)
  case (Cons x es)
  obtain push out1 where v: "visit_entry F m dr d x out = (push, out1)" by fastforce
  then have "length (sc_files out1) \<le> length (sc_files out) + 1"
    by (auto simp: visit_entry_def Let_def skip_unreadable_def
        split: sum.splits if_splits option.splits)
  with v Cons.IH [where stack = "push @ stack" and out = out1 and visited = "visited + 1"]
  show ?case by (auto split: sum.splits prod.splits)
qed simp

lemma walk_counts:
  "walk F m dr cap stack visited out = Inr out' \<Longrightarrow> visited \<le> cap
     \<Longrightarrow> length (sc_files out') + visited \<le> length (sc_files out) + cap"
proof (induction F m dr cap stack visited out rule: walk.induct)
  case (2 F m dr cap d stack visited out)
  show ?case
  proof (cases "fs_read_dir F d")
    case (Inl e)
    with 2 show ?thesis by (auto split: if_splits simp: skip_unreadable_def)
  next
    case (Inr es)
    show ?thesis
      using walk_entries_counts [where F = F and m = m and dr = dr and cap = cap and d = d and es = es
          and stack = stack and visited = visited and out = out] "2.prems" Inr
        "2.IH"(2) [OF Inr]
      by (fastforce split: sum.splits prod.splits)
  qed
qed simp

section \<open>Properties of the scan\<close>

lemma scan_exact:
  assumes "scan_bounded F m dr cap = Inr out" "is_complete out" "sc_root_present out"
  shows "(\<forall>p. dirty_at F m p \<longrightarrow> reported F m dr (sc_files out) p)
    \<and> (\<forall>f. f \<in> set (sc_files out) \<longrightarrow> justified F m dr f)
    \<and> (sc_files out = [] \<longleftrightarrow> (\<forall>p. \<not> dirty_at F m p))"
proof -
  note w = assms(1) [unfolded scan_bounded_def]
  have 1: "reported F m dr (sc_files out) p" if "dirty_at F m p" for p
    using that walk_settles [OF w assms(2,3), of m]
    by (fastforce simp: dirty_at_def settled_def entry_settled_def)
  moreover have 2: "\<forall>f \<in> set (sc_files out). justified F m dr f"
    using walk_justified [OF w] by (simp add: tree_dir.here)
  ultimately show ?thesis
    by (auto simp: reported_def justified_def) (metis list.set_intros(1) neq_Nil_conv)
qed

lemma scan_length: "scan_bounded F m dr cap = Inr out \<Longrightarrow> length (sc_files out) \<le> cap"
  unfolding scan_bounded_def by (drule walk_counts) simp_all


text \<open>
  A scan is bounded by its cap whatever the tree: it lists no more files than the cap, and
  the byte total over them never wraps, it stays at the largest 64-bit value instead.
\<close>

theorem scan_bounded_bounds:
  assumes "scan_bounded F m dr cap = Inr out"
  shows "length (sc_files out) \<le> cap
    \<and> unat (scan_known_bytes out)
        = min (\<Sum>b\<leftarrow>List.map_filter df_bytes (sc_files out). unat b) (2 ^ 64 - 1)"
  using walk_counts [OF assms [unfolded scan_bounded_def]]
  by (simp add: scan_known_bytes_def unat_foldl_sat_add)

text \<open>A small cache: one dirty file in a directory, beside a clean one.\<close>

definition meta_item :: "bool \<Rightarrow> vfs_meta_item" where
  "meta_item dirty =
     \<lparr>vm_mod_time = [], vm_atime = [], vm_size = 0, vm_ranges = None, vm_fingerprint = [],
      vm_dirty = dirty\<rparr>"

definition sample_fs :: fs where
  "sample_fs =
     \<lparr>fs_read_dir = (\<lambda>p.
        if p = [''m''] then Inr [Inr \<lparr>de_name = ''d'', de_type = Inr Directory\<rparr>,
                                Inr \<lparr>de_name = ''clean'', de_type = Inr Regular\<rparr>]
        else if p = [''m'', ''d''] then Inr [Inr \<lparr>de_name = ''f'', de_type = Inr Regular\<rparr>]
        else Inl IoNotFound),
      fs_open = (\<lambda>p. Inr \<lparr>fh_kind = Inr Regular,
        fh_read = Inr (if p = [''m'', ''d'', ''f''] then ''1'' else ''0'')\<rparr>),
      fs_lstat = (\<lambda>p. if p = [''c'', ''d'', ''f''] then Inr (Regular, 7) else Inl IoNotFound),
      fs_parse = (\<lambda>s. Some (meta_item (s = ''1'')))\<rparr>"

definition sample_scan :: cache_scan where
  "sample_scan =
     \<lparr>sc_files = [\<lparr>df_name = ''d/f'', df_bytes = Some 7\<rparr>], sc_unreadable = 0,
      sc_truncated = False, sc_root_present = True\<rparr>"

lemma sample_scan: "scan_bounded sample_fs [''m''] [''c''] 3 = Inr sample_scan"
  by (simp add: scan_bounded_def sample_fs_def sample_scan_def visit_entry_def read_item_def is_utf8.simps
    utf8_unit_def utf8_width_def relative_name_def join_name_def data_size_def meta_item_def join_def MAX_DESCRIPTOR_def)


theorem scan_bounded_bounds_witness:
  "length (sc_files sample_scan) \<le> 3 \<and> scan_known_bytes sample_scan = 7"
  using scan_bounded_bounds [OF sample_scan]
  by (simp add: sample_scan_def scan_known_bytes_def List.map_filter_def)

end
