(* ===== verification/Float64.thy ===== *)
theory Float64
  imports Complex_Main Prelude "HOL-Library.Log_Nat"
begin

text \<open>
  Double-precision arithmetic on the finite values the code computes with: a double is the
  rational it denotes, and every operation is the exact one followed by \<open>fl\<close>, rounding to the
  nearest double with ties to even. Infinities are not modelled: the largest value the code
  forms is a 64-bit count over a nanosecond.
\<close>

definition round_even :: "rat \<Rightarrow> int" where
  "round_even x =
     (let f = \<lfloor>x\<rfloor>; r = x - of_int f in
      if r < 1 / 2 then f else if 1 / 2 < r then f + 1 else if even f then f else f + 1)"

text \<open>The exponent of the leading bit of a positive number.\<close>

definition binade :: "rat \<Rightarrow> int" where
  "binade r =
     (case quotient_of r of (n, d) \<Rightarrow>
      let a = int (floorlog 2 (nat n)) - int (floorlog 2 (nat d)) in
      if 2 powi a \<le> r then a else a - 1)"

text \<open>The exponent of the unit in the last place: 53 significant bits, subnormals below.\<close>

definition ulp_exp :: "rat \<Rightarrow> int" where
  "ulp_exp r = max (binade r - 52) (- 1074)"

definition fl_pos :: "rat \<Rightarrow> rat" where
  "fl_pos r = of_int (round_even (r / 2 powi ulp_exp r)) * 2 powi ulp_exp r"

definition fl :: "rat \<Rightarrow> rat" where
  "fl r = (if r = 0 then 0 else if 0 < r then fl_pos r else - fl_pos (- r))"

text \<open>\<^verbatim>\<open>as u64\<close> truncates and saturates.\<close>

definition as_u64_sat :: "rat \<Rightarrow> u64" where
  "as_u64_sat r = (if r < 0 then 0 else if 2 ^ 64 \<le> r then - 1 else of_int \<lfloor>r\<rfloor>)"

definition f64_of_u64 :: "u64 \<Rightarrow> rat" where
  "f64_of_u64 n = fl (of_nat (unat n))"

lemma round_even_of_int [simp]: "round_even (of_int n) = n"
  by (simp add: round_even_def Let_def)

lemma round_even_mono: "x \<le> y \<Longrightarrow> round_even x \<le> round_even y"
proof (cases "\<lfloor>x\<rfloor> = \<lfloor>y\<rfloor>")
  case True
  then show "x \<le> y \<Longrightarrow> round_even x \<le> round_even y"
    by (auto simp: round_even_def Let_def)
next
  case False
  assume "x \<le> y"
  with False have "\<lfloor>x\<rfloor> + 1 \<le> \<lfloor>y\<rfloor>" using floor_mono [of x y] by linarith
  moreover have "round_even x \<le> \<lfloor>x\<rfloor> + 1" "\<lfloor>y\<rfloor> \<le> round_even y"
    by (auto simp: round_even_def Let_def)
  ultimately show "round_even x \<le> round_even y" by linarith
qed

lemma floorlog_powi:
  assumes "0 < n"
  shows "(2 :: rat) powi (int (floorlog 2 n) - 1) \<le> of_nat n"
    and "of_nat n < (2 :: rat) powi int (floorlog 2 n)"
proof -
  have b: "2 ^ (floorlog 2 n - 1) \<le> n" "n < 2 ^ floorlog 2 n"
    using floorlog_bounds [of n 2] assms by auto
  have pos: "0 < floorlog 2 n" using assms by (simp add: floorlog_def)
  have "(2 :: rat) ^ (floorlog 2 n - 1) \<le> of_nat n"
    using b(1) by (metis of_nat_le_iff of_nat_numeral of_nat_power)
  then show "(2 :: rat) powi (int (floorlog 2 n) - 1) \<le> of_nat n"
    using pos by (simp add: power_int_def nat_diff_distrib)
  have "of_nat n < (2 :: rat) ^ floorlog 2 n"
    using b(2) by (metis of_nat_less_iff of_nat_numeral of_nat_power)
  then show "of_nat n < (2 :: rat) powi int (floorlog 2 n)" by simp
qed

lemma binade_bounds:
  assumes "0 < r"
  shows "2 powi binade r \<le> r" "r < 2 powi (binade r + 1)"
proof -
  obtain n d where nd: "quotient_of r = (n, d)" by fastforce
  then have d: "0 < d" and r: "r = of_int n / of_int d"
    using quotient_of_denom_pos quotient_of_div by auto
  with assms have n: "0 < n" by (simp add: zero_less_divide_iff)
  define ln ld where "ln = int (floorlog 2 (nat n))" and "ld = int (floorlog 2 (nat d))"
  have N: "2 powi (ln - 1) \<le> (of_int n :: rat)" "(of_int n :: rat) < 2 powi ln"
    using floorlog_powi [of "nat n"] n by (simp_all add: ln_def)
  have D: "2 powi (ld - 1) \<le> (of_int d :: rat)" "(of_int d :: rat) < 2 powi ld"
    using floorlog_powi [of "nat d"] d by (simp_all add: ld_def)
  have up: "r < 2 powi (ln - ld + 1)"
  proof -
    have "r < 2 powi ln / 2 powi (ld - 1)"
      unfolding r using N D d n by (intro frac_less) auto
    also have "\<dots> = 2 powi (ln - ld + 1)"
      by (simp flip: power_int_diff add: algebra_simps)
    finally show ?thesis .
  qed
  have low: "2 powi (ln - ld - 1) \<le> r"
  proof -
    have "2 powi (ln - 1) / 2 powi ld \<le> r"
      unfolding r using N D d n by (intro frac_le) auto
    then show ?thesis by (simp flip: power_int_diff add: algebra_simps)
  qed
  show "2 powi binade r \<le> r" "r < 2 powi (binade r + 1)"
    using up low by (auto simp: binade_def nd Let_def simp flip: ln_def ld_def)
qed

lemma binade_mono: "0 < x \<Longrightarrow> x \<le> y \<Longrightarrow> binade x \<le> binade y"
proof -
  assume "0 < x" "x \<le> y"
  then have "(2 :: rat) powi binade x < 2 powi (binade y + 1)"
    using binade_bounds(1) [of x] binade_bounds(2) [of y] by linarith
  then have "binade x < binade y + 1"
    using power_int_increasing [of "binade y + 1" "binade x" "2 :: rat"] by force
  then show ?thesis by simp
qed

lemma round_even_shift:
  assumes "q \<le> b"
  shows "of_int (round_even (2 powi b / 2 powi q)) * 2 powi q = (2 :: rat) powi b"
proof -
  have eq: "(2 :: rat) powi b / 2 powi q = of_int (2 ^ nat (b - q))"
  proof -
    have "(2 :: rat) powi b / 2 powi q = 2 powi (b - q)" by (simp add: power_int_diff)
    also have "\<dots> = 2 ^ nat (b - q)" using assms by (simp add: power_int_def)
    finally show ?thesis by simp
  qed
  then have "of_int (round_even (2 powi b / 2 powi q)) = (2 :: rat) powi b / 2 powi q"
    by (metis round_even_of_int)
  then show ?thesis by simp
qed

lemma scaled_mono:
  "x \<le> y \<Longrightarrow> of_int (round_even (x / 2 powi q)) * 2 powi q
     \<le> (of_int (round_even (y / 2 powi q)) * 2 powi q :: rat)"
  by (intro mult_right_mono) (auto intro!: round_even_mono divide_right_mono)

lemma fl_pos_mono:
  assumes "0 < x" "x \<le> y"
  shows "fl_pos x \<le> fl_pos y"
proof (cases "ulp_exp x = ulp_exp y")
  case True
  then show ?thesis using scaled_mono [OF assms(2)] by (simp only: fl_pos_def)
next
  case False
  have b: "binade x \<le> binade y" using assms binade_mono by simp
  with False have q: "ulp_exp x < binade y - 52" "ulp_exp y = binade y - 52" "binade x < binade y"
    by (auto simp: ulp_exp_def)
  have "x \<le> 2 powi (binade x + 1)" using binade_bounds(2) [OF assms(1)] by simp
  also have "\<dots> \<le> 2 powi binade y" using q(3) by (intro power_int_increasing) auto
  finally have "fl_pos x \<le> of_int (round_even (2 powi binade y / 2 powi ulp_exp x)) * 2 powi ulp_exp x"
    unfolding fl_pos_def by (rule scaled_mono)
  also have "\<dots> = 2 powi binade y" using q(1) by (intro round_even_shift) simp
  also have "\<dots> = of_int (round_even (2 powi binade y / 2 powi ulp_exp y)) * 2 powi ulp_exp y"
    using q(2) by (simp add: round_even_shift)
  also have "\<dots> \<le> fl_pos y" unfolding fl_pos_def
    using assms by (intro scaled_mono binade_bounds(1)) simp
  finally show ?thesis .
qed

lemma fl_pos_nonneg: "0 < x \<Longrightarrow> 0 \<le> fl_pos x"
proof -
  assume "0 < x"
  then have "round_even 0 \<le> round_even (x / 2 powi ulp_exp x)" by (intro round_even_mono) simp
  then show ?thesis by (simp add: fl_pos_def round_even_def)
qed

lemma fl_0 [simp]: "fl 0 = 0"
  by (simp add: fl_def)

lemma fl_nonneg: "0 \<le> x \<Longrightarrow> 0 \<le> fl x"
  using fl_pos_nonneg by (auto simp: fl_def)

lemma fl_mono: "0 \<le> x \<Longrightarrow> x \<le> y \<Longrightarrow> fl x \<le> fl y"
  using fl_pos_mono fl_pos_nonneg by (auto simp: fl_def)

lemma round_even_scaled:
  assumes "q' \<le> q"
  shows "of_int (round_even (of_int m * 2 powi q / 2 powi q')) * 2 powi q' = (of_int m * 2 powi q :: rat)"
proof -
  have "(of_int m * 2 powi q / 2 powi q' :: rat) = of_int m * 2 powi (q - q')"
    by (simp add: power_int_diff)
  also have "\<dots> = of_int (m * 2 ^ nat (q - q'))" using assms by (simp add: power_int_def)
  finally have eq: "(of_int m * 2 powi q / 2 powi q' :: rat) = of_int (m * 2 ^ nat (q - q'))" .
  then have "of_int (round_even (of_int m * 2 powi q / 2 powi q')) = (of_int m * 2 powi q / 2 powi q' :: rat)"
    by (metis round_even_of_int)
  then show ?thesis by simp
qed

lemma fl_pos_fixed: "y = of_int m * 2 powi q \<Longrightarrow> ulp_exp y \<le> q \<Longrightarrow> fl_pos y = y"
  using round_even_scaled [of "ulp_exp y" q m] by (simp only: fl_pos_def)

lemma round_even_small: "z < 1 / 2 \<Longrightarrow> 0 < z \<Longrightarrow> round_even z = 0"
proof -
  assume "z < 1 / 2" "0 < z"
  then have "\<lfloor>z\<rfloor> = 0" by (intro floor_unique) auto
  with \<open>z < 1 / 2\<close> show ?thesis by (simp add: round_even_def Let_def)
qed

text \<open>A rounded value is a double: rounding it again changes nothing.\<close>

lemma fl_pos_idem:
  assumes "0 < x" "fl_pos x \<noteq> 0"
  shows "fl_pos (fl_pos x) = fl_pos x"
proof -
  define b q m y where "b = binade x" and "q = ulp_exp x"
    and "m = round_even (x / 2 powi q)" and "y = fl_pos x"
  have y: "y = of_int m * 2 powi q" by (simp add: y_def fl_pos_def m_def q_def)
  have pos: "0 < y" using fl_pos_nonneg [OF assms(1)] assms(2) by (simp add: y_def)
  moreover have "(0 :: rat) < 2 powi q" by simp
  ultimately have "(0 :: rat) < of_int m" unfolding y by (simp only: zero_less_mult_pos2)
  then have m: "1 \<le> m" by simp
  have q: "q = max (b - 52) (- 1074)" by (simp add: q_def b_def ulp_exp_def)
  have xb: "2 powi b \<le> x" "x < 2 powi (b + 1)" using binade_bounds [OF assms(1)] by (simp_all add: b_def)
  have bq: "q \<le> b + 1"
  proof (rule ccontr)
    assume "\<not> q \<le> b + 1"
    then have "x < 2 powi (q - 1)"
      using xb(2) power_int_increasing [of "b + 1" "q - 1" "2 :: rat"] by auto
    then have "x / 2 powi q < 1 / 2" by (simp add: power_int_diff divide_less_eq)
    moreover have "0 < x / 2 powi q" using assms(1) by simp
    ultimately have "m = 0" unfolding m_def by (rule round_even_small)
    with m show False by simp
  qed
  have "y \<le> of_int (round_even (2 powi (b + 1) / 2 powi q)) * 2 powi q"
    unfolding y_def fl_pos_def using xb(2) by (fold q_def, intro scaled_mono) simp
  then have top: "y \<le> 2 powi (b + 1)" by (simp add: round_even_shift [OF bq])
  show ?thesis
  proof (cases "y < 2 powi (b + 1)")
    case True
    then have "(2 :: rat) powi binade y < 2 powi (b + 1)"
      using binade_bounds(1) [OF pos] by linarith
    then have "binade y \<le> b"
      using power_int_increasing [of "b + 1" "binade y" "2 :: rat"] by force
    then have "ulp_exp y \<le> q" by (simp add: ulp_exp_def q)
    then show ?thesis using fl_pos_fixed [OF y] by (simp add: y_def)
  next
    case False
    with top have eq: "y = 2 powi (b + 1)" by simp
    have "binade y \<le> b + 1"
    proof (rule ccontr)
      assume "\<not> binade y \<le> b + 1"
      then have "(2 :: rat) powi (b + 1) < 2 powi binade y" by (intro power_int_strict_increasing) auto
      with eq binade_bounds(1) [OF pos] show False by simp
    qed
    with q bq have "ulp_exp y \<le> b + 1" by (simp add: ulp_exp_def)
    then show ?thesis using fl_pos_fixed [of y 1 "b + 1"] eq by (simp add: y_def)
  qed
qed

lemma fl_idem: "0 \<le> x \<Longrightarrow> fl (fl x) = fl x"
  using fl_pos_idem [of x] fl_pos_nonneg [of x] by (auto simp: fl_def)

end
