(* ===== verification/TransferState.thy ===== *)
theory TransferState
  imports Capabilities Scan Float64
begin

text \<open>
  What is outstanding for a mount and how far the answer can be trusted
  (crates/core/src/transfer.rs): one constructor per source, the combinators that enrich or
  qualify a state, the questions asked of it, and the rate estimator.
\<close>

section \<open>The state\<close>

record transfer_file =
  xf_name :: string
  xf_size :: "u64 option"
  xf_in_flight :: "bool option"
  xf_tries :: "u64 option"
  xf_bytes_sent :: "u64 option"

record transfer_state =
  ts_mount :: string
  ts_fidelity :: "tier option"
  ts_outstanding_known :: bool
  ts_has_progress :: bool
  ts_pending :: pending
  ts_uploading :: "u64 option"
  ts_errored_files :: "u64 option"
  ts_out_of_space :: "bool option"
  ts_rate :: "u64 option"
  ts_files :: "transfer_file list"
  ts_degraded_reason :: "string option"

definition ts_empty :: "string \<Rightarrow> tier option \<Rightarrow> transfer_state" where
  "ts_empty mount fidelity =
     \<lparr>ts_mount = mount, ts_fidelity = fidelity, ts_outstanding_known = True,
      ts_has_progress = False, ts_pending = pending_default, ts_uploading = None,
      ts_errored_files = None, ts_out_of_space = None, ts_rate = None, ts_files = [],
      ts_degraded_reason = None\<rparr>"

definition unmonitored :: "string \<Rightarrow> string \<Rightarrow> transfer_state" where
  "unmonitored mount reason =
     (ts_empty mount None)\<lparr>ts_outstanding_known := False, ts_degraded_reason := Some reason\<rparr>"

definition msg_no_queue :: string where
  "msg_no_queue =
     ''this mount has no write-back queue (--vfs-cache-mode off), so writes stream straight ''
       @ ''to the remote and nothing outstanding can be observed''"

definition file_of_item :: "queue_item \<Rightarrow> transfer_file" where
  "file_of_item i =
     \<lparr>xf_name = qi_name i, xf_size = u64_try_from (qi_size i), xf_in_flight = Some (qi_uploading i),
      xf_tries = Some (qi_tries i), xf_bytes_sent = None\<rparr>"

definition from_queue :: "string \<Rightarrow> vfs_queue \<Rightarrow> transfer_state" where
  "from_queue mount q =
     (if \<not> reported_queue q then unmonitored mount msg_no_queue
      else (ts_empty mount (Some T2))
        \<lparr>ts_pending := pending_of q,
         ts_uploading := Some (of_nat (length (uploading q))),
         ts_files := map file_of_item (items q)\<rparr>)"

definition from_stats :: "string \<Rightarrow> disk_cache \<Rightarrow> transfer_state" where
  "from_stats mount cache =
     (let files = dc_uploads_in_progress cache + dc_uploads_queued cache in
      (ts_empty mount (Some T3))
        \<lparr>ts_uploading := Some (dc_uploads_in_progress cache),
         ts_errored_files := Some (dc_errored_files cache),
         ts_out_of_space := Some (dc_out_of_space cache),
         ts_pending := pending_new files 0 files\<rparr>)"

definition file_of_dirty :: "dirty_file \<Rightarrow> transfer_file" where
  "file_of_dirty f =
     \<lparr>xf_name = df_name f, xf_size = df_bytes f, xf_in_flight = None, xf_tries = None,
      xf_bytes_sent = None\<rparr>"

definition from_scan :: "string \<Rightarrow> cache_scan \<Rightarrow> transfer_state" where
  "from_scan mount found =
     (ts_empty mount (Some T4))
       \<lparr>ts_outstanding_known := Scan.is_complete found \<and> sc_root_present found,
        ts_pending := pending_new (of_nat (length (sc_files found))) (scan_known_bytes found)
          (of_nat (length (filter (\<lambda>f. df_bytes f = None) (sc_files found)))),
        ts_files := map file_of_dirty (sc_files found)\<rparr>"

section \<open>Combinators\<close>

text \<open>One file's progress: the file, and whether this call gave it any.\<close>

definition file_progress :: "transfer list \<Rightarrow> transfer_file \<Rightarrow> transfer_file \<times> bool" where
  "file_progress ts f =
     (case find (\<lambda>t. tr_name t = xf_name f \<and> has_accounting t) ts of
        None \<Rightarrow> (f, False)
      | Some t \<Rightarrow>
          (let sent = u64_try_from (tr_bytes t) in
           (f\<lparr>xf_bytes_sent := sent\<rparr>, sent \<noteq> None)))"

definition with_progress :: "transfer list \<Rightarrow> transfer_state \<Rightarrow> transfer_state" where
  "with_progress ts s =
     (if ts_fidelity s \<noteq> Some T2 then s
      else (let updated = map (file_progress ts) (ts_files s) in
        s\<lparr>ts_files := map fst updated, ts_has_progress := list_ex snd updated\<rparr>))"

definition with_cache_health :: "disk_cache \<Rightarrow> transfer_state \<Rightarrow> transfer_state" where
  "with_cache_health cache s =
     s\<lparr>ts_errored_files := Some (dc_errored_files cache),
       ts_out_of_space := Some (dc_out_of_space cache)\<rparr>"

definition partially_observed :: "string \<Rightarrow> transfer_state \<Rightarrow> transfer_state" where
  "partially_observed reason s =
     s\<lparr>ts_outstanding_known := False, ts_degraded_reason := Some reason\<rparr>"

definition degraded :: "string \<Rightarrow> transfer_state \<Rightarrow> transfer_state" where
  "degraded reason s = s\<lparr>ts_degraded_reason := Some reason\<rparr>"

definition with_rate :: "u64 option \<Rightarrow> transfer_state \<Rightarrow> transfer_state" where
  "with_rate r s = s\<lparr>ts_rate := r\<rparr>"

section \<open>Questions\<close>

definition is_idle :: "transfer_state \<Rightarrow> bool" where
  "is_idle s = (ts_outstanding_known s \<and> pd_files (ts_pending s) = 0)"

definition safe_to_unmount :: "transfer_state \<Rightarrow> bool" where
  "safe_to_unmount s = is_idle s"

definition has_byte_total :: "transfer_state \<Rightarrow> bool" where
  "has_byte_total s = is_some_and (ts_fidelity s) (\<lambda>t. t \<noteq> T3)"

definition sent_bytes :: "transfer_state \<Rightarrow> u64" where
  "sent_bytes s =
     sum_list (List.map_filter xf_bytes_sent (filter (\<lambda>f. xf_size f \<noteq> None) (ts_files s)))"

definition remaining_bytes :: "transfer_state \<Rightarrow> u64" where
  "remaining_bytes s = sat_sub (pd_known_bytes (ts_pending s)) (sent_bytes s)"

lemmas ts_combinators =
  with_progress_def with_cache_health_def partially_observed_def degraded_def with_rate_def

lemmas ts_constructors =
  from_queue_def from_stats_def from_scan_def unmonitored_def ts_empty_def

lemma safe_combinators [simp]:
  "safe_to_unmount (with_progress ts s) = safe_to_unmount s"
  "safe_to_unmount (with_cache_health c s) = safe_to_unmount s"
  "safe_to_unmount (with_rate x s) = safe_to_unmount s"
  "safe_to_unmount (degraded r s) = safe_to_unmount s"
  "\<not> safe_to_unmount (partially_observed r s)"
  "\<not> safe_to_unmount (unmonitored m r)"
  by (simp_all add: ts_combinators safe_to_unmount_def is_idle_def unmonitored_def Let_def)

lemma of_nat_u64_eq_0: "n < 2 ^ 64 \<Longrightarrow> (of_nat n :: u64) = 0 \<longleftrightarrow> n = 0"
  using nat_dvd_not_less [of n "2 ^ 64"] by (auto simp: word_of_nat_eq_0_iff)

section \<open>What the constructors keep\<close>

text \<open>The states the module can build: a constructor, then any combinators in any order.\<close>

inductive built :: "transfer_state \<Rightarrow> bool" where
  queue: "built (from_queue m q)"
| stats: "built (from_stats m c)"
| scan: "built (from_scan m f)"
| none: "built (unmonitored m r)"
| progress: "built s \<Longrightarrow> built (with_progress ts s)"
| health: "built s \<Longrightarrow> built (with_cache_health c s)"
| partial: "built s \<Longrightarrow> built (partially_observed r s)"
| fallback: "built s \<Longrightarrow> built (degraded r s)"
| rate: "built s \<Longrightarrow> built (with_rate x s)"

definition disciplined :: "transfer_state \<Rightarrow> bool" where
  "disciplined s =
     (list_all (\<lambda>f. xf_in_flight f \<noteq> None \<longrightarrow> ts_fidelity s = Some T2) (ts_files s)
      \<and> (ts_fidelity s = None \<longrightarrow> \<not> ts_outstanding_known s \<and> ts_degraded_reason s \<noteq> None
           \<and> ts_files s = [] \<and> ts_pending s = pending_default)
      \<and> (ts_fidelity s = Some T3 \<longrightarrow> ts_files s = [] \<and> pd_known_bytes (ts_pending s) = 0)
      \<and> (ts_fidelity s \<noteq> Some T2 \<longrightarrow> \<not> ts_has_progress s
           \<and> list_all (\<lambda>f. xf_bytes_sent f = None) (ts_files s))
      \<and> (ts_has_progress s \<longrightarrow> list_ex (\<lambda>f. xf_bytes_sent f \<noteq> None) (ts_files s))
      \<and> (ts_uploading s \<noteq> None \<longrightarrow> ts_fidelity s = Some T2 \<or> ts_fidelity s = Some T3)
      \<and> (\<not> ts_outstanding_known s \<longrightarrow> ts_degraded_reason s \<noteq> None \<or> ts_fidelity s = Some T4)
      \<and> ts_fidelity s \<noteq> Some T1)"

lemma file_progress_parts:
  "xf_in_flight (fst (file_progress ts f)) = xf_in_flight f"
  "snd (file_progress ts f) \<Longrightarrow> xf_bytes_sent (fst (file_progress ts f)) \<noteq> None"
  by (auto simp: file_progress_def Let_def split: option.splits)

lemma disciplined_constructors:
  "disciplined (unmonitored m r)" "disciplined (from_queue m q)"
  "disciplined (from_stats m c)" "disciplined (from_scan m f)"
  by (auto simp: disciplined_def ts_constructors Let_def pending_new_def list_all_iff
      file_of_item_def file_of_dirty_def)

lemma disciplined_progress: "disciplined s \<Longrightarrow> disciplined (with_progress ts s)"
proof (cases "ts_fidelity s = Some T2")
  case True
  assume d: "disciplined s"
  have "list_ex (\<lambda>f. xf_bytes_sent f \<noteq> None) (map (fst \<circ> file_progress ts) (ts_files s))"
    if "list_ex (snd \<circ> file_progress ts) (ts_files s)"
    using that file_progress_parts(2) [of ts] by (force simp: list_ex_iff)
  with True d show ?thesis
    by (simp add: disciplined_def with_progress_def Let_def list_all_iff list_ex_iff)
qed (simp add: with_progress_def)

lemma disciplined_combinators:
  "disciplined s \<Longrightarrow> disciplined (with_cache_health c s)"
  "disciplined s \<Longrightarrow> disciplined (partially_observed r s)"
  "disciplined s \<Longrightarrow> disciplined (degraded r s)"
  "disciplined s \<Longrightarrow> disciplined (with_rate x s)"
  by (auto simp: disciplined_def ts_combinators)

lemma built_discipline: "built s \<Longrightarrow> disciplined s"
  by (induction rule: built.induct)
    (simp_all add: disciplined_constructors disciplined_progress disciplined_combinators)

text \<open>
  However a state was built, its fields claim only what its source can know: figures with
  no source behind them are marked unknown with a reason, only queue readings say which file is
  in flight, only they carry byte progress and only where a file has some, counts never come
  with a byte total, and anything not exhaustive says so.
\<close>

theorem built_disciplined: "built s \<Longrightarrow> disciplined s"
  by (rule built_discipline)

definition sample_queue :: vfs_queue where
  "sample_queue =
     \<lparr>vq_queue = Some [sample_item ''a'' 100 True, sample_item ''b'' (- 1) False]\<rparr>"

definition sample_transfer :: transfer where
  "sample_transfer = transfer_default\<lparr>tr_name := ''a'', tr_bytes := 40, tr_group := Some ''g''\<rparr>"

theorem built_disciplined_witness:
  "disciplined (partially_observed ''why'' (with_progress [sample_transfer] (from_queue ''m'' sample_queue)))"
  by (rule built_disciplined) (intro built.intros)

text \<open>
  C24: What each source calls safe to unmount: a queue only when rclone reported the queue key
  and it was empty; the counts only when both are zero; the disk only after a complete walk of
  a tree that is there and found nothing dirty.
\<close>

theorem safe_to_unmount_by_source:
  assumes "length (items q) < 2 ^ 64" "length (sc_files f) < 2 ^ 64"
    and "unat (dc_uploads_in_progress c) + unat (dc_uploads_queued c) < 2 ^ 64"
  shows "(safe_to_unmount (from_queue m q) \<longleftrightarrow> vq_queue q = Some [])
    \<and> (safe_to_unmount (from_stats m c) \<longleftrightarrow> dc_uploads_in_progress c = 0 \<and> dc_uploads_queued c = 0)
    \<and> (safe_to_unmount (from_scan m f) \<longleftrightarrow>
         Scan.is_complete f \<and> sc_root_present f \<and> sc_files f = [])"
proof (intro conjI)
  show "safe_to_unmount (from_queue m q) \<longleftrightarrow> vq_queue q = Some []"
    using of_nat_u64_eq_0 [OF assms(1)]
    by (auto simp: safe_to_unmount_def is_idle_def from_queue_def unmonitored_def ts_empty_def
        pending_of_eq pending_new_def reported_queue_def items_def split: if_splits)
  have "dc_uploads_in_progress c + dc_uploads_queued c = 0
      \<longleftrightarrow> dc_uploads_in_progress c = 0 \<and> dc_uploads_queued c = 0"
    using assms(3) unat_add_lem [of "dc_uploads_in_progress c" "dc_uploads_queued c"]
    by (simp flip: unat_eq_zero)
  then show "safe_to_unmount (from_stats m c)
      \<longleftrightarrow> dc_uploads_in_progress c = 0 \<and> dc_uploads_queued c = 0"
    by (simp add: safe_to_unmount_def is_idle_def from_stats_def ts_empty_def pending_new_def Let_def)
  show "safe_to_unmount (from_scan m f) \<longleftrightarrow>
      Scan.is_complete f \<and> sc_root_present f \<and> sc_files f = []"
    using of_nat_u64_eq_0 [OF assms(2)]
    by (auto simp: safe_to_unmount_def is_idle_def from_scan_def ts_empty_def pending_new_def)
qed

definition idle_cache :: disk_cache where
  "idle_cache =
     \<lparr>dc_bytes_used = 0, dc_errored_files = 0, dc_files = 3, dc_hash_type = 0,
      dc_out_of_space = False, dc_path = ''/c'', dc_path_meta = ''/m'',
      dc_uploads_in_progress = 0, dc_uploads_queued = 0\<rparr>"

theorem safe_to_unmount_by_source_witness:
  "\<not> safe_to_unmount (from_queue ''m'' sample_queue) \<and> safe_to_unmount (from_stats ''m'' idle_cache)
    \<and> \<not> safe_to_unmount (from_scan ''m'' sample_scan)"
  using safe_to_unmount_by_source [of sample_queue sample_scan idle_cache "''m''"]
  by (simp add: sample_queue_def items_def sample_scan_def idle_cache_def)

section \<open>What is left to send\<close>

lemma sum_list_word_unat:
  "(\<Sum>x\<leftarrow>xs. unat x) < 2 ^ 64 \<Longrightarrow> unat (sum_list (xs :: u64 list)) = (\<Sum>x\<leftarrow>xs. unat x)"
  by (induction xs) (auto simp: unat_add_lem [THEN iffD1])

text \<open>
  The bytes left are the queued total less what the files of known size have sent, and
  never wrap below zero: progress that outruns a stale total leaves nothing, not a huge number.
\<close>

theorem remaining_bytes_exact:
  assumes "(\<Sum>b\<leftarrow>List.map_filter xf_bytes_sent (filter (\<lambda>f. xf_size f \<noteq> None) (ts_files s)). unat b)
    < 2 ^ 64"
  shows "unat (remaining_bytes s) = unat (pd_known_bytes (ts_pending s))
      - (\<Sum>b\<leftarrow>List.map_filter xf_bytes_sent (filter (\<lambda>f. xf_size f \<noteq> None) (ts_files s)). unat b)
    \<and> remaining_bytes s \<le> pd_known_bytes (ts_pending s)"
  using sum_list_word_unat [OF assms]
  by (simp add: remaining_bytes_def sent_bytes_def unat_sat_sub sat_sub_le)

theorem remaining_bytes_exact_witness:
  "remaining_bytes (with_progress [sample_transfer] (from_queue ''m'' sample_queue)) = 60"
proof -
  define s where "s = with_progress [sample_transfer] (from_queue ''m'' sample_queue)"
  have s: "List.map_filter xf_bytes_sent (filter (\<lambda>f. xf_size f \<noteq> None) (ts_files s)) = [40]"
      "pd_known_bytes (ts_pending s) = 100"
    by (simp_all add: s_def with_progress_def from_queue_def reported_queue_def sample_queue_def
        ts_empty_def items_def file_of_item_def sample_item_def file_progress_def
        sample_transfer_def has_accounting_def transfer_default_def u64_try_from_def
        List.map_filter_def pending_of_def add_item_def pending_default_def pending_new_def Let_def)
  have "unat (remaining_bytes s) = unat (60 :: u64)"
    using remaining_bytes_exact [of s] unfolding s by simp
  then show ?thesis unfolding s_def [symmetric] by (simp only: word_unat_eq_iff)
qed

section \<open>The rate\<close>

text \<open>
  An instant is nanoseconds since some epoch. \<open>SMOOTHING\<close> and the weight of the past are the
  doubles the code computes with, and every operation rounds.
\<close>

record rate_estimator =
  re_last :: "(nat \<times> u64) option"
  re_smoothed :: "f64 option"

definition SMOOTHING :: f64 where "SMOOTHING = fl (3 / 10)"

definition rate_new :: rate_estimator where
  "rate_new = \<lparr>re_last = None, re_smoothed = None\<rparr>"

text \<open>\<^verbatim>\<open>as_secs_f64\<close>: whole seconds and the nanoseconds' fraction, each rounded, then added.\<close>

definition as_secs_f64 :: "nat \<Rightarrow> f64" where
  "as_secs_f64 ns =
     fl (fl (of_nat (ns div 1000000000)) + fl (of_nat (ns mod 1000000000) / 1000000000))"

definition sample_at :: "nat \<Rightarrow> u64 \<Rightarrow> rate_estimator \<Rightarrow> u64 option \<times> rate_estimator" where
  "sample_at now outstanding est =
     (let est' = est\<lparr>re_last := Some (now, outstanding)\<rparr> in
      case re_last est of
        None \<Rightarrow> (None, est')
      | Some (before_at, before) \<Rightarrow>
          (let secs = as_secs_f64 (now - before_at) in
           if secs \<le> 0 then (map_option as_u64_sat (re_smoothed est), est')
           else
             (let sent = f64_of_u64 (sat_sub before outstanding);
                  instant = fl (sent / secs);
                  nxt = (case re_smoothed est of
                           Some prev \<Rightarrow> fl (fl (prev * fl (1 - SMOOTHING)) + fl (instant * SMOOTHING))
                         | None \<Rightarrow> instant)
              in (Some (as_u64_sat nxt), est'\<lparr>re_smoothed := Some nxt\<rparr>))))"

definition rate_reset :: "rate_estimator \<Rightarrow> rate_estimator" where
  "rate_reset est = rate_new"

definition rate_ok :: "rate_estimator \<Rightarrow> bool" where
  "rate_ok est = (\<forall>r. re_smoothed est = Some r \<longrightarrow> 0 \<le> r \<and> fl r = r)"

lemma fl_one: "fl 1 = 1"
  by (simp add: fl_def fl_pos_def ulp_exp_def binade_def floorlog_def round_even_def Let_def)

lemma smoothing_weights: "0 \<le> SMOOTHING" "SMOOTHING \<le> 1" "0 \<le> fl (1 - SMOOTHING)" "fl (1 - SMOOTHING) \<le> 1"
proof -
  show s: "0 \<le> SMOOTHING" "SMOOTHING \<le> 1"
    using fl_nonneg [of "3/10"] fl_mono [of "3/10" 1] by (simp_all add: SMOOTHING_def fl_one)
  then show "0 \<le> fl (1 - SMOOTHING)" "fl (1 - SMOOTHING) \<le> 1"
    using fl_nonneg [of "1 - SMOOTHING"] fl_mono [of "1 - SMOOTHING" 1] by (simp_all add: fl_one)
qed

lemma secs_nonneg: "0 \<le> as_secs_f64 ns"
  unfolding as_secs_f64_def by (intro fl_nonneg add_nonneg_nonneg) auto

lemma rate_ok_new: "rate_ok rate_new"
  by (simp add: rate_ok_def rate_new_def)

lemma rate_ok_sample:
  assumes "rate_ok est" "sample_at now b est = (r, est')"
  shows "rate_ok est'"
proof -
  have "0 \<le> f64_of_u64 x" for x
    unfolding f64_of_u64_def by (rule fl_nonneg) (rule of_nat_0_le_iff)
  then show ?thesis using assms smoothing_weights
    by (auto simp: rate_ok_def sample_at_def Let_def fl_idem not_le
        intro!: fl_nonneg add_nonneg_nonneg mult_nonneg_nonneg fl_idem divide_nonneg_nonneg
        split: option.splits prod.splits if_splits)
qed

lemma unat_as_u64_sat: "unat (as_u64_sat r) = min (nat \<lfloor>r\<rfloor>) (2 ^ 64 - 1)"
proof -
  consider "r < 0" | "2 ^ 64 \<le> r" | "0 \<le> r" "r < 2 ^ 64" by linarith
  then show ?thesis
  proof cases
    case 1
    then show ?thesis by (simp add: as_u64_sat_def)
  next
    case 2
    then have "2 ^ 64 \<le> nat \<lfloor>r\<rfloor>" by (simp add: le_floor_iff le_nat_iff)
    with 2 show ?thesis by (simp add: as_u64_sat_def unat_max_u64)
  next
    case 3
    then have f: "0 \<le> \<lfloor>r\<rfloor>" "\<lfloor>r\<rfloor> < 2 ^ 64" by (simp_all add: floor_less_iff)
    then have "uint (of_int \<lfloor>r\<rfloor> :: u64) = \<lfloor>r\<rfloor>"
      by (simp add: unsigned_of_int take_bit_int_eq_self)
    then have "unat (of_int \<lfloor>r\<rfloor> :: u64) = nat \<lfloor>r\<rfloor>" by (simp only: unat_eq_nat_uint)
    moreover have "nat \<lfloor>r\<rfloor> < 2 ^ 64" using f by (simp add: nat_less_iff)
    ultimately show ?thesis using 3 f by (simp add: as_u64_sat_def min_def)
  qed
qed

lemma as_u64_sat_mono: "x \<le> y \<Longrightarrow> as_u64_sat x \<le> as_u64_sat y"
  using floor_mono [of x y] by (auto simp: word_le_nat_alt unat_as_u64_sat min_def)

lemma weighted_past:
  assumes "0 \<le> prev" "fl prev = prev"
  shows "fl (fl (prev * fl (1 - SMOOTHING)) + fl (0 * SMOOTHING)) \<le> prev"
proof -
  have "0 \<le> prev * fl (1 - SMOOTHING)" "prev * fl (1 - SMOOTHING) \<le> prev"
    using assms(1) smoothing_weights by (simp_all add: mult_left_le)
  then have "fl (prev * fl (1 - SMOOTHING)) \<le> prev"
    using fl_mono [of "prev * fl (1 - SMOOTHING)" prev] assms(2) by simp
  then show ?thesis using \<open>0 \<le> prev * fl (1 - SMOOTHING)\<close> by (simp add: fl_idem)
qed

text \<open>
  The rate is earned: nothing is reported before two readings, and a reading in which the
  total did not fall never raises it, however much was added to the queue meanwhile.
\<close>

theorem rate_never_rises_unsent:
  assumes "rate_ok est" "sample_at now b est = (r, est')"
  shows "rate_ok est'
    \<and> (re_last est = None \<longrightarrow> r = None)
    \<and> (\<forall>t before prev. re_last est = Some (t, before) \<longrightarrow> before \<le> b \<longrightarrow> re_smoothed est = Some prev
        \<longrightarrow> (\<exists>x. r = Some x \<and> x \<le> as_u64_sat prev))"
proof (intro conjI allI impI)
  show "rate_ok est'" using assms by (rule rate_ok_sample)
  show "re_last est = None \<Longrightarrow> r = None" using assms(2) by (simp add: sample_at_def Let_def)
  fix t before prev
  assume "re_last est = Some (t, before)" "before \<le> b" and p: "re_smoothed est = Some prev"
  moreover from this have "f64_of_u64 (sat_sub before b) = 0"
    by (auto simp: sat_sub_def f64_of_u64_def)
  moreover have "as_u64_sat (fl (fl (prev * fl (1 - SMOOTHING)) + fl (0 * SMOOTHING))) \<le> as_u64_sat prev"
    using assms(1) p by (intro as_u64_sat_mono weighted_past) (auto simp: rate_ok_def)
  ultimately show "\<exists>x. r = Some x \<and> x \<le> as_u64_sat prev"
    using assms(2) by (auto simp: sample_at_def Let_def split: if_splits)
qed

theorem rate_never_rises_unsent_witness:
  "\<exists>x. fst (sample_at 5 200 \<lparr>re_last = Some (3, 100), re_smoothed = Some 1\<rparr>) = Some x
     \<and> x \<le> as_u64_sat 1"
  using rate_never_rises_unsent
    [of "\<lparr>re_last = Some (3, 100), re_smoothed = Some 1\<rparr>" 5 200, OF _ prod.collapse [symmetric]]
  by (simp add: rate_ok_def fl_one)

end
