(* ===== verification/Poller.thy ===== *)
theory Poller
  imports TransferState
begin

text \<open>
  Polling one mount (crates/service/src/poller.rs). What rclone, the disk and the clock answer
  during a poll is a record of answers; the poll itself, with every branch, fallback and the
  latched state it leaves, is a function of the poller and those answers.
\<close>

section \<open>The poller and what it is told\<close>

datatype cache_probe = NotAsked | Absent | Present disk_cache "cache_mode option"

record poller =
  po_name :: string
  po_caps :: capabilities
  po_rate :: rate_estimator
  po_cache_path :: "string option"
  po_meta_path :: "string option"
  po_mode :: "cache_mode option"

text \<open>What became of the blocking task that walks the disk.\<close>

datatype join_outcome = Finished | TimedOut | JoinFailed string

record answers =
  an_list :: "rc_error + rc_list"
  an_stats :: "rc_error + vfs_stats"
  an_queue :: "rc_error + vfs_queue"
  an_core :: "rc_error + core_stats"
  an_fs :: fs
  an_join :: join_outcome
  an_now :: nat

definition connect :: "string \<Rightarrow> rc_error + rc_list \<Rightarrow> poller" where
  "connect name listed =
     (let caps = (case probe listed of Inr c \<Rightarrow> c | Inl e \<Rightarrow> from_refusal (rc_error_text e)) in
      \<lparr>po_name = name, po_caps = caps, po_rate = rate_new, po_cache_path = None,
       po_meta_path = None, po_mode = None\<rparr>)"

definition po_tier :: "poller \<Rightarrow> tier" where
  "po_tier p = tier_of (po_caps p)"

definition rc_answered :: "poller \<Rightarrow> bool" where
  "rc_answered p = (degraded_reason (po_caps p) = None)"

text \<open>Seconds between polls.\<close>

definition interval :: "transfer_state \<Rightarrow> poll \<Rightarrow> u64" where
  "interval s poll =
     (if ts_fidelity s = Some T4 then max (idle_secs poll) (active_secs poll)
      else if 0 < pd_files (ts_pending s) then active_secs poll
      else idle_secs poll)"

section \<open>Fetching\<close>

definition forget_roots :: "poller \<Rightarrow> poller" where
  "forget_roots p = p\<lparr>po_cache_path := None, po_meta_path := None\<rparr>"

fun is_404 :: "rc_error \<Rightarrow> bool" where
  "is_404 (Failed _ status _) = (status = 404)"
| "is_404 _ = False"

definition fetch_stats :: "answers \<Rightarrow> poller \<Rightarrow> (rc_error + cache_probe) \<times> poller" where
  "fetch_stats a p =
     (if \<not> has (po_caps p) ''vfs/stats'' then (Inr NotAsked, p)
      else (case an_stats a of
          Inl e \<Rightarrow>
            if is_404 e then (Inr NotAsked, (forget_roots p)\<lparr>po_mode := None\<rparr>) else (Inl e, p)
        | Inr stats \<Rightarrow>
            (let mode = cache_mode_of stats; p = p\<lparr>po_mode := mode\<rparr> in
             case vs_disk_cache stats of
               None \<Rightarrow> (Inr Absent, forget_roots p)
             | Some cache \<Rightarrow>
                 (Inr (Present cache mode),
                  if dc_path cache \<noteq> [] \<and> dc_path_meta cache \<noteq> []
                  then p\<lparr>po_cache_path := Some (dc_path cache),
                         po_meta_path := Some (dc_path_meta cache)\<rparr>
                  else forget_roots p))))"

definition fetch_queue :: "answers \<Rightarrow> poller \<Rightarrow> rc_error + vfs_queue" where
  "fetch_queue a p =
     (if \<not> has (po_caps p) ''vfs/queue''
      then Inl (Failed ''vfs/queue'' 404 ''not registered by this rclone'')
      else an_queue a)"

section \<open>The texts\<close>

definition msg_no_endpoint_no_cache :: string where
  "msg_no_endpoint_no_cache =
     ''this rclone registers no vfs/queue and this mount has no write-back cache, so nothing ''
       @ ''outstanding can be observed''"

definition msg_neither_endpoint :: string where
  "msg_neither_endpoint =
     ''this rclone registers neither vfs/queue nor vfs/stats, so nothing outstanding can be ''
       @ ''observed over rc''"

definition msg_counts_only :: string where
  "msg_counts_only =
     ''this rclone reports a write-back cache but no queue, so only its counts can be read''"

fun msg_mode :: "cache_mode option \<Rightarrow> string" where
  "msg_mode (Some Minimal) =
     ''this mount's cache mode is minimal, so a file opened write-only streams straight to the ''
       @ ''remote without entering the queue''"
| "msg_mode (Some _) =
     ''this mount's cache mode does not put every write through the queue, so some may not be ''
       @ ''visible here''"
| "msg_mode None =
     ''this rclone did not report a recognised cache mode, so whether every write reaches the ''
       @ ''queue is unknown''"

definition msg_queue_without_cache :: string where
  "msg_queue_without_cache =
     ''this rclone reports a write-back queue but no cache to hold it, so what is queued is a ''
       @ ''floor rather than the whole story''"

definition msg_no_stats :: string where
  "msg_no_stats =
     ''this rclone registers no vfs/stats, so cache errors, a full cache and whether every ''
       @ ''write reaches the queue cannot be reported''"

definition msg_disk_mode :: "cache_mode option \<Rightarrow> string" where
  "msg_disk_mode mode =
     (case mode of
        Some _ \<Rightarrow> ''; and this mount's cache mode does not put every write through the cache, ''
                    @ ''so what is on disk is a floor''
      | None \<Rightarrow> ''; and this rclone never reported a recognised cache mode, so whether every ''
                  @ ''write reaches the cache is unknown'')"

definition msg_scan :: "rc_error \<Rightarrow> cache_scan \<Rightarrow> cache_mode option \<Rightarrow> string" where
  "msg_scan e found mode =
     rc_error_text e @ ''; read '' @ show_nat (length (sc_files found))
       @ '' pending file(s) from the cache on disk instead''
     @ (if 0 < sc_unreadable found
        then ''; '' @ show_nat (sc_unreadable found) @ '' entries there could not be read'' else [])
     @ (if sc_truncated found then ''; and the cache was too large to finish walking'' else [])
     @ (if is_some_and mode all_writes_queued then [] else msg_disk_mode mode)"

section \<open>When rclone cannot be asked\<close>

text \<open>The components of a path, as a walk joins and strips them.\<close>

definition components :: "string \<Rightarrow> path" where
  "components p = filter (\<lambda>c. c \<noteq> [] \<and> c \<noteq> ''.'') (split_on (CHR ''/'') p)"

definition unreachable :: "answers \<Rightarrow> poller \<Rightarrow> rc_error \<Rightarrow> transfer_state" where
  "unreachable a p e =
     (case (po_meta_path p, po_cache_path p) of
        (Some meta, Some data) \<Rightarrow>
          (case an_join a of
             TimedOut \<Rightarrow> unmonitored (po_name p)
               (rc_error_text e @ ''; and the cache on disk could not be read within 60s'')
           | JoinFailed t \<Rightarrow> unmonitored (po_name p) (rc_error_text e @ ''; '' @ t)
           | Finished \<Rightarrow>
               (case scan (an_fs a) (components meta) (components data) of
                  Inl err \<Rightarrow> unmonitored (po_name p)
                    (rc_error_text e @ ''; and its cache could not be read either: '' @ io_text err)
                | Inr found \<Rightarrow>
                    if \<not> sc_root_present found then unmonitored (po_name p)
                      (rc_error_text e @ ''; and the cache it reported is no longer on disk'')
                    else
                      (let why = msg_scan e found (po_mode p);
                           s = from_scan (po_name p) found in
                       if is_some_and (po_mode p) all_writes_queued then degraded why s
                       else partially_observed why s)))
      | _ \<Rightarrow> unmonitored (po_name p) (rc_error_text e))"

definition reset_rate :: "poller \<Rightarrow> poller" where
  "reset_rate p = p\<lparr>po_rate := rate_reset (po_rate p)\<rparr>"

definition faulted :: "poller \<Rightarrow> rc_error \<Rightarrow> transfer_state \<times> poller" where
  "faulted p e = (unmonitored (po_name p) (rc_error_text e), reset_rate p)"

definition fell_back :: "answers \<Rightarrow> poller \<Rightarrow> rc_error \<Rightarrow> transfer_state \<times> poller" where
  "fell_back a p e = (unreachable a (reset_rate p) e, reset_rate p)"

section \<open>One poll\<close>

definition reprobe :: "answers \<Rightarrow> poller \<Rightarrow> poller" where
  "reprobe a p =
     (if cap_is_empty (po_caps p)
      then p\<lparr>po_caps := (case probe (an_list a) of
               Inr c \<Rightarrow> c | Inl e \<Rightarrow> from_refusal (rc_error_text e))\<rparr>
      else p)"

text \<open>The state the queue, or failing it the counts, stand for; \<open>Inl\<close> is an early return.\<close>

definition base_state ::
  "answers \<Rightarrow> poller \<Rightarrow> cache_probe \<Rightarrow> (transfer_state \<times> poller) + transfer_state"
where
  "base_state a p cache =
     (case fetch_queue a p of
        Inr q \<Rightarrow> Inr (from_queue (po_name p) q)
      | Inl e \<Rightarrow>
          if is_unreachable e then Inl (fell_back a p e)
          else if is_404 e then
            (case cache of
               Present c _ \<Rightarrow> Inr (from_stats (po_name p) c)
             | Absent \<Rightarrow> Inl (unmonitored (po_name p) msg_no_endpoint_no_cache, p)
             | NotAsked \<Rightarrow> Inl (unmonitored (po_name p) msg_neither_endpoint, p))
          else Inl (faulted p e))"

definition qualify :: "cache_probe \<Rightarrow> transfer_state \<Rightarrow> transfer_state" where
  "qualify cache s =
     (case cache of
        Present c mode \<Rightarrow>
          (let s = with_cache_health c s in
           if \<not> is_some_and mode all_writes_queued then partially_observed (msg_mode mode) s else s)
      | Absent \<Rightarrow> partially_observed msg_queue_without_cache s
      | NotAsked \<Rightarrow> partially_observed msg_no_stats s)"

definition lift_progress :: "answers \<Rightarrow> poller \<Rightarrow> transfer_state \<Rightarrow> transfer_state" where
  "lift_progress a p s =
     (if has (po_caps p) ''core/stats'' \<and> ts_fidelity s = Some T2 then
        (case po_cache_path p of
           None \<Rightarrow> s
         | Some cache \<Rightarrow>
             (case an_core a of
                Inr stats \<Rightarrow> with_progress (writeback_uploads stats cache) s
              | Inl _ \<Rightarrow> s))
      else s)"

definition take_rate :: "answers \<Rightarrow> poller \<Rightarrow> transfer_state \<Rightarrow> transfer_state \<times> poller" where
  "take_rate a p s =
     (if pd_files (ts_pending s) = 0 \<or> \<not> has_byte_total s
      then (with_rate None s, reset_rate p)
      else (case sample_at (an_now a) (remaining_bytes s) (po_rate p) of
              (r, est) \<Rightarrow>
                (with_rate (option_filter (\<lambda>r. 0 < r \<or> ts_uploading s = Some 0) r) s,
                 p\<lparr>po_rate := est\<rparr>)))"

definition poll :: "answers \<Rightarrow> poller \<Rightarrow> transfer_state \<times> poller" where
  "poll a p0 =
     (let p = reprobe a p0 in
      if cap_is_empty (po_caps p) then
        (unmonitored (po_name p)
           (unwrap_or (degraded_reason (po_caps p)) ''rclone reported no rc commands''), p)
      else
        (case fetch_stats a p of
           (Inl e, p) \<Rightarrow> if is_unreachable e then fell_back a p e else faulted p e
         | (Inr cache, p) \<Rightarrow>
             (case base_state a p cache of
                Inl out \<Rightarrow> out
              | Inr s \<Rightarrow>
                  if \<not> ts_outstanding_known s then
                    ((case cache of
                        Present c _ \<Rightarrow>
                          partially_observed msg_counts_only (from_stats (po_name p) c)
                      | _ \<Rightarrow> s), reset_rate p)
                  else take_rate a p (lift_progress a p (qualify cache s)))))"

section \<open>What a poll's answer rests on\<close>

lemmas safety_defs = safe_to_unmount_def is_idle_def

lemma lift_progress_safe [simp]: "safe_to_unmount (lift_progress a p s) = safe_to_unmount s"
  by (simp add: lift_progress_def split: option.splits sum.splits)

lemma take_rate_safe: "take_rate a p s = (s', p') \<Longrightarrow> safe_to_unmount s' = safe_to_unmount s"
  by (auto simp: take_rate_def split: if_splits prod.splits)

lemma qualify_safe:
  "safe_to_unmount (qualify cache s) \<Longrightarrow>
     safe_to_unmount s \<and> (\<exists>c m. cache = Present c (Some m) \<and> all_writes_queued m)"
  by (auto simp: qualify_def Let_def is_some_and_def split: cache_probe.splits if_splits option.splits)

lemma fetch_stats_caps:
  "fetch_stats a p = (r, p') \<Longrightarrow> po_caps p' = po_caps p \<and> po_name p' = po_name p \<and> po_rate p' = po_rate p"
  by (auto simp: fetch_stats_def forget_roots_def Let_def split: if_splits sum.splits option.splits)

lemma fetch_stats_Present:
  "fetch_stats a p = (Inr (Present c mode), p') \<Longrightarrow> has (po_caps p) ''vfs/stats''
     \<and> (\<exists>st. an_stats a = Inr st \<and> vs_disk_cache st = Some c \<and> cache_mode_of st = mode)"
  by (auto simp: fetch_stats_def Let_def split: if_splits sum.splits option.splits)

lemma unreachable_safe:
  assumes "safe_to_unmount (unreachable a p e)"
  shows "\<exists>meta data found m. po_meta_path p = Some meta \<and> po_cache_path p = Some data
    \<and> po_mode p = Some m \<and> all_writes_queued m \<and> an_join a = Finished
    \<and> scan (an_fs a) (components meta) (components data) = Inr found
    \<and> (\<forall>q. \<not> dirty_at (an_fs a) (components meta) q)"
proof -
  from assms obtain meta data found m where
    p: "po_meta_path p = Some meta" "po_cache_path p = Some data" "po_mode p = Some m"
      "all_writes_queued m" "an_join a = Finished"
    and sc: "scan (an_fs a) (components meta) (components data) = Inr found"
    and safe: "safe_to_unmount (from_scan (po_name p) found)"
    by (auto simp: unreachable_def Let_def is_some_and_def
        split: option.splits join_outcome.splits sum.splits if_splits)
  have "length (sc_files found) < 2 ^ 64"
    using scan_length [OF sc [unfolded scan_def]] by (simp add: MAX_ENTRIES_def)
  then have "Scan.is_complete found" "sc_root_present found" "sc_files found = []"
    using safe of_nat_u64_eq_0 [of "length (sc_files found)"]
    by (auto simp: safety_defs from_scan_def ts_empty_def pending_new_def)
  with p sc scan_exact [OF sc [unfolded scan_def]] show ?thesis by auto
qed

lemma reset_rate_select [simp]:
  "po_name (reset_rate p) = po_name p" "po_caps (reset_rate p) = po_caps p"
  "po_cache_path (reset_rate p) = po_cache_path p" "po_meta_path (reset_rate p) = po_meta_path p"
  "po_mode (reset_rate p) = po_mode p"
  by (simp_all add: reset_rate_def)

lemma unreachable_reset [simp]: "unreachable a (reset_rate p) e = unreachable a p e"
  unfolding unreachable_def reset_rate_select by (rule refl)

text \<open>The ways a poll can be answered; every property of a poll is a case over these.\<close>

lemma poll_cases:
  assumes "poll a p0 = (s, p')"
  obtains (no_caps) r where "cap_is_empty (po_caps (reprobe a p0))" "s = unmonitored (po_name p0) r"
      "p' = reprobe a p0"
  | (silent) e p cs where "fetch_stats a (reprobe a p0) = (cs, p)" "is_unreachable e"
      "s = unreachable a p e" "p' = reset_rate p"
  | (told_nothing) r p cs where "fetch_stats a (reprobe a p0) = (cs, p)" "s = unmonitored (po_name p0) r"
      "p' = p \<or> p' = reset_rate p"
  | (counts_only) c m p where "fetch_stats a (reprobe a p0) = (Inr (Present c m), p)"
      "s = partially_observed msg_counts_only (from_stats (po_name p0) c)" "p' = reset_rate p"
  | (full) cache p s0 where "\<not> cap_is_empty (po_caps (reprobe a p0))"
      "fetch_stats a (reprobe a p0) = (Inr cache, p)"
      "base_state a p cache = Inr s0" "ts_outstanding_known s0"
      "take_rate a p (lift_progress a p (qualify cache s0)) = (s, p')"
proof -
  define p1 where "p1 = reprobe a p0"
  have n1: "po_name p1 = po_name p0" by (simp add: p1_def reprobe_def)
  show ?thesis
  proof (cases "cap_is_empty (po_caps p1)")
    case True
    with assms n1 show ?thesis by (intro no_caps) (auto simp: poll_def Let_def p1_def)
  next
    case False
    obtain r p where f: "fetch_stats a p1 = (r, p)" by fastforce
    have n: "po_name p = po_name p0" using fetch_stats_caps [OF f] n1 by simp
    show ?thesis
    proof (cases r)
      case (Inl e)
      with assms f False n show ?thesis
        by (cases "is_unreachable e")
          (auto simp: poll_def Let_def p1_def fell_back_def faulted_def intro: silent told_nothing)
    next
      case (Inr cache)
      show ?thesis
      proof (cases "base_state a p cache")
        case (Inl out)
        then have "out = (s, p')" using assms f False Inr by (simp add: poll_def Let_def p1_def)
        with Inl f n show ?thesis
          by (auto simp: base_state_def fell_back_def faulted_def p1_def
              split: sum.splits if_splits cache_probe.splits intro: silent told_nothing)
      next
        case (Inr s0)
        note b = this
        show ?thesis
        proof (cases "ts_outstanding_known s0")
          case True
          with assms f False Inr b \<open>r = Inr cache\<close> show ?thesis
            by (intro full) (auto simp: poll_def Let_def p1_def)
        next
          case un: False
          then have "\<exists>r. s0 = unmonitored (po_name p0) r"
            using b n by (auto simp: base_state_def from_queue_def from_stats_def ts_empty_def Let_def
                split: sum.splits if_splits cache_probe.splits)
          with assms f False b un n \<open>r = Inr cache\<close> show ?thesis
            by (cases cache) (auto simp: poll_def Let_def p1_def intro: told_nothing counts_only)
        qed
      qed
    qed
  qed
qed

section \<open>Properties of a poll\<close>

lemma base_state_safe:
  assumes "base_state a p cache = Inr s0" "safe_to_unmount s0"
    and q: "\<And>q. an_queue a = Inr q \<Longrightarrow> length (items q) < 2 ^ 64"
  shows "(has (po_caps p) ''vfs/queue'' \<and> (\<exists>q. an_queue a = Inr q \<and> vq_queue q = Some []))
    \<or> (\<exists>c m e. cache = Present c m \<and> fetch_queue a p = Inl e \<and> is_404 e
          \<and> dc_uploads_in_progress c + dc_uploads_queued c = 0)"
proof (cases "fetch_queue a p")
  case (Inr qq)
  then have h: "has (po_caps p) ''vfs/queue''" "an_queue a = Inr qq"
    by (auto simp: fetch_queue_def split: if_splits)
  with Inr assms(1,2) q [OF h(2)] show ?thesis
    using of_nat_u64_eq_0 [of "length (items qq)"]
    by (auto simp: base_state_def safety_defs from_queue_def unmonitored_def ts_empty_def
        pending_of_eq pending_new_def reported_queue_def items_def split: if_splits)
next
  case (Inl e)
  with assms(1,2) show ?thesis
    by (auto simp: base_state_def safety_defs from_stats_def ts_empty_def pending_new_def Let_def
        split: if_splits cache_probe.splits)
qed

lemma safe_poll:
  assumes "poll a p0 = (s, p')" "safe_to_unmount s"
    and "\<And>q. an_queue a = Inr q \<Longrightarrow> length (items q) < 2 ^ 64"
  shows "(\<exists>st c m. has (po_caps p') ''vfs/stats'' \<and> an_stats a = Inr st
        \<and> vs_disk_cache st = Some c \<and> cache_mode_of st = Some m \<and> all_writes_queued m
        \<and> (has (po_caps p') ''vfs/queue'' \<and> (\<exists>q. an_queue a = Inr q \<and> vq_queue q = Some [])
           \<or> (\<exists>e. fetch_queue a p' = Inl e \<and> is_404 e)
              \<and> dc_uploads_in_progress c + dc_uploads_queued c = 0))
    \<or> (\<exists>meta data found m. po_meta_path p' = Some meta \<and> po_cache_path p' = Some data
        \<and> po_mode p' = Some m \<and> all_writes_queued m \<and> an_join a = Finished
        \<and> scan (an_fs a) (components meta) (components data) = Inr found
        \<and> (\<forall>q. \<not> dirty_at (an_fs a) (components meta) q))"
  using assms(1)
proof (cases rule: poll_cases)
  case (silent e p cs)
  with assms(2) unreachable_safe [of a p e] show ?thesis by auto
next
  case (full cache p s0)
  have "safe_to_unmount (qualify cache s0)" using take_rate_safe [OF full(5)] assms(2) by simp
  then obtain c m where c: "cache = Present c (Some m)" "all_writes_queued m"
    and s0: "safe_to_unmount s0"
    using qualify_safe by blast
  have p': "po_caps p' = po_caps p" "fetch_queue a p' = fetch_queue a p"
    using full(5) by (auto simp: take_rate_def fetch_queue_def split: if_splits prod.splits)
  have caps: "po_caps p = po_caps (reprobe a p0)" using fetch_stats_caps [OF full(2)] by simp
  show ?thesis
    using fetch_stats_Present [OF full(2) [unfolded c]] base_state_safe [OF full(3) s0 assms(3)] c
    unfolding p' caps [symmetric] by blast
qed (use assms(2) in simp_all)


definition live_stats :: vfs_stats where
  "live_stats =
     \<lparr>vs_fs = None, vs_in_use = None, vs_disk_cache = Some idle_cache, vs_metadata_cache = None,
      vs_opt = Some (JObject [(''CacheMode'', JInt 3)])\<rparr>"

definition cmd :: "string \<Rightarrow> rc_command" where
  "cmd path = \<lparr>rcc_path = path, rcc_title = [], rcc_no_auth = False\<rparr>"

definition live_answers :: "queue_item list option \<Rightarrow> answers" where
  "live_answers q =
     \<lparr>an_list = Inr \<lparr>rl_commands = [cmd ''vfs/stats'', cmd ''vfs/queue'']\<rparr>,
      an_stats = Inr live_stats, an_queue = Inr \<lparr>vq_queue = q\<rparr>, an_core = Inr core_stats_default,
      an_fs = sample_fs, an_join = Finished, an_now = 5\<rparr>"

definition fresh_poller :: poller where
  "fresh_poller = connect ''m'' (Inl (NotListening ''/run/m.sock''))"

lemmas sample_poll_simps =
  poll_def fresh_poller_def connect_def probe_def from_refusal_def from_paths_def reprobe_def
  live_answers_def cmd_def cap_is_empty_def fetch_stats_def has_def live_stats_def cache_mode_of_def
  idle_cache_def forget_roots_def base_state_def fetch_queue_def from_queue_def reported_queue_def
  unmonitored_def ts_empty_def items_def uploading_def pending_of_def pending_default_def
  pending_new_def add_item_def qualify_def with_cache_health_def partially_observed_def
  lift_progress_def take_rate_def with_rate_def reset_rate_def has_byte_total_def safety_defs Let_def

lemma sample_poll_safe: "safe_to_unmount (fst (poll (live_answers (Some [])) fresh_poller))"
  by (simp add: sample_poll_simps)


lemma built_unreachable: "built (unreachable a p e)"
  by (auto simp: unreachable_def Let_def intro: built.intros
      split: option.splits join_outcome.splits sum.splits)

lemma built_base: "base_state a p cache = Inr s \<Longrightarrow> built s"
  by (auto simp: base_state_def intro: built.intros
      split: sum.splits if_splits cache_probe.splits)

lemma built_qualify: "built s \<Longrightarrow> built (qualify cache s)"
  by (auto simp: qualify_def Let_def intro: built.intros split: cache_probe.splits)

lemma built_lift: "built s \<Longrightarrow> built (lift_progress a p s)"
  by (auto simp: lift_progress_def intro: built.intros split: option.splits sum.splits)

lemma built_rate: "built s \<Longrightarrow> take_rate a p s = (s', p') \<Longrightarrow> built s'"
  by (auto simp: take_rate_def intro: built.intros split: if_splits prod.splits)

lemma ts_mount_parts:
  "ts_mount (unmonitored m r) = m" "ts_mount (from_queue m q) = m" "ts_mount (from_stats m c) = m"
  "ts_mount (from_scan m f) = m" "ts_mount (with_progress ts s) = ts_mount s"
  "ts_mount (with_cache_health c s) = ts_mount s" "ts_mount (partially_observed r s) = ts_mount s"
  "ts_mount (degraded r s) = ts_mount s" "ts_mount (with_rate x s) = ts_mount s"
  by (simp_all add: ts_constructors ts_combinators Let_def)

lemma reason_parts:
  "ts_degraded_reason (unmonitored m r) = Some r"
  "ts_degraded_reason (partially_observed r s) = Some r"
  "ts_degraded_reason (degraded r s) = Some r"
  by (simp_all add: unmonitored_def partially_observed_def degraded_def)

lemma unreachable_reason:
  "ts_degraded_reason (unreachable a p e) \<noteq> None \<and> ts_mount (unreachable a p e) = po_name p"
  by (auto simp: unreachable_def Let_def ts_mount_parts reason_parts
      split: option.splits join_outcome.splits sum.splits)

lemma full_reason:
  assumes "base_state a p cache = Inr s0" "ts_outstanding_known s0"
    and "take_rate a p (lift_progress a p (qualify cache s0)) = (s, p')"
  shows "ts_mount s = po_name p \<and> (ts_outstanding_known s \<or> ts_degraded_reason s \<noteq> None)
    \<and> ts_pending s = ts_pending s0 \<and> ts_uploading s = ts_uploading s0 \<and> ts_fidelity s = ts_fidelity s0"
proof -
  define s1 where "s1 = qualify cache s0"
  have q: "ts_mount s1 = ts_mount s0" "ts_outstanding_known s1 \<or> ts_degraded_reason s1 \<noteq> None"
      "ts_pending s1 = ts_pending s0" "ts_uploading s1 = ts_uploading s0" "ts_fidelity s1 = ts_fidelity s0"
    using assms(2) by (auto simp: s1_def qualify_def Let_def with_cache_health_def
        partially_observed_def split: cache_probe.splits)
  have l: "ts_mount (lift_progress a p s1) = ts_mount s1"
      "ts_outstanding_known (lift_progress a p s1) = ts_outstanding_known s1"
      "ts_degraded_reason (lift_progress a p s1) = ts_degraded_reason s1"
      "ts_pending (lift_progress a p s1) = ts_pending s1"
      "ts_uploading (lift_progress a p s1) = ts_uploading s1"
      "ts_fidelity (lift_progress a p s1) = ts_fidelity s1"
    by (auto simp: lift_progress_def with_progress_def Let_def split: option.splits sum.splits)
  have m: "ts_mount s0 = po_name p"
    using assms(1) by (auto simp: base_state_def ts_mount_parts split: sum.splits if_splits cache_probe.splits)
  show ?thesis using assms(3) q l m unfolding s1_def [symmetric]
    by (auto simp: take_rate_def with_rate_def split: if_splits prod.splits)
qed

text \<open>
  A poll always yields a state for its own mount, one the constructors built and so keeping
  their discipline, and one that does not know what is outstanding always says why.
\<close>

theorem poll_never_silent:
  assumes "poll a p0 = (s, p')"
  shows "built s \<and> disciplined s \<and> ts_mount s = po_name p0
    \<and> (ts_outstanding_known s \<or> ts_degraded_reason s \<noteq> None)"
proof -
  have name: "po_name p = po_name p0" if "fetch_stats a (reprobe a p0) = (r, p)" for r p
    using fetch_stats_caps [OF that] by (simp add: reprobe_def)
  have "built s \<and> ts_mount s = po_name p0 \<and> (ts_outstanding_known s \<or> ts_degraded_reason s \<noteq> None)"
    using assms
  proof (cases rule: poll_cases)
    case (silent e p cs)
    show ?thesis
      using unreachable_reason [of a p e] name [OF silent(1)] built_unreachable [of a p e]
      unfolding silent(3) by simp
  next
    case (full cache p s0)
    show ?thesis using full_reason [OF full(3,4,5)] name [OF full(2)]
      built_rate [OF built_lift [OF built_qualify [OF built_base [OF full(3)]]] full(5)] by simp
  qed (auto intro: built.intros simp: ts_mount_parts reason_parts)
  then show ?thesis using built_discipline by blast
qed

theorem poll_never_silent_witness:
  "ts_mount (fst (poll (live_answers None) fresh_poller)) = ''m''
    \<and> ts_degraded_reason (fst (poll (live_answers None) fresh_poller)) = Some msg_counts_only"
  using poll_never_silent [of "live_answers None" fresh_poller, OF prod.collapse [symmetric]]
  by (simp add: sample_poll_simps from_stats_def)

definition roots_paired :: "poller \<Rightarrow> bool" where
  "roots_paired p =
     ((po_cache_path p = None \<longleftrightarrow> po_meta_path p = None)
      \<and> po_cache_path p \<noteq> Some [] \<and> po_meta_path p \<noteq> Some [])"

lemma fetch_stats_roots:
  "fetch_stats a p = (r, p') \<Longrightarrow> roots_paired p \<Longrightarrow> roots_paired p'"
  by (auto simp: fetch_stats_def forget_roots_def roots_paired_def Let_def
      split: if_splits sum.splits option.splits)

lemma poll_latch:
  assumes "poll a p0 = (s, p')"
  shows "(cap_is_empty (po_caps (reprobe a p0)) \<and> p' = reprobe a p0)
    \<or> (\<exists>r p. fetch_stats a (reprobe a p0) = (r, p) \<and> po_caps p' = po_caps p
         \<and> po_cache_path p' = po_cache_path p \<and> po_meta_path p' = po_meta_path p \<and> po_mode p' = po_mode p)"
  using assms by (cases rule: poll_cases) (auto simp: take_rate_def split: if_splits prod.splits)

text \<open>
  The cache roots the disk fallback scans are latched as a pair or not at all, from
  connection on, and always from the last \<^verbatim>\<open>vfs/stats\<close> that answered: an answer that names
  both replaces them and the mode, any other answer, a 404 included, clears them, and only a
  failure to answer leaves them standing.
\<close>

theorem poll_latches_roots:
  assumes "poll a p0 = (s, p')" "roots_paired p0" "has (po_caps (reprobe a p0)) ''vfs/stats''"
  shows "roots_paired p' \<and> roots_paired (connect name listed)
    \<and> (case an_stats a of
         Inr st \<Rightarrow> po_mode p' = cache_mode_of st
           \<and> (case vs_disk_cache st of
                Some c \<Rightarrow> if dc_path c \<noteq> [] \<and> dc_path_meta c \<noteq> []
                  then po_cache_path p' = Some (dc_path c) \<and> po_meta_path p' = Some (dc_path_meta c)
                  else po_cache_path p' = None \<and> po_meta_path p' = None
              | None \<Rightarrow> po_cache_path p' = None \<and> po_meta_path p' = None)
       | Inl e \<Rightarrow> if is_404 e then po_cache_path p' = None \<and> po_meta_path p' = None \<and> po_mode p' = None
           else po_cache_path p' = po_cache_path p0 \<and> po_meta_path p' = po_meta_path p0
             \<and> po_mode p' = po_mode p0)"
proof -
  have nonempty: "\<not> cap_is_empty (po_caps (reprobe a p0))"
    using assms(3) by (auto simp: cap_is_empty_def has_def)
  then obtain r p where f: "fetch_stats a (reprobe a p0) = (r, p)"
    and eq: "po_cache_path p' = po_cache_path p" "po_meta_path p' = po_meta_path p" "po_mode p' = po_mode p"
    using poll_latch [OF assms(1)] by auto
  have pre: "po_cache_path (reprobe a p0) = po_cache_path p0" "po_meta_path (reprobe a p0) = po_meta_path p0"
      "po_mode (reprobe a p0) = po_mode p0"
    by (simp_all add: reprobe_def)
  have "roots_paired (reprobe a p0)" using assms(2) by (simp add: roots_paired_def pre)
  then have "roots_paired p'" using fetch_stats_roots [OF f] by (simp add: roots_paired_def eq)
  moreover have "roots_paired (connect name listed)" by (simp add: connect_def roots_paired_def Let_def)
  ultimately show ?thesis using f assms(3) unfolding eq
    by (auto simp: fetch_stats_def forget_roots_def Let_def pre
        split: if_splits sum.splits option.splits)
qed

theorem poll_latches_roots_witness:
  "po_meta_path (snd (poll (live_answers None) fresh_poller)) = Some ''/m''"
proof -
  have "roots_paired fresh_poller" "has (po_caps (reprobe (live_answers None) fresh_poller)) ''vfs/stats''"
    by (simp_all add: roots_paired_def sample_poll_simps)
  from poll_latches_roots [of "live_answers None" fresh_poller, OF prod.collapse [symmetric] this]
  show ?thesis by (simp add: live_answers_def live_stats_def idle_cache_def)
qed

text \<open>
  A rate is shown only where it can mean something: some file is outstanding, the source
  has a byte total, and a zero is shown only when nothing is in flight. A mount read from disk
  or not at all shows none.
\<close>

theorem poll_rate_honest:
  assumes "poll a p0 = (s, p')" "ts_rate s = Some r"
  shows "pd_files (ts_pending s) \<noteq> 0 \<and> ts_fidelity s = Some T2 \<and> (r \<noteq> 0 \<or> ts_uploading s = Some 0)"
  using assms(1)
proof (cases rule: poll_cases)
  case (silent e p cs)
  then have "ts_rate s = None"
    by (auto simp: unreachable_def Let_def unmonitored_def ts_empty_def degraded_def
        partially_observed_def from_scan_def split: option.splits join_outcome.splits sum.splits)
  with assms(2) show ?thesis by simp
next
  case (full cache p s0)
  note parts = full_reason [OF full(3,4,5)]
  have "ts_fidelity s0 = Some T2 \<or> ts_fidelity s0 = Some T3"
    using full(3,4) by (auto simp: base_state_def from_queue_def from_stats_def unmonitored_def
        ts_empty_def Let_def split: sum.splits if_splits cache_probe.splits)
  then show ?thesis using full(5) assms(2) parts
    by (auto simp: take_rate_def with_rate_def has_byte_total_def option_filter_Some_iff word_gt_0
        split: if_splits prod.splits)
qed (use assms(2) in \<open>auto simp: unmonitored_def ts_empty_def partially_observed_def from_stats_def Let_def\<close>)

lemma secs_one: "as_secs_f64 1000000000 = 1"
  by (simp add: as_secs_f64_def fl_one)

lemma sample_poll_rate:
  "ts_rate (fst (poll ((live_answers (Some [sample_item ''a'' 100 False]))\<lparr>an_now := 1000000000\<rparr>)
     (fresh_poller\<lparr>po_rate := \<lparr>re_last = Some (0, 100), re_smoothed = None\<rparr>\<rparr>))) = Some 0"
  by (simp add: sample_poll_simps sample_item_def file_of_item_def sample_at_def secs_one
      remaining_bytes_def sent_bytes_def u64_try_from_def sat_sub_def f64_of_u64_def as_u64_sat_def
      List.map_filter_def)

theorem poll_rate_honest_witness:
  "ts_uploading (fst (poll ((live_answers (Some [sample_item ''a'' 100 False]))\<lparr>an_now := 1000000000\<rparr>)
     (fresh_poller\<lparr>po_rate := \<lparr>re_last = Some (0, 100), re_smoothed = None\<rparr>\<rparr>))) = Some 0"
  using poll_rate_honest [OF prod.collapse [symmetric] sample_poll_rate] by simp

text \<open>
  The polling interval: a mount read from disk is never polled faster than the slower of
  the two cadences, one with files outstanding at the active one, and any other at the idle one.
\<close>

theorem interval_cadence:
  "interval s c \<in> {active_secs c, idle_secs c}
    \<and> (ts_fidelity s = Some T4 \<longrightarrow> active_secs c \<le> interval s c \<and> idle_secs c \<le> interval s c)
    \<and> (ts_fidelity s \<noteq> Some T4 \<longrightarrow> interval s c =
        (if pd_files (ts_pending s) = 0 then idle_secs c else active_secs c))"
  by (auto simp: interval_def word_gt_0 max_def)

theorem interval_cadence_witness:
  "interval (from_scan ''m'' sample_scan) \<lparr>active_secs = 30, idle_secs = 15\<rparr> = 30"
  using interval_cadence [of "from_scan ''m'' sample_scan" "\<lparr>active_secs = 30, idle_secs = 15\<rparr>"]
  by (auto simp: from_scan_def ts_empty_def)

end
