(* ===== verification/Ipc.thy ===== *)
theory Ipc
  imports TransferState
begin

text \<open>
  The lifecycle vocabulary (crates/core/src/supervisor.rs) and the D-Bus contract
  (crates/core/src/ipc.rs): mount states, the errors of the supervisor and the names they cross
  the bus under, and the views of a mount and of a transfer state with their way back. The
  dictionary encoding of a view is zbus's and not modelled; a view is a record of its keys.
\<close>

section \<open>Debug text\<close>

text \<open>
  \<^verbatim>\<open>{:?}\<close> of a string: quoted, with the quote, the backslash and control characters
  escaped. Code points above ASCII are shown as they are, which is what the formatter does with
  every printable one.
\<close>

definition debug_char :: "char \<Rightarrow> string" where
  "debug_char c =
     (let n = of_char c :: nat in
      if c = quote then [backslash, quote]
      else if c = backslash then [backslash, backslash]
      else if n = 9 then [backslash] @ ''t''
      else if n = 10 then [backslash] @ ''n''
      else if n = 13 then [backslash] @ ''r''
      else if n = 0 then [backslash] @ ''0''
      else if n < 32 \<or> n = 127 then [backslash] @ ''u{'' @ show_base 16 n @ ''}''
      else [c])"

definition debug_str :: "string \<Rightarrow> string" where
  "debug_str s = [quote] @ concat (map debug_char s) @ [quote]"

section \<open>Mount states\<close>

datatype mount_state =
    Unmounted | Mounting | Mounted | Unmounting | FailedState string | Foreign | Orphaned

fun is_live :: "mount_state \<Rightarrow> bool" where
  "is_live Mounted = True"
| "is_live Foreign = True"
| "is_live Orphaned = True"
| "is_live Unmounted = False"
| "is_live Mounting = False"
| "is_live Unmounting = False"
| "is_live (FailedState _) = False"

fun is_managed :: "mount_state \<Rightarrow> bool" where
  "is_managed Unmounted = True"
| "is_managed Mounting = True"
| "is_managed Mounted = True"
| "is_managed Unmounting = True"
| "is_managed (FailedState _) = True"
| "is_managed Orphaned = True"
| "is_managed Foreign = False"

record discovered_mount =
  dm_name :: string
  dm_state :: mount_state
  dm_point :: "string option"

definition discovered :: "string \<Rightarrow> mount_state \<Rightarrow> discovered_mount" where
  "discovered name st = \<lparr>dm_name = name, dm_state = st, dm_point = None\<rparr>"

definition dm_at :: "string \<Rightarrow> discovered_mount \<Rightarrow> discovered_mount" where
  "dm_at p d = d\<lparr>dm_point := Some p\<rparr>"

section \<open>Errors\<close>

definition pending_summary :: "pending \<Rightarrow> string" where
  "pending_summary p =
     (if Models.is_exact p then
        show_u64 (pd_files p) @ '' file(s) totalling '' @ show_u64 (pd_known_bytes p)
          @ '' bytes are still waiting to upload''
      else show_u64 (pd_files p) @ '' file(s) are still waiting to upload '' @ em_dash
        @ '' at least '' @ show_u64 (pd_known_bytes p) @ '' bytes, including ''
        @ show_u64 (pd_unknown_size_files p) @ '' of unknown size'')"

text \<open>The last argument of three of them is the underlying cause, kept for the log.\<close>

datatype supervisor_error =
    UnknownMount string
  | BadMountPoint string string "string option"
  | RcloneFailed string "string option"
  | PendingUploads pending
  | Busy string
  | Supervision string "string option"
  | NotManaged string

fun supervisor_error_text :: "supervisor_error \<Rightarrow> string" where
  "supervisor_error_text (UnknownMount n) = ''no mount configured named '' @ debug_str n"
| "supervisor_error_text (BadMountPoint p reason _) =
     ''mount point '' @ debug_str p @ '' is unusable: '' @ reason"
| "supervisor_error_text (RcloneFailed reason _) = ''rclone failed to start: '' @ reason"
| "supervisor_error_text (PendingUploads p) = pending_summary p"
| "supervisor_error_text (Busy detail) = detail"
| "supervisor_error_text (Supervision context _) = ''init system error: '' @ context"
| "supervisor_error_text (NotManaged n) = ''mount '' @ debug_str n @ '' was not started by us''"

declare supervisor_error_text.simps [simp del]

definition BUS_NAME :: string where "BUS_NAME = ''io.github.stuckj.RcloneVfsmountTray''"
definition OBJECT_PATH :: string where "OBJECT_PATH = ''/io/github/stuckj/RcloneVfsmountTray''"
definition INTERFACE_NAME :: string where
  "INTERFACE_NAME = ''io.github.stuckj.RcloneVfsmountTray1''"
definition INTERFACE_VERSION :: "32 word" where "INTERFACE_VERSION = 1"

text \<open>
  A failure of the bus library as far as the code looks at it: the D-Bus error name where it
  carries one, and its text.
\<close>

datatype zbus_error = MethodError string string | Fdo string string | OtherZbus string

datatype ipc_error =
    ZBus zbus_error
  | IpcUnknownMount string
  | IpcBadMountPoint string
  | IpcRcloneFailed string
  | IpcPendingUploads string
  | IpcBusy string
  | IpcSupervision string
  | IpcNotManaged string

definition ipc_error_of :: "supervisor_error \<Rightarrow> ipc_error" where
  "ipc_error_of e =
     (let text = supervisor_error_text e in
      case e of
        UnknownMount _ \<Rightarrow> IpcUnknownMount text
      | BadMountPoint _ _ _ \<Rightarrow> IpcBadMountPoint text
      | RcloneFailed _ _ \<Rightarrow> IpcRcloneFailed text
      | PendingUploads _ \<Rightarrow> IpcPendingUploads text
      | Busy _ \<Rightarrow> IpcBusy text
      | Supervision _ _ \<Rightarrow> IpcSupervision text
      | NotManaged _ \<Rightarrow> IpcNotManaged text)"

section \<open>The vocabularies\<close>

fun state_name :: "mount_state \<Rightarrow> string" where
  "state_name Unmounted = ''unmounted''"
| "state_name Mounting = ''mounting''"
| "state_name Mounted = ''mounted''"
| "state_name Unmounting = ''unmounting''"
| "state_name (FailedState _) = ''failed''"
| "state_name Foreign = ''foreign''"
| "state_name Orphaned = ''orphaned''"

definition state_from_name :: "string \<Rightarrow> string option \<Rightarrow> mount_state option" where
  "state_from_name name reason =
     (if name = ''unmounted'' then Some Unmounted
      else if name = ''mounting'' then Some Mounting
      else if name = ''mounted'' then Some Mounted
      else if name = ''unmounting'' then Some Unmounting
      else if name = ''failed'' then Some (FailedState (unwrap_or reason []))
      else if name = ''foreign'' then Some Foreign
      else if name = ''orphaned'' then Some Orphaned
      else None)"

fun tier_name :: "tier \<Rightarrow> string" where
  "tier_name T1 = ''T1''"
| "tier_name T2 = ''T2''"
| "tier_name T3 = ''T3''"
| "tier_name T4 = ''T4''"

definition tier_from_name :: "string \<Rightarrow> tier option" where
  "tier_from_name name =
     (if name = ''T1'' then Some T1 else if name = ''T2'' then Some T2
      else if name = ''T3'' then Some T3 else if name = ''T4'' then Some T4 else None)"

text \<open>The reason travels beside the name.\<close>

definition state_reason :: "mount_state \<Rightarrow> string option" where
  "state_reason st = (case st of FailedState reason \<Rightarrow> Some reason | _ \<Rightarrow> None)"

interpretation tiers: codec tier_name tier_from_name "\<lambda>_. True"
proof
  fix t :: tier
  show "tier_from_name (tier_name t) = Some t" by (cases t) (simp_all add: tier_from_name_def)
qed

interpretation states: codec "\<lambda>st. (state_name st, state_reason st)"
  "\<lambda>(name, reason). state_from_name name reason" "\<lambda>_. True"
proof
  fix st :: mount_state
  show "(case (state_name st, state_reason st) of (name, reason) \<Rightarrow> state_from_name name reason) = Some st"
    by (cases st) (simp_all add: state_from_name_def state_reason_def)
qed

section \<open>The views\<close>

record mount_view =
  mv_name :: string
  mv_state :: string
  mv_live :: bool
  mv_managed :: bool
  mv_reason :: "string option"
  mv_point :: "string option"
  mv_remote :: "string option"

text \<open>A mount point crosses the bus as text, so what is not UTF-8 in it is replaced.\<close>

definition mount_view_of :: "discovered_mount \<Rightarrow> mount_view" where
  "mount_view_of m =
     \<lparr>mv_name = dm_name m, mv_state = state_name (dm_state m), mv_live = is_live (dm_state m),
      mv_managed = is_managed (dm_state m), mv_reason = state_reason (dm_state m),
      mv_point = map_option from_utf8_lossy (dm_point m), mv_remote = None\<rparr>"

record transfer_file_view =
  fv_name :: string
  fv_size :: "u64 option"
  fv_in_flight :: "bool option"
  fv_tries :: "u64 option"
  fv_bytes_sent :: "u64 option"

definition file_view_of :: "transfer_file \<Rightarrow> transfer_file_view" where
  "file_view_of f =
     \<lparr>fv_name = xf_name f, fv_size = xf_size f, fv_in_flight = xf_in_flight f,
      fv_tries = xf_tries f, fv_bytes_sent = xf_bytes_sent f\<rparr>"

definition file_of_view :: "transfer_file_view \<Rightarrow> transfer_file" where
  "file_of_view v =
     \<lparr>xf_name = fv_name v, xf_size = fv_size v, xf_in_flight = fv_in_flight v,
      xf_tries = fv_tries v, xf_bytes_sent = fv_bytes_sent v\<rparr>"

record transfer_view =
  tv_mount :: string
  tv_fidelity :: "string option"
  tv_outstanding_known :: bool
  tv_has_progress :: bool
  tv_pending_files :: u64
  tv_pending_known_bytes :: u64
  tv_pending_unknown_size_files :: u64
  tv_uploading :: "u64 option"
  tv_errored_files :: "u64 option"
  tv_out_of_space :: "bool option"
  tv_rate :: "u64 option"
  tv_files :: "transfer_file_view list"
  tv_degraded_reason :: "string option"

definition transfer_view_of :: "transfer_state \<Rightarrow> transfer_view" where
  "transfer_view_of s =
     \<lparr>tv_mount = ts_mount s, tv_fidelity = map_option tier_name (ts_fidelity s),
      tv_outstanding_known = ts_outstanding_known s, tv_has_progress = ts_has_progress s,
      tv_pending_files = pd_files (ts_pending s),
      tv_pending_known_bytes = pd_known_bytes (ts_pending s),
      tv_pending_unknown_size_files = pd_unknown_size_files (ts_pending s),
      tv_uploading = ts_uploading s, tv_errored_files = ts_errored_files s,
      tv_out_of_space = ts_out_of_space s, tv_rate = ts_rate s,
      tv_files = map file_view_of (ts_files s), tv_degraded_reason = ts_degraded_reason s\<rparr>"

definition transfer_of_view :: "transfer_view \<Rightarrow> transfer_state" where
  "transfer_of_view v =
     \<lparr>ts_mount = tv_mount v,
      ts_fidelity = (case tv_fidelity v of None \<Rightarrow> None | Some n \<Rightarrow> tier_from_name n),
      ts_outstanding_known = tv_outstanding_known v, ts_has_progress = tv_has_progress v,
      ts_pending = pending_new (tv_pending_files v) (tv_pending_known_bytes v)
        (tv_pending_unknown_size_files v),
      ts_uploading = tv_uploading v, ts_errored_files = tv_errored_files v,
      ts_out_of_space = tv_out_of_space v, ts_rate = tv_rate v,
      ts_files = map file_of_view (tv_files v), ts_degraded_reason = tv_degraded_reason v\<rparr>"

lemma file_view_roundtrip: "file_of_view (file_view_of f) = f"
  by (simp add: file_of_view_def file_view_of_def)

lemma fidelity_roundtrip:
  "(case t of None \<Rightarrow> None | Some x \<Rightarrow> (tier_from_name \<circ> tier_name) x) = t"
  using tiers.dec_enc by (cases t) auto

interpretation transfers: codec transfer_view_of "\<lambda>v. Some (transfer_of_view v)" "\<lambda>_. True"
proof
  fix s :: transfer_state
  show "Some (transfer_of_view (transfer_view_of s)) = Some s"
    by (simp add: transfer_of_view_def transfer_view_of_def fidelity_roundtrip pending_new_def
        file_view_roundtrip map_idI)
qed

lemma view_roundtrip [simp]: "transfer_of_view (transfer_view_of s) = s"
  using transfers.dec_enc [of s] by simp

section \<open>Properties\<close>

text \<open>
  What the service knows of a mount's work crosses the bus without loss: the state a client
  rebuilds from a view is the state the view was made of, two different states have different
  views, and the client's answer to "safe to unmount" is the service's.
\<close>

theorem transfer_view_lossless:
  "transfer_of_view (transfer_view_of s) = s
    \<and> (transfer_view_of s = transfer_view_of s' \<longleftrightarrow> s = s')
    \<and> safe_to_unmount (transfer_of_view (transfer_view_of s)) = safe_to_unmount s"
  using transfers.dec_enc [of s] transfers.enc_inj [of s s'] by auto

text \<open>
  A mount's view says which state it is in, however much a client knows: reading the name
  and reason back gives exactly the state, and the two flags that go along agree with it, so a
  view that is live is one a client also reads as live.
\<close>

theorem mount_view_faithful:
  "state_from_name (mv_state (mount_view_of m)) (mv_reason (mount_view_of m)) = Some (dm_state m)
    \<and> (mv_live (mount_view_of m) = is_live (dm_state m))
    \<and> (mv_managed (mount_view_of m) = is_managed (dm_state m))
    \<and> (mv_state (mount_view_of m) = ''foreign'' \<longleftrightarrow> \<not> mv_managed (mount_view_of m))
    \<and> (mv_reason (mount_view_of m) \<noteq> None \<longleftrightarrow> mv_state (mount_view_of m) = ''failed'')"
  using states.dec_enc [of "dm_state m"]
  by (cases "dm_state m") (simp_all add: mount_view_of_def state_reason_def)

text \<open>
  A view with a tier name this build does not know is read at the honest floor: no
  tier and no byte total, with the rest of the figures as they came.
\<close>

theorem unknown_tier_reads_as_none:
  assumes "tier_from_name n = None"
  shows "ts_fidelity (transfer_of_view (v\<lparr>tv_fidelity := Some n\<rparr>)) = None
    \<and> \<not> has_byte_total (transfer_of_view (v\<lparr>tv_fidelity := Some n\<rparr>))
    \<and> ts_pending (transfer_of_view (v\<lparr>tv_fidelity := Some n\<rparr>)) = ts_pending (transfer_of_view v)
    \<and> (\<forall>t. tier_name t \<noteq> n)"
  using assms tiers.dec_none_not_written [OF assms]
  by (simp add: transfer_of_view_def has_byte_total_def)

theorem unknown_tier_reads_as_none_witness:
  "ts_fidelity (transfer_of_view ((transfer_view_of (from_queue ''m'' sample_queue))
     \<lparr>tv_fidelity := Some ''T9''\<rparr>)) = None"
  using unknown_tier_reads_as_none [of "''T9''" "transfer_view_of (from_queue ''m'' sample_queue)"]
  by (simp add: tier_from_name_def)

text \<open>
  Every failure of the supervisor reaches a client under a name of its own and with the
  whole sentence it would have shown: two failures of different kinds never share a name, and
  none is passed off as a transport failure.
\<close>

fun error_kind :: "supervisor_error \<Rightarrow> nat" where
  "error_kind (UnknownMount _) = 0"
| "error_kind (BadMountPoint _ _ _) = 1"
| "error_kind (RcloneFailed _ _) = 2"
| "error_kind (PendingUploads _) = 3"
| "error_kind (Busy _) = 4"
| "error_kind (Supervision _ _) = 5"
| "error_kind (NotManaged _) = 6"

theorem ipc_error_names:
  "(ipc_error_of a = ipc_error_of b \<longleftrightarrow>
      error_kind a = error_kind b \<and> supervisor_error_text a = supervisor_error_text b)
    \<and> (\<forall>t. ipc_error_of a \<noteq> ZBus t)"
  by (cases a; cases b) (simp_all add: ipc_error_of_def)

end
