(* ===== verification/MountInfo.thy ===== *)
theory MountInfo
  imports Rc
begin

text \<open>
  Paths as the standard library compares them, and the mount table of the kernel
  (crates/core/src/mountinfo.rs): a line of \<^verbatim>\<open>/proc/self/mountinfo\<close>, its octal
  escapes, and the question whether rclone is mounted at a path.
\<close>

section \<open>Paths\<close>

text \<open>
  A path is its bytes. Two paths are equal when their components are: repeated and trailing
  slashes and inner dots do not count, a leading dot of a relative path does.
\<close>

definition path_components :: "string \<Rightarrow> bool \<times> string list" where
  "path_components p =
     (let fs = split_on (CHR ''/'') p; absolute = starts_with ''/'' p in
      (absolute, (if \<not> absolute \<and> hd fs = ''.'' then [''.''] else [])
         @ filter (\<lambda>f. f \<noteq> [] \<and> f \<noteq> ''.'') fs))"

definition path_eq :: "string \<Rightarrow> string \<Rightarrow> bool" where
  "path_eq a b = (path_components a = path_components b)"

definition is_absolute :: "string \<Rightarrow> bool" where
  "is_absolute p = starts_with ''/'' p"

lemma path_eq_refl [simp]: "path_eq p p"
  by (simp add: path_eq_def)

lemma path_eq_sym: "path_eq p q \<Longrightarrow> path_eq q p"
  by (simp add: path_eq_def)

lemma path_eq_trans: "path_eq p q \<Longrightarrow> path_eq q r \<Longrightarrow> path_eq p r"
  by (simp add: path_eq_def)

section \<open>Entries\<close>

record mount_entry =
  me_point :: string
  me_source :: string
  me_fstype :: string

definition RCLONE_FSTYPE :: string where "RCLONE_FSTYPE = ''fuse.rclone''"

definition BARE_FUSE_FSTYPES :: "string list" where "BARE_FUSE_FSTYPES = [''fuse'']"

definition is_rclone :: "mount_entry \<Rightarrow> bool" where
  "is_rclone e =
     (if me_fstype e = RCLONE_FSTYPE then True
      else me_fstype e \<in> set BARE_FUSE_FSTYPES \<and> contains_str '':'' (me_source e)
        \<and> \<not> starts_with ''/'' (me_source e))"

definition entry_remote :: "mount_entry \<Rightarrow> string option" where
  "entry_remote e = map_option fst (split_at_first '':'' (me_source e))"

section \<open>Parsing\<close>

text \<open>\<^verbatim>\<open>byte as char\<close>: a byte above ASCII becomes the two bytes of its Latin-1 code point.\<close>

definition latin1 :: "nat \<Rightarrow> string" where
  "latin1 b =
     (if b < 128 then [char_of b] else [char_of (192 + b div 64), char_of (128 + b mod 64)])"

function unescape_go :: "string \<Rightarrow> string" where
  "unescape_go [] = []"
| "unescape_go (c # s) =
     (if c \<noteq> backslash then c # unescape_go s
      else (let rest = concat (take 3 (chars s)) in
        case from_str_radix 8 255 rest of
          Inr b \<Rightarrow> if length rest = 3 then latin1 b @ unescape_go (drop 3 s)
                   else backslash # unescape_go s
        | Inl _ \<Rightarrow> backslash # unescape_go s))"
  by pat_completeness auto
termination
  by (relation "measure length") auto

definition unescape :: "string \<Rightarrow> string" where
  "unescape s = (if backslash \<notin> set s then s else unescape_go s)"

definition parse_line :: "string \<Rightarrow> mount_entry option" where
  "parse_line line =
     (case drop 4 (split_on (CHR '' '') line) of
        [] \<Rightarrow> None
      | point # rest \<Rightarrow>
          (case dropWhile (\<lambda>f. f \<noteq> ''-'') rest of
             (_ # fstype # source # _) \<Rightarrow>
               (if point = [] \<or> fstype = [] then None
                else Some \<lparr>me_point = unescape point, me_source = unescape source,
                       me_fstype = unescape fstype\<rparr>)
           | _ \<Rightarrow> None))"

definition parse :: "string \<Rightarrow> mount_entry list" where
  "parse contents = List.map_filter parse_line (lines contents)"

text \<open>The bytes of the file, or the error of reading it.\<close>

definition read_from :: "io_error + string \<Rightarrow> io_error + mount_entry list" where
  "read_from file =
     (case file of Inl e \<Rightarrow> Inl e | Inr raw \<Rightarrow> Inr (parse (from_utf8_lossy raw)))"

definition rclone_mounts :: "io_error + string \<Rightarrow> io_error + mount_entry list" where
  "rclone_mounts file =
     (case read_from file of Inl e \<Rightarrow> Inl e | Inr es \<Rightarrow> Inr (filter is_rclone es))"

definition is_mounted_at :: "mount_entry list \<Rightarrow> string \<Rightarrow> bool" where
  "is_mounted_at entries p = list_ex (\<lambda>e. is_rclone e \<and> path_eq (me_point e) p) entries"

section \<open>What the kernel writes\<close>

text \<open>
  The kernel replaces space, tab, newline, backslash and (in the source field) the hash sign
  by a backslash and three octal digits. Only used to state that the parser takes it back.
\<close>

definition octal3 :: "nat \<Rightarrow> string" where
  "octal3 n = [digit_char (n div 64), digit_char (n div 8 mod 8), digit_char (n mod 8)]"

definition kernel_special :: "char \<Rightarrow> bool" where
  "kernel_special c = (c \<in> {CHR '' '', CHR 0x09, newline, backslash, CHR ''#''})"

definition kernel_escape_char :: "char \<Rightarrow> string" where
  "kernel_escape_char c =
     (if kernel_special c
      then backslash # octal3 (of_char c) else [c])"

definition kernel_escape :: "string \<Rightarrow> string" where
  "kernel_escape s = concat (map kernel_escape_char s)"

lemma of_char_octal_digit: "d < 8 \<Longrightarrow> of_char (digit_char d) = d + 48"
  by (simp add: digit_char_def of_char_of take_bit_nat_eq_self)

lemma octal_digits:
  assumes "n < (512 :: nat)"
  shows "n div 64 < 8" "n div 8 mod 8 < 8" "n mod 8 < 8" "(n div 64 * 8 + n div 8 mod 8) * 8 + n mod 8 = n"
proof -
  show "n div 64 < 8" using assms by (simp add: less_mult_imp_div_less)
  have "n div 64 = n div 8 div 8" by (simp add: div_mult2_eq [symmetric])
  then show "(n div 64 * 8 + n div 8 mod 8) * 8 + n mod 8 = n"
    using div_mult_mod_eq [of "n div 8" 8] div_mult_mod_eq [of n 8] by simp
qed simp_all

lemma octal3_ascii:
  assumes "n < 512" "c \<in> set (octal3 n)"
  shows "(of_char c :: nat) < 128"
proof -
  consider "c = digit_char (n div 64)" | "c = digit_char (n div 8 mod 8)" | "c = digit_char (n mod 8)"
    using assms(2) unfolding octal3_def by auto
  then have "\<exists>d < 8. c = digit_char d" by cases (use octal_digits(1-3) [OF assms(1)] in blast)+
  then show ?thesis by (auto simp: of_char_octal_digit)
qed

lemma length_octal3 [simp]: "length (octal3 n) = 3"
  by (simp add: octal3_def)

lemma from_str_radix_three:
  assumes "a < 8" "b < 8" "c < 8" "(a * 8 + b) * 8 + c \<le> 255"
  shows "from_str_radix 8 255 [digit_char a, digit_char b, digit_char c] = Inr ((a * 8 + b) * 8 + c)"
  using assms digit_char_not_sign [of a] by (simp add: from_str_radix_def digit_value_digit_char)

lemma from_str_radix_octal3:
  assumes "n < 256"
  shows "from_str_radix 8 255 (octal3 n) = Inr n"
proof -
  have "n < 512" using assms by simp
  note d = octal_digits [OF this]
  show ?thesis
    using from_str_radix_three [OF d(1-3)] assms unfolding octal3_def d(4) by simp
qed

lemma chars_octal3:
  assumes "n < 512" "s \<noteq> [] \<Longrightarrow> \<not> is_cont (hd s)"
  shows "concat (take 3 (chars (octal3 n @ s))) = octal3 n"
proof -
  have "takeWhile is_cont s = []" "dropWhile is_cont s = s" using assms(2) by (cases s; simp)+
  moreover have "\<not> is_cont c" if "c \<in> set (octal3 n)" for c
    using octal3_ascii [OF assms(1) that] by (simp add: is_cont_def)
  ultimately show ?thesis by (simp add: octal3_def)
qed

lemma unescape_escaped:
  assumes "n < 128" "s \<noteq> [] \<Longrightarrow> \<not> is_cont (hd s)"
  shows "unescape_go (backslash # octal3 n @ s) = char_of n # unescape_go s"
proof -
  have "concat (take 3 (chars (octal3 n @ s))) = octal3 n" "from_str_radix 8 255 (octal3 n) = Inr n"
    using assms chars_octal3 [of n s] from_str_radix_octal3 [of n] by simp_all
  then show ?thesis using assms(1) by (simp add: latin1_def)
qed

text \<open>In well-formed text no continuation byte follows a character the kernel escapes.\<close>

fun escapable :: "string \<Rightarrow> bool" where
  "escapable [] = True"
| "escapable (c # s) = ((kernel_special c \<longrightarrow> s \<noteq> [] \<longrightarrow> \<not> is_cont (hd s)) \<and> escapable s)"

lemma kernel_special_ascii: "kernel_special c \<Longrightarrow> (of_char c :: nat) < 128"
  by (auto simp: kernel_special_def)

lemma utf8_unit_bytes:
  assumes "utf8_unit s = (True, n)"
  shows "n = 1 \<or> (\<forall>c \<in> set (take n s). 128 \<le> (of_char c :: nat))"
proof -
  have n: "n \<in> {1, 2, 3, 4}" using assms by (auto simp: utf8_unit_def Let_def split: if_splits)
  have "128 \<le> (of_char (s ! i) :: nat)" if "n \<noteq> 1" "i < n" "i < length s" for i
  proof -
    have "i = 0 \<or> i = 1 \<or> i = 2 \<or> i = 3" using n that by auto
    then show ?thesis using assms that n
      by (elim disjE)
        (auto simp: utf8_unit_def utf8_width_def utf8_second_def Let_def split: if_splits)
  qed
  then show ?thesis by (auto simp: set_conv_nth)
qed

lemma escapable_append:
  "(\<And>c. c \<in> set u \<Longrightarrow> 128 \<le> (of_char c :: nat)) \<Longrightarrow> escapable (u @ t) = escapable t"
  by (induction u) (use kernel_special_ascii in fastforce)+

lemma utf8_escapable: "is_utf8 s \<Longrightarrow> escapable s"
proof (induction s rule: is_utf8.induct)
  case (1 s)
  show ?case
  proof (cases s)
    case (Cons c t)
    obtain ok n where u: "utf8_unit s = (ok, n)" by force
    with "1.prems" Cons have ok: "ok" "is_utf8 (drop n s)"
      by (simp_all add: is_utf8.simps [of "c # t"])
    with 1(1) u Cons have rest: "escapable (drop n s)" by simp
    show ?thesis
    proof (cases "n = 1")
      case True
      then show ?thesis using Cons ok(2) rest is_utf8_head [of t] by simp
    next
      case False
      then have "\<forall>c \<in> set (take n s). 128 \<le> (of_char c :: nat)" using utf8_unit_bytes [of s n] u ok(1) by simp
      then show ?thesis using escapable_append [of "take n s" "drop n s"] rest by simp
    qed
  qed simp
qed

lemma hd_kernel_escape: "kernel_escape s \<noteq> [] \<Longrightarrow> hd (kernel_escape s) = backslash \<or> hd (kernel_escape s) = hd s"
  by (cases s) (auto simp: kernel_escape_def kernel_escape_char_def)

lemma unescape_go_escape: "escapable s \<Longrightarrow> unescape_go (kernel_escape s) = s"
proof (induction s)
  case (Cons c s)
  have rest: "unescape_go (kernel_escape s) = s" using Cons by simp
  show ?case
  proof (cases "kernel_special c")
    case True
    have "\<not> is_cont (hd (kernel_escape s))" if "kernel_escape s \<noteq> []"
    proof -
      have "s \<noteq> []" using that by (auto simp: kernel_escape_def)
      then have "\<not> is_cont (hd s)" using Cons.prems True by simp
      moreover have "\<not> is_cont backslash" by (simp add: is_cont_def)
      ultimately show ?thesis using hd_kernel_escape [OF that] by auto
    qed
    then show ?thesis
      using True unescape_escaped [OF kernel_special_ascii [OF True], of "kernel_escape s"] rest
      by (simp add: kernel_escape_def kernel_escape_char_def)
  next
    case False
    then have "c \<noteq> backslash" by (simp add: kernel_special_def)
    then show ?thesis using False rest by (simp add: kernel_escape_def kernel_escape_char_def)
  qed
qed (simp add: kernel_escape_def)

lemma unescape_go_id: "backslash \<notin> set s \<Longrightarrow> unescape_go s = s"
  by (induction s) auto

lemma unescape_kernel_escape: "is_utf8 s \<Longrightarrow> unescape (kernel_escape s) = s"
  using unescape_go_escape [OF utf8_escapable] unescape_go_id
  by (metis unescape_def)

lemma kernel_escape_no_space: "CHR '' '' \<notin> set (kernel_escape s)"
proof -
  have "CHR '' '' \<notin> set (octal3 n)" if "n < 128" for n
    using from_str_radix_octal3 [of n] that octal_digits [of n]
    by (auto simp: octal3_def dest!: arg_cong [of _ _ "of_char :: char \<Rightarrow> nat"] simp: of_char_octal_digit)
  then show ?thesis
    by (auto simp: kernel_escape_def kernel_escape_char_def kernel_special_ascii)
      (auto simp: kernel_special_def)
qed

lemma split_on_nonempty [simp]: "split_on d s \<noteq> []"
  by (induction s) (auto split: list.splits)

lemma split_on_field: "d \<notin> set f \<Longrightarrow> split_on d f = [f]"
  by (induction f) auto

lemma split_on_append: "d \<notin> set f \<Longrightarrow> split_on d (f @ d # s) = f # split_on d s"
  by (induction f) auto

lemma split_on_join:
  "fs \<noteq> [] \<Longrightarrow> list_all (\<lambda>f. d \<notin> set f) fs \<Longrightarrow> split_on d (join [d] fs) = fs"
proof (induction fs)
  case (Cons f fs)
  show ?case
  proof (cases fs)
    case Nil
    with Cons show ?thesis by (simp add: join_def split_on_field)
  next
    case (Cons g gs)
    then have "join [d] (f # fs) = f @ d # join [d] fs" by (simp add: join_def)
    with Cons \<open>list_all _ (f # fs)\<close> Cons.IH show ?thesis by (simp add: split_on_append)
  qed
qed simp

text \<open>A line of the table: identity fields, the point, its options, optional fields, the tail.\<close>

definition mount_line :: "string list \<Rightarrow> string list \<Rightarrow> mount_entry \<Rightarrow> string list \<Rightarrow> string" where
  "mount_line ids opts e tail =
     join '' '' (ids @ [kernel_escape (me_point e)] @ opts
       @ [''-'', kernel_escape (me_fstype e), kernel_escape (me_source e)] @ tail)"

lemma kernel_escape_Nil [simp]: "kernel_escape s = [] \<longleftrightarrow> s = []"
  by (cases s) (auto simp: kernel_escape_def kernel_escape_char_def)

lemma dropWhile_to_dash: "''-'' \<notin> set opts \<Longrightarrow> dropWhile (\<lambda>f. f \<noteq> ''-'') (opts @ ''-'' # t) = ''-'' # t"
  by (induction opts) auto

lemma parse_mount_line:
  assumes "length ids = 4" "list_all (\<lambda>f. CHR '' '' \<notin> set f) (ids @ opts @ tail)" "''-'' \<notin> set opts"
    "is_utf8 (me_point e)" "is_utf8 (me_fstype e)" "is_utf8 (me_source e)"
    "me_point e \<noteq> []" "me_fstype e \<noteq> []"
  shows "parse_line (mount_line ids opts e tail) = Some e"
proof -
  have "split_on (CHR '' '') (mount_line ids opts e tail) = ids @ kernel_escape (me_point e) # opts
      @ ''-'' # kernel_escape (me_fstype e) # kernel_escape (me_source e) # tail"
    unfolding mount_line_def
    by (subst split_on_join) (use assms(2) kernel_escape_no_space in \<open>auto simp: list_all_iff\<close>)
  then show ?thesis using assms
    by (simp add: parse_line_def dropWhile_to_dash unescape_kernel_escape)
qed

lemma mounted_at_iff: "is_mounted_at es p \<longleftrightarrow> (\<exists>e \<in> set es. is_rclone e \<and> path_eq (me_point e) p)"
  by (auto simp: is_mounted_at_def list_ex_iff)

lemma mounted_at_cong: "path_eq p q \<Longrightarrow> is_mounted_at es p = is_mounted_at es q"
  by (simp add: is_mounted_at_def path_eq_def)

lemma set_parse: "e \<in> set (parse contents) \<longleftrightarrow> (\<exists>l \<in> set (lines contents). parse_line l = Some e)"
  by (force simp: parse_def List.map_filter_def)

lemma lines_single: "newline \<notin> set s \<Longrightarrow> s \<noteq> [] \<Longrightarrow> lines s = [s]"
proof -
  assume s: "newline \<notin> set s" "s \<noteq> []"
  then have d: "dropWhile (\<lambda>c. c \<noteq> newline) s = []" by auto
  show ?thesis by (subst lines.simps) (simp only: d s(2) if_False list.case)
qed


definition spaced_mount :: mount_entry where
  "spaced_mount = \<lparr>me_point = ''/mnt/my backup'', me_source = ''b:'', me_fstype = ''fuse.rclone''\<rparr>"


end
