(* ===== verification/Config.thy ===== *)
theory Config
  imports Ipc MountInfo
begin

text \<open>
  The applet's configuration (crates/core/src/config.rs): its data, the unit name and the argv
  of a mount, the spellings of umasks, sizes and durations, the validation, and loading and
  saving the file. TOML itself is the \<^verbatim>\<open>toml\<close> crate: its reader and writer
  are arguments. The Unicode tables behind \<^verbatim>\<open>is_alphabetic\<close> and
  \<^verbatim>\<open>is_alphanumeric\<close> are arguments too, consulted above ASCII only.
\<close>

section \<open>The data\<close>

definition CURRENT_VERSION :: "32 word" where "CURRENT_VERSION = 1"

definition MAX_POLL_SECS :: u64 where "MAX_POLL_SECS = 86400"

record notifications =
  nf_uploads_complete :: bool
  nf_upload_errors :: bool
  nf_mount_failures :: bool
  nf_cache_full :: bool

definition notifications_default :: notifications where
  "notifications_default = \<lparr>nf_uploads_complete = True, nf_upload_errors = True,
     nf_mount_failures = True, nf_cache_full = True\<rparr>"

record global_config =
  gc_rclone_path :: "string option"
  gc_cache_dir :: "string option"
  gc_unmount_on_service_stop :: bool
  gc_poll :: poll
  gc_notifications :: notifications

definition global_default :: global_config where
  "global_default = \<lparr>gc_rclone_path = None, gc_cache_dir = None,
     gc_unmount_on_service_stop = False, gc_poll = poll_default,
     gc_notifications = notifications_default\<rparr>"

record mount =
  mt_name :: string
  mt_remote :: string
  mt_path :: string
  mt_point :: string
  mt_cache_mode :: cache_mode
  mt_cache_max_size :: "string option"
  mt_cache_max_age :: "string option"
  mt_auto_mount :: bool
  mt_read_only :: bool
  mt_allow_other :: bool
  mt_uid :: "32 word option"
  mt_gid :: "32 word option"
  mt_umask :: "string option"
  mt_extra_args :: "string list"

record config =
  cf_version :: "32 word"
  cf_global :: global_config
  cf_mounts :: "mount list"

definition config_default :: config where
  "config_default = \<lparr>cf_version = CURRENT_VERSION, cf_global = global_default, cf_mounts = []\<rparr>"

definition config_mount :: "config \<Rightarrow> string \<Rightarrow> mount option" where
  "config_mount c name = find (\<lambda>m. mt_name m = name) (cf_mounts c)"

section \<open>What a mount becomes\<close>

definition UNIT_PREFIX :: string where "UNIT_PREFIX = ''rvt-mount-''"

definition fs_spec :: "mount \<Rightarrow> string" where
  "fs_spec m =
     (if mt_path m = [] then mt_remote m @ '':''
      else mt_remote m @ '':'' @ dropWhile (\<lambda>c. c = CHR ''/'') (mt_path m))"

definition slug_point :: "string \<Rightarrow> char" where
  "slug_point p =
     (case p of [c] \<Rightarrow> if is_ascii_alnum c \<or> c = CHR ''_'' \<or> c = CHR ''.'' then c else CHR ''-''
      | _ \<Rightarrow> CHR ''-'')"

definition unit_name :: "mount \<Rightarrow> string" where
  "unit_name m = UNIT_PREFIX @ map slug_point (chars (mt_name m)) @ ''.service''"

section \<open>Umasks\<close>

definition MAX_UMASK :: nat where "MAX_UMASK = 2 ^ 31 - 1"

definition U128_MAX :: nat where "U128_MAX = 2 ^ 128 - 1"

text \<open>\<^verbatim>\<open>trim_start_matches("0o")\<close>.\<close>

fun trim_0o :: "string \<Rightarrow> string" where
  "trim_0o (a # b # s) = (if a = CHR ''0'' \<and> b = CHR ''o'' then trim_0o s else a # b # s)"
| "trim_0o s = s"

definition umask_bits :: "string \<Rightarrow> nat option" where
  "umask_bits s =
     (case from_str_radix 8 U128_MAX (trim_0o s) of
        Inr bits \<Rightarrow> Some bits
      | Inl PosOverflow \<Rightarrow> Some U128_MAX
      | Inl _ \<Rightarrow> None)"

definition zero_octal :: "nat \<Rightarrow> string" where
  "zero_octal n = ''0'' @ show_base 8 n"

definition canonical_umask :: "string \<Rightarrow> string" where
  "canonical_umask s =
     (case umask_bits s of
        Some bits \<Rightarrow> if bits \<le> MAX_UMASK then zero_octal bits else s
      | None \<Rightarrow> s)"

definition umask_readings :: "string \<Rightarrow> (string \<times> string) option" where
  "umask_readings s =
     (case umask_bits s of
        None \<Rightarrow> None
      | Some bits \<Rightarrow>
          (let now = bits mod 512;
               unsig = unwrap_or (strip_prefix ''+'' s) s in
           case (if starts_with ''0'' unsig then Some now
                 else case from_str_radix 10 U128_MAX unsig of
                        Inr n \<Rightarrow> Some (n mod 512) | Inl _ \<Rightarrow> None) of
             None \<Rightarrow> None
           | Some before \<Rightarrow>
               if before \<noteq> now then Some (zero_octal before, zero_octal now) else None))"

text \<open>The last \<^verbatim>\<open>--umask\<close> among the extra arguments, in either spelling.\<close>

fun extra_umask :: "string list \<Rightarrow> string option" where
  "extra_umask [] = None"
| "extra_umask (a # rest) =
     or_else (extra_umask rest)
       (or_else (strip_prefix ''--umask='' a)
          (if a = ''--umask'' then (case rest of [] \<Rightarrow> None | v # _ \<Rightarrow> Some v) else None))"

definition effective_umask :: "mount \<Rightarrow> string option" where
  "effective_umask m = or_else (extra_umask (mt_extra_args m)) (mt_umask m)"

section \<open>The argv\<close>

definition mount_args :: "mount \<Rightarrow> string \<Rightarrow> string list" where
  "mount_args m rc_socket =
     [''mount'', fs_spec m, from_utf8_lossy (mt_point m)]
     @ [''--vfs-cache-mode'', cache_mode_str (mt_cache_mode m)]
     @ (case mt_cache_max_size m of Some limit \<Rightarrow> [''--vfs-cache-max-size'', limit] | None \<Rightarrow> [])
     @ (case mt_cache_max_age m of Some age \<Rightarrow> [''--vfs-cache-max-age'', age] | None \<Rightarrow> [])
     @ (if mt_read_only m then [''--read-only''] else [])
     @ (if mt_allow_other m then [''--allow-other''] else [])
     @ (case mt_uid m of Some uid \<Rightarrow> [''--uid'', show_nat (unat uid)] | None \<Rightarrow> [])
     @ (case mt_gid m of Some gid \<Rightarrow> [''--gid'', show_nat (unat gid)] | None \<Rightarrow> [])
     @ (case mt_umask m of Some umask \<Rightarrow> [''--umask'', canonical_umask umask] | None \<Rightarrow> [])
     @ [''--rc'', ''--rc-addr'', ''unix://'' @ from_utf8_lossy rc_socket, ''--rc-no-auth'']
     @ mt_extra_args m"

section \<open>Sizes and durations\<close>

record unicode =
  un_alphabetic :: "string \<Rightarrow> bool"
  un_alphanumeric :: "string \<Rightarrow> bool"

definition is_alphabetic :: "unicode \<Rightarrow> string \<Rightarrow> bool" where
  "is_alphabetic U p = (case p of [c] \<Rightarrow> is_ascii_alpha c | _ \<Rightarrow> un_alphabetic U p)"

definition is_alphanumeric :: "unicode \<Rightarrow> string \<Rightarrow> bool" where
  "is_alphanumeric U p = (case p of [c] \<Rightarrow> is_ascii_alnum c | _ \<Rightarrow> un_alphanumeric U p)"

text \<open>Whether the standard library's \<^verbatim>\<open>parse::<f64>\<close> takes a text.\<close>

definition skip_sign :: "string \<Rightarrow> string" where
  "skip_sign s = (case s of c # t \<Rightarrow> if c = CHR ''+'' \<or> c = CHR ''-'' then t else s | [] \<Rightarrow> [])"

definition decimal_ok :: "string \<Rightarrow> bool" where
  "decimal_ok s =
     (let whole = takeWhile is_ascii_digit s; rest = dropWhile is_ascii_digit s;
          (frac, rest) = (case rest of
              c # t \<Rightarrow> if c = CHR ''.'' then (takeWhile is_ascii_digit t, dropWhile is_ascii_digit t)
                       else ([], rest)
            | [] \<Rightarrow> ([], [])) in
      whole @ frac \<noteq> []
        \<and> (case rest of
             [] \<Rightarrow> True
           | c # t \<Rightarrow> (c = CHR ''e'' \<or> c = CHR ''E'')
               \<and> skip_sign t \<noteq> [] \<and> list_all is_ascii_digit (skip_sign t)))"

definition f64_parses :: "string \<Rightarrow> bool" where
  "f64_parses s =
     (let t = skip_sign s in
      t \<noteq> [] \<and> (decimal_ok t \<or> to_ascii_lowercase t \<in> {''nan'', ''inf'', ''infinity''}))"

text \<open>The text before its trailing letters, and those letters.\<close>

definition split_unit :: "unicode \<Rightarrow> string \<Rightarrow> string \<times> string" where
  "split_unit U v =
     (let cs = chars v; unit = rev (takeWhile (is_alphabetic U) (rev cs)) in
      (concat (take (length cs - length unit) cs), concat unit))"

definition size_scales :: "string list" where
  "size_scales = [''k'', ''m'', ''g'', ''t'', ''p'', ''e'']"

definition size_suffix_ok :: "unicode \<Rightarrow> string \<Rightarrow> bool" where
  "size_suffix_ok U v =
     (if to_ascii_lowercase v = ''off'' then True
      else if v = [] \<or> v \<noteq> trim v \<or> starts_with ''-'' v then False
      else (case split_unit U v of (number, unit) \<Rightarrow>
        if unit = [] \<or> \<not> f64_parses number then True
        else if to_ascii_lowercase unit = ''b'' then True
        else (let scale =
                (case or_else (strip_suffix ''b'' unit) (strip_suffix ''B'' unit) of
                   Some rest \<Rightarrow> if ends_with ''i'' rest then rest else unit
                 | None \<Rightarrow> unit);
              scale = unwrap_or (or_else (strip_suffix ''i'' scale) (strip_suffix ''I'' scale)) scale in
          to_ascii_lowercase scale \<in> set size_scales)))"

definition DURATION_UNITS :: "string list" where
  "DURATION_UNITS =
     [''ns'', ''us'', [CHR 0xC2, CHR 0xB5] @ ''s'', [CHR 0xCE, CHR 0xBC] @ ''s'', ''ms'', ''s'',
      ''m'', ''h'', ''d'', ''w'', ''M'', ''y'']"

definition duration_ok :: "unicode \<Rightarrow> string \<Rightarrow> bool" where
  "duration_ok U v =
     (if v = ''off'' \<or> v = [] then v = ''off''
      else (case split_unit U v of (number, unit) \<Rightarrow>
        if unit = [] \<or> \<not> f64_parses number then True else unit \<in> set DURATION_UNITS))"

section \<open>Errors\<close>

datatype config_error =
    CfRead string io_error
  | CfWrite string io_error
  | CfParse string string
  | FromTheFuture string "32 word" "32 word"
  | CfInvalid string
  | NoConfigDir

fun config_error_text :: "config_error \<Rightarrow> string" where
  "config_error_text (CfRead p e) =
     ''config file '' @ from_utf8_lossy p @ '' could not be read: '' @ io_text e"
| "config_error_text (CfWrite p e) =
     ''config file '' @ from_utf8_lossy p @ '' could not be written: '' @ io_text e"
| "config_error_text (CfParse p e) =
     ''config file '' @ from_utf8_lossy p @ '' is not valid TOML: '' @ e"
| "config_error_text (FromTheFuture p found supported) =
     ''config file '' @ from_utf8_lossy p @ '' is version '' @ show_nat (unat found)
       @ '', but this build understands up to '' @ show_nat (unat supported) @ '' '' @ em_dash
       @ '' upgrade rclone-vfsmount-tray''"
| "config_error_text (CfInvalid t) = t"
| "config_error_text NoConfigDir =
     ''could not determine a config directory: neither $XDG_CONFIG_HOME nor $HOME is set''"

declare config_error_text.simps [simp del]

section \<open>Validation\<close>

definition msg_mount :: "string \<Rightarrow> string \<Rightarrow> string" where
  "msg_mount n text = ''mount '' @ debug_str n @ '': '' @ text"

definition ticked :: "string \<Rightarrow> string" where
  "ticked s = [CHR 0x27] @ s @ [CHR 0x27]"

definition msg_bad_name :: "string \<Rightarrow> string" where
  "msg_bad_name n =
     ''mount name '' @ debug_str n @ '' may only contain ASCII letters, digits, ''
       @ ticked ''-'' @ '', '' @ ticked ''_'' @ '' and '' @ ticked ''.''
       @ '': it is used in the systemd unit name, on D-Bus and in lookups''"

definition msg_rc_flag :: "string \<Rightarrow> string \<Rightarrow> string" where
  "msg_rc_flag n bad =
     msg_mount n (''extra_args may not set rc flags ('' @ debug_str bad
       @ ''). The rc endpoint is configured for you as a private UNIX socket; adding another listener ''
       @ ''would expose an unauthenticated rc API, which is equivalent to shell access as this user.'')"

definition msg_remote :: "string \<Rightarrow> string \<Rightarrow> string" where
  "msg_remote n r =
     msg_mount n (''remote '' @ debug_str r @ '' is not a usable rclone remote name '' @ em_dash
       @ '' letters, digits, `_`, `.`, `+`, `@`, `-` and interior spaces only, not starting ''
       @ ''with `-` or a space and not ending with a space'')"

definition msg_size :: "string \<Rightarrow> string \<Rightarrow> string" where
  "msg_size n v =
     msg_mount n (''cache_max_size '' @ debug_str v @ '' is not a size rclone accepts. Use ''
       @ ''a number with `B` for bytes, or `K`, `M`, `G`, `T`, `P` or `E`, each ''
       @ ''taking an optional `i` or `iB` '' @ em_dash @ '' `10G`, `10Gi` and `10GiB` are the ''
       @ ''same size, and `10GB` is not one. A bare number is KiB, and `off` means no limit.'')"

definition msg_age :: "string \<Rightarrow> string \<Rightarrow> string" where
  "msg_age n v =
     msg_mount n (''cache_max_age '' @ debug_str v @ '' is not a duration rclone accepts. ''
       @ ''Use a number and a unit '' @ em_dash @ '' `ns`, `us`, `ms`, `s`, `m`, `h`, `d`, `w`, ''
       @ ''`M` for a month or `y` '' @ em_dash @ '' as in `24h`. Only `ns` through `h` may be ''
       @ ''combined, so `1h30m` works and `1d12h` does not, and case matters: ''
       @ ''`M` is a month, `m` a minute. A bare number is seconds, and `off` means no limit.'')"

definition name_char :: "char \<Rightarrow> bool" where
  "name_char c = (is_ascii_alnum c \<or> c \<in> {CHR ''-'', CHR ''_'', CHR ''.''})"

definition is_rc_flag :: "string \<Rightarrow> bool" where
  "is_rc_flag a =
     is_some_and (strip_prefix ''--rc'' a) (\<lambda>r. r = [] \<or> starts_with ''-'' r \<or> starts_with ''='' r)"

definition remote_char :: "unicode \<Rightarrow> string \<Rightarrow> bool" where
  "remote_char U p = (is_alphanumeric U p \<or> p \<in> set [''_'', ''.'', ''+'', ''@'', ''-'', '' ''])"

definition remote_ok :: "unicode \<Rightarrow> string \<Rightarrow> bool" where
  "remote_ok U r =
     (\<not> (r = [] \<or> list_ex (\<lambda>p. \<not> remote_char U p) (chars r)
        \<or> starts_with ''-'' r \<or> starts_with '' '' r \<or> ends_with '' '' r))"

definition validate_poll :: "string \<Rightarrow> u64 \<Rightarrow> config_error + unit" where
  "validate_poll field secs =
     (if secs = 0 \<or> MAX_POLL_SECS < secs
      then Inl (CfInvalid (''global.poll.'' @ field @ '' must be between 1 second and ''
             @ show_u64 MAX_POLL_SECS @ '' (a day), got '' @ show_u64 secs))
      else Inr ())"

definition validate_umask :: "string \<Rightarrow> string option \<Rightarrow> config_error + unit" where
  "validate_umask n umask =
     (case umask of
        None \<Rightarrow> Inr ()
      | Some u \<Rightarrow>
          (case umask_bits u of
             None \<Rightarrow> Inl (CfInvalid (msg_mount n (''umask '' @ debug_str u @ '' is not octal'')))
           | Some bits \<Rightarrow>
               if MAX_UMASK < bits
               then Inl (CfInvalid (msg_mount n (''umask '' @ debug_str u @ '' is larger than ''
                      @ zero_octal MAX_UMASK @ '', which rclone 1.68.0 and later refuse'')))
               else Inr ()))"

definition validate_mount ::
  "unicode \<Rightarrow> string list \<Rightarrow> string list \<Rightarrow> mount \<Rightarrow> config_error + unit" where
  "validate_mount U names points m =
     (let n = mt_name m in
      if n = [] then Inl (CfInvalid ''a mount has an empty name'')
      else if n = ''.'' \<or> n = ''..''
      then Inl (CfInvalid (''mount name '' @ debug_str n @ '' is reserved: the name is used to build paths''))
      else if \<not> list_all name_char n then Inl (CfInvalid (msg_bad_name n))
      else if n \<in> set names then Inl (CfInvalid (''duplicate mount name '' @ debug_str n))
      else (case find is_rc_flag (mt_extra_args m) of
        Some bad \<Rightarrow> Inl (CfInvalid (msg_rc_flag n bad))
      | None \<Rightarrow>
      if CHR '':'' \<in> set (mt_remote m)
      then Inl (CfInvalid (msg_mount n (''remote should be the name alone, without a colon '' @ em_dash
             @ '' put any path in `path`'')))
      else if \<not> remote_ok U (mt_remote m) then Inl (CfInvalid (msg_remote n (mt_remote m)))
      else if \<not> is_absolute (mt_point m)
      then Inl (CfInvalid (msg_mount n (''mount_point must be absolute, got '' @ from_utf8_lossy (mt_point m))))
      else if list_ex (path_eq (mt_point m)) points
      then Inl (CfInvalid (msg_mount n (''two mounts share the mount point '' @ from_utf8_lossy (mt_point m))))
      else (case validate_umask n (mt_umask m) of
        Inl e \<Rightarrow> Inl e
      | Inr _ \<Rightarrow>
      (case option_filter (\<lambda>v. \<not> size_suffix_ok U v) (mt_cache_max_size m) of
        Some v \<Rightarrow> Inl (CfInvalid (msg_size n v))
      | None \<Rightarrow>
      (case option_filter (\<lambda>v. \<not> duration_ok U v) (mt_cache_max_age m) of
        Some v \<Rightarrow> Inl (CfInvalid (msg_age n v))
      | None \<Rightarrow> Inr ())))))"

text \<open>The loop over the mounts, with the names and points already taken.\<close>

fun validate_mounts ::
  "unicode \<Rightarrow> string list \<Rightarrow> string list \<Rightarrow> mount list \<Rightarrow> config_error + unit" where
  "validate_mounts U names points [] = Inr ()"
| "validate_mounts U names points (m # ms) =
     (case validate_mount U names points m of
        Inl e \<Rightarrow> Inl e
      | Inr _ \<Rightarrow> validate_mounts U (mt_name m # names) (mt_point m # points) ms)"

definition validate :: "unicode \<Rightarrow> config \<Rightarrow> config_error + unit" where
  "validate U c =
     (let g = cf_global c in
      case option_filter (\<lambda>p. \<not> is_absolute p) (gc_rclone_path g) of
        Some p \<Rightarrow> Inl (CfInvalid (''global.rclone_path must be absolute, got '' @ from_utf8_lossy p))
      | None \<Rightarrow>
      (case validate_poll ''active_secs'' (active_secs (gc_poll g)) of
        Inl e \<Rightarrow> Inl e
      | Inr _ \<Rightarrow>
      (case validate_poll ''idle_secs'' (idle_secs (gc_poll g)) of
        Inl e \<Rightarrow> Inl e
      | Inr _ \<Rightarrow> validate_mounts U [] [] (cf_mounts c))))"

section \<open>Loading\<close>

definition default_path :: "string option \<Rightarrow> string option \<Rightarrow> config_error + string" where
  "default_path xdg_config_home home =
     (case option_filter (\<lambda>v. v \<noteq> []) xdg_config_home of
        Some v \<Rightarrow> Inr (path_join (path_join v ''rclone-vfsmount-tray'') ''config.toml'')
      | None \<Rightarrow>
          (case option_filter (\<lambda>v. v \<noteq> []) home of
             None \<Rightarrow> Inl NoConfigDir
           | Some h \<Rightarrow> Inr (path_join (path_join (path_join h ''.config'') ''rclone-vfsmount-tray'')
               ''config.toml'')))"

text \<open>
  \<open>version_of\<close> reads the version alone, \<open>reader\<close> the whole file; both are the TOML reader's, with
  its refusals as text.
\<close>

definition load ::
  "unicode \<Rightarrow> (string \<Rightarrow> string + 32 word) \<Rightarrow> (string \<Rightarrow> string + config) \<Rightarrow> string
     \<Rightarrow> io_error + string \<Rightarrow> config_error + config" where
  "load U version_of reader path file =
     (case file of
        Inl IoNotFound \<Rightarrow> Inr config_default
      | Inl e \<Rightarrow> Inl (CfRead path e)
      | Inr text \<Rightarrow>
          (case version_of text of
             Inl e \<Rightarrow> Inl (CfParse path e)
           | Inr v \<Rightarrow>
               if CURRENT_VERSION < v then Inl (FromTheFuture path v CURRENT_VERSION)
               else (case reader text of
                       Inl e \<Rightarrow> Inl (CfParse path e)
                     | Inr c \<Rightarrow> (case validate U c of Inl e \<Rightarrow> Inl e | Inr _ \<Rightarrow> Inr c))))"

section \<open>Saving\<close>

text \<open>
  A path as its components, which is how the parent and the temporary name are formed. The
  operations of a save on a store of files; a crash stops the sequence anywhere.
\<close>

type_synonym comps = "bool \<times> string list"

definition show_comps :: "comps \<Rightarrow> string" where
  "show_comps p = (if fst p then ''/'' else []) @ join ''/'' (snd p)"

definition file_stem :: "string \<Rightarrow> string" where
  "file_stem name =
     (let before = rev (drop 1 (dropWhile (\<lambda>c. c \<noteq> CHR ''.'') (rev name))) in
      if before = [] then name else before)"

definition has_file_name :: "comps \<Rightarrow> bool" where
  "has_file_name p = (snd p \<noteq> [] \<and> last (snd p) \<noteq> ''..'')"

definition with_extension :: "string \<Rightarrow> comps \<Rightarrow> comps" where
  "with_extension ext p =
     (if has_file_name p
      then (fst p, butlast (snd p) @ [file_stem (last (snd p)) @ ''.'' @ ext]) else p)"

definition parent_or_dot :: "comps \<Rightarrow> comps" where
  "parent_or_dot p = (if snd p = [] then (False, [''.'']) else (fst p, butlast (snd p)))"

datatype save_op =
    MkDirs comps | Create comps | Append comps string | SyncFile comps
  | Remove comps | Rename comps comps | SyncDir comps

fun apply_op :: "save_op \<Rightarrow> (comps \<Rightarrow> string option) \<Rightarrow> comps \<Rightarrow> string option" where
  "apply_op (Create p) F = F(p := Some [])"
| "apply_op (Append p s) F = F(p := map_option (\<lambda>t. t @ s) (F p))"
| "apply_op (Remove p) F = F(p := None)"
| "apply_op (Rename p q) F = F(q := F p, p := None)"
| "apply_op (MkDirs p) F = F"
| "apply_op (SyncFile p) F = F"
| "apply_op (SyncDir p) F = F"

text \<open>
  What the system answers: \<open>sa_write\<close> gives the bytes that reached the file before the error,
  and \<open>sa_body\<close> is the TOML writer's.
\<close>

record save_answers =
  sa_mkdir :: "io_error option"
  sa_body :: "string + string"
  sa_create :: "io_error option"
  sa_write :: "(nat \<times> io_error) option"
  sa_sync :: "io_error option"
  sa_rename :: "io_error option"
  sa_dir_opens :: bool

text \<open>Creating, writing and flushing the temporary file: what was done, and the error if any.\<close>

definition write_tmp :: "save_answers \<Rightarrow> comps \<Rightarrow> string \<Rightarrow> save_op list \<times> io_error option" where
  "write_tmp A tmp body =
     (case sa_create A of Some e \<Rightarrow> ([], Some e)
      | None \<Rightarrow>
          (case sa_write A of Some (n, e) \<Rightarrow> ([Create tmp, Append tmp (take n body)], Some e)
           | None \<Rightarrow>
               (case sa_sync A of Some e \<Rightarrow> ([Create tmp, Append tmp body], Some e)
                | None \<Rightarrow> ([Create tmp, Append tmp body, SyncFile tmp], None))))"

definition tmp_extension :: "nat \<Rightarrow> nat \<Rightarrow> string" where
  "tmp_extension pid seq = ''toml.tmp.'' @ show_nat pid @ ''.'' @ show_nat seq"

definition save ::
  "unicode \<Rightarrow> save_answers \<Rightarrow> nat \<Rightarrow> nat \<Rightarrow> config \<Rightarrow> string \<Rightarrow> save_op list \<times> (config_error + unit)" where
  "save U A pid seq c path =
     (case validate U c of Inl e \<Rightarrow> ([], Inl e)
      | Inr _ \<Rightarrow>
     (let p = path_components path; dir = parent_or_dot p in
      case sa_mkdir A of Some e \<Rightarrow> ([MkDirs dir], Inl (CfWrite (show_comps dir) e))
      | None \<Rightarrow>
     (case sa_body A of
        Inl e \<Rightarrow> ([MkDirs dir], Inl (CfInvalid (''could not serialise config: '' @ e)))
      | Inr body \<Rightarrow>
     (let tmp = with_extension (tmp_extension pid seq) p in
      case write_tmp A tmp body of
        (ops, Some e) \<Rightarrow> (MkDirs dir # ops @ [Remove tmp], Inl (CfWrite (show_comps tmp) e))
      | (ops, None) \<Rightarrow>
     (case sa_rename A of
        Some e \<Rightarrow> (MkDirs dir # ops @ [Remove tmp], Inl (CfWrite path e))
      | None \<Rightarrow>
          (MkDirs dir # ops @ [Rename tmp p] @ (if sa_dir_opens A then [SyncDir dir] else []), Inr ()))))))"

section \<open>Lemmas on validation\<close>

definition mount_ok :: "unicode \<Rightarrow> mount \<Rightarrow> bool" where
  "mount_ok U m =
     (mt_name m \<noteq> [] \<and> mt_name m \<noteq> ''.'' \<and> mt_name m \<noteq> ''..'' \<and> list_all name_char (mt_name m)
      \<and> list_all (\<lambda>a. \<not> is_rc_flag a) (mt_extra_args m)
      \<and> CHR '':'' \<notin> set (mt_remote m) \<and> remote_ok U (mt_remote m) \<and> is_absolute (mt_point m)
      \<and> (\<forall>u. mt_umask m = Some u \<longrightarrow> (\<exists>b. umask_bits u = Some b \<and> b \<le> MAX_UMASK))
      \<and> (\<forall>v. mt_cache_max_size m = Some v \<longrightarrow> size_suffix_ok U v)
      \<and> (\<forall>v. mt_cache_max_age m = Some v \<longrightarrow> duration_ok U v))"

lemma option_filter_None_iff: "option_filter p x = None \<longleftrightarrow> (\<forall>a. x = Some a \<longrightarrow> \<not> p a)"
  by (cases x) auto

lemma validate_umask_iff:
  "validate_umask n umask = Inr () \<longleftrightarrow> (\<forall>u. umask = Some u \<longrightarrow> (\<exists>b. umask_bits u = Some b \<and> b \<le> MAX_UMASK))"
  by (auto simp: validate_umask_def split: option.splits if_splits)

lemma validate_mount_iff:
  "validate_mount U names points m = Inr () \<longleftrightarrow>
     mount_ok U m \<and> mt_name m \<notin> set names \<and> list_all (\<lambda>p. \<not> path_eq (mt_point m) p) points"
proof -
  have rc: "find is_rc_flag xs = None \<longleftrightarrow> list_all (\<lambda>a. \<not> is_rc_flag a) xs" for xs
    by (auto simp: find_None_iff list_all_iff)
  have points: "list_ex (path_eq (mt_point m)) points \<longleftrightarrow> \<not> list_all (\<lambda>p. \<not> path_eq (mt_point m) p) points"
    by (auto simp: list_ex_iff list_all_iff)
  have u: "(case validate_umask n um of Inl e \<Rightarrow> Inl e | Inr _ \<Rightarrow> X) = Inr () \<longleftrightarrow>
      (\<forall>u. um = Some u \<longrightarrow> (\<exists>b. umask_bits u = Some b \<and> b \<le> MAX_UMASK)) \<and> X = Inr ()"
    for n um and X :: "config_error + unit"
    unfolding validate_umask_iff [of n um, symmetric] by (cases "validate_umask n um") auto
  have o: "(case x of Some v \<Rightarrow> Inl (f v) | None \<Rightarrow> X) = Inr () \<longleftrightarrow> x = None \<and> X = Inr ()"
    for x :: "string option" and f :: "string \<Rightarrow> config_error" and X :: "config_error + unit"
    by (cases x) auto
  show ?thesis
    unfolding validate_mount_def Let_def mount_ok_def points
    by (auto simp only: o u rc option_filter_None_iff if_split not_not Inl_Inr_False Inr_Inl_False simp_thms
        split: if_split)
qed


text \<open>What a validated configuration is: its limits hold and no two mounts get in each other's way.\<close>

definition config_ok :: "unicode \<Rightarrow> config \<Rightarrow> bool" where
  "config_ok U c =
     ((\<forall>p. gc_rclone_path (cf_global c) = Some p \<longrightarrow> is_absolute p)
      \<and> (\<forall>s \<in> {active_secs (gc_poll (cf_global c)), idle_secs (gc_poll (cf_global c))}.
           0 < s \<and> s \<le> MAX_POLL_SECS)
      \<and> list_all (mount_ok U) (cf_mounts c)
      \<and> distinct (map mt_name (cf_mounts c))
      \<and> sorted_wrt (\<lambda>a b. \<not> path_eq (mt_point a) (mt_point b)) (cf_mounts c))"

lemma validate_mounts_iff:
  "validate_mounts U names points ms = Inr () \<longleftrightarrow>
     list_all (mount_ok U) ms \<and> distinct (map mt_name ms) \<and> set (map mt_name ms) \<inter> set names = {}
     \<and> sorted_wrt (\<lambda>a b. \<not> path_eq (mt_point a) (mt_point b)) ms
     \<and> (\<forall>m \<in> set ms. list_all (\<lambda>p. \<not> path_eq (mt_point m) p) points)"
proof (induction ms arbitrary: names points)
  case (Cons m ms)
  have step: "validate_mounts U names points (m # ms) = Inr () \<longleftrightarrow>
      validate_mount U names points m = Inr ()
        \<and> validate_mounts U (mt_name m # names) (mt_point m # points) ms = Inr ()"
    by (cases "validate_mount U names points m") auto
  have "path_eq (mt_point a) (mt_point m) \<longleftrightarrow> path_eq (mt_point m) (mt_point a)" for a
    using path_eq_sym by blast
  then show ?case
    unfolding step Cons.IH validate_mount_iff by auto
qed simp

lemma validate_poll_iff: "validate_poll f s = Inr () \<longleftrightarrow> 0 < s \<and> s \<le> MAX_POLL_SECS"
  by (auto simp: validate_poll_def word_gt_0)

lemma validate_iff: "validate U c = Inr () \<longleftrightarrow> config_ok U c"
proof -
  have e: "(case r of Inl e \<Rightarrow> Inl e | Inr _ \<Rightarrow> X) = Inr () \<longleftrightarrow> r = Inr () \<and> X = Inr ()"
    for r X :: "config_error + unit"
    by (cases r) auto
  have o: "(case x of Some v \<Rightarrow> Inl (f v) | None \<Rightarrow> X) = Inr () \<longleftrightarrow> x = None \<and> X = Inr ()"
    for x :: "string option" and f :: "string \<Rightarrow> config_error" and X :: "config_error + unit"
    by (cases x) auto
  show ?thesis
    unfolding validate_def Let_def e o option_filter_None_iff validate_poll_iff validate_mounts_iff config_ok_def
    by auto
qed

section \<open>Names of units\<close>

lemma chars_name: "list_all name_char n \<Longrightarrow> chars n = map (\<lambda>c. [c]) n"
proof (rule chars_ascii)
  assume "list_all name_char n"
  moreover have "\<not> is_cont c" if "name_char c" for c
  proof -
    have "(of_char c :: nat) < 128"
      using that by (auto simp: name_char_def is_ascii_alnum_def is_ascii_alpha_def is_ascii_digit_def
          less_eq_char_def)
    then show ?thesis by (simp add: is_cont_def)
  qed
  ultimately show "list_all (\<lambda>c. \<not> is_cont c) n" by (auto simp: list_all_iff)
qed

lemma unit_name_valid: "list_all name_char (mt_name m) \<Longrightarrow> unit_name m = UNIT_PREFIX @ mt_name m @ ''.service''"
  by (auto simp: unit_name_def chars_name slug_point_def name_char_def list_all_iff intro!: map_idI)

lemma unit_name_inj:
  "list_all name_char (mt_name a) \<Longrightarrow> list_all name_char (mt_name b) \<Longrightarrow> unit_name a = unit_name b
    \<Longrightarrow> mt_name a = mt_name b"
  by (simp add: unit_name_valid)

lemma config_ok_unit_names:
  assumes "config_ok U c"
  shows "distinct (map unit_name (cf_mounts c))"
proof -
  have "inj_on (\<lambda>n. UNIT_PREFIX @ n @ ''.service'') (set (map mt_name (cf_mounts c)))"
    by (simp add: inj_on_def)
  moreover have "map unit_name (cf_mounts c) = map (\<lambda>n. UNIT_PREFIX @ n @ ''.service'') (map mt_name (cf_mounts c))"
    using assms by (auto simp: config_ok_def mount_ok_def list_all_iff intro!: unit_name_valid)
  ultimately show ?thesis using assms by (simp add: config_ok_def distinct_map del: map_map)
qed

section \<open>Umasks\<close>

lemma digit_char_octal_not: "d < 8 \<Longrightarrow> digit_char d \<noteq> CHR ''o'' \<and> digit_char d \<noteq> CHR ''+'' \<and> digit_char d \<noteq> CHR ''-''"
  using of_char_octal_digit [of d] by auto

lemma hd_show_octal: "\<exists>d < 8. hd (show_base 8 n) = digit_char d"
  using hd_show_base [of 8 n] by simp

lemma trim_0o_id: "tl s = [] \<or> hd (tl s) \<noteq> CHR ''o'' \<Longrightarrow> trim_0o s = s"
  by (cases s rule: trim_0o.cases) auto

lemma umask_bits_zero_octal:
  assumes "n \<le> U128_MAX"
  shows "umask_bits (zero_octal n) = Some n"
proof -
  obtain d where d: "d < 8" "hd (show_base 8 n) = digit_char d" using hd_show_octal by blast
  have "trim_0o (zero_octal n) = zero_octal n"
    using d digit_char_octal_not [of d] by (intro trim_0o_id) (simp add: zero_octal_def)
  moreover have "from_str_radix 8 U128_MAX (zero_octal n) = Inr n"
    using parse_digits_show_base [of 8 n U128_MAX] assms
    by (simp add: zero_octal_def from_str_radix_def digit_value_def)
  ultimately show ?thesis by (simp add: umask_bits_def)
qed

lemma umask_readings_zero_octal: "n \<le> U128_MAX \<Longrightarrow> umask_readings (zero_octal n) = None"
  by (simp add: umask_readings_def umask_bits_zero_octal)
    (simp add: zero_octal_def strip_prefix_def starts_with_def Let_def)

section \<open>Properties\<close>

text \<open>
  C27: Validation accepts exactly the configurations in which every limit holds, every name is
  an identifier, no two mounts share a name or (up to spelling) a mount point, and no extra
  argument is an rc flag; in those no two mounts share a unit or an rc socket either, and each
  is found under its name.
\<close>

theorem validation_is_exact:
  "(validate U c = Inr () \<longleftrightarrow> config_ok U c)
    \<and> (validate U c = Inr () \<longrightarrow> distinct (map unit_name (cf_mounts c))
         \<and> distinct (map (\<lambda>m. socket_file_name (mt_name m)) (cf_mounts c))
         \<and> (\<forall>m \<in> set (cf_mounts c). config_mount c (mt_name m) = Some m))"
proof -
  have sockets: "distinct (map (\<lambda>m. socket_file_name (mt_name m)) (cf_mounts c))" if ok: "config_ok U c"
  proof -
    have "inj_on socket_file_name (set (map mt_name (cf_mounts c)))"
      using sock.enc_inj by (auto simp: inj_on_def)
    then have "distinct (map socket_file_name (map mt_name (cf_mounts c)))"
      using ok by (simp add: config_ok_def distinct_map del: map_map)
    then show ?thesis by (simp add: comp_def)
  qed
  have found: "config_mount c (mt_name m) = Some m" if ok: "config_ok U c" and m: "m \<in> set (cf_mounts c)" for m
  proof -
    have "find (\<lambda>x. mt_name x = mt_name m) ms = Some m" if "distinct (map mt_name ms)" "m \<in> set ms" for ms
      using that by (induction ms) (auto simp: rev_image_eqI)
    then show ?thesis using ok m by (simp add: config_ok_def config_mount_def)
  qed
  show ?thesis using validate_iff config_ok_unit_names sockets found by blast
qed

definition sample_mount :: mount where
  "sample_mount = \<lparr>mt_name = ''backup'', mt_remote = ''b2'', mt_path = ''photos'',
     mt_point = ''/mnt/backup'', mt_cache_mode = Writes, mt_cache_max_size = Some ''10G'',
     mt_cache_max_age = None, mt_auto_mount = True, mt_read_only = False, mt_allow_other = False,
     mt_uid = None, mt_gid = None, mt_umask = Some ''022'', mt_extra_args = [''--transfers'', ''8'']\<rparr>"

definition sample_config :: config where
  "sample_config = config_default\<lparr>cf_mounts := [sample_mount]\<rparr>"

definition no_unicode :: unicode where
  "no_unicode = \<lparr>un_alphabetic = (\<lambda>_. False), un_alphanumeric = (\<lambda>_. False)\<rparr>"

lemma sample_umask: "umask_bits ''022'' = Some 18"
  by (simp add: umask_bits_def from_str_radix_def U128_MAX_def digit_value_def)

lemma sample_size: "size_suffix_ok no_unicode ''10G''"
  by code_simp

lemma sample_remote: "remote_ok no_unicode ''b2''"
  by code_simp

lemma sample_mount_ok: "mount_ok no_unicode sample_mount"
  using sample_umask sample_size sample_remote
  by (simp add: mount_ok_def sample_mount_def is_absolute_def starts_with_def MAX_UMASK_def
      name_char_def is_ascii_alnum_def is_ascii_alpha_def less_eq_char_def is_rc_flag_def strip_prefix_def)

lemma sample_config_ok: "config_ok no_unicode sample_config"
  using sample_mount_ok
  by (simp add: config_ok_def sample_config_def config_default_def global_default_def
      poll_default_def MAX_POLL_SECS_def)

theorem validation_is_exact_witness:
  "validate no_unicode sample_config = Inr () \<and> config_mount sample_config (mt_name sample_mount) = Some sample_mount"
proof -
  have "sample_mount \<in> set (cf_mounts sample_config)" by (simp add: sample_config_def)
  then show ?thesis
    using validation_is_exact [of no_unicode sample_config] sample_config_ok by blast
qed

text \<open>How rclone reads the composed flags: those that take a value consume the next argument.\<close>

definition value_flags :: "string list" where
  "value_flags = [''--vfs-cache-mode'', ''--vfs-cache-max-size'', ''--vfs-cache-max-age'', ''--uid'',
     ''--gid'', ''--umask'', ''--rc-addr'']"

fun argv_flags :: "string list \<Rightarrow> string list" where
  "argv_flags [] = []"
| "argv_flags (a # rest) =
     (if a \<in> set value_flags then a # argv_flags (tl rest) else a # argv_flags rest)"

lemma argv_flags_subset: "set (argv_flags xs) \<subseteq> set xs"
proof (induction xs rule: argv_flags.induct)
  case (2 a rest)
  have "set (tl rest) \<subseteq> set rest" by (cases rest) auto
  with 2 show ?case by auto
qed simp

definition plain_value :: "string \<Rightarrow> bool" where
  "plain_value f = (f \<in> set value_flags \<and> \<not> is_rc_flag f)"

definition plain_switch :: "string \<Rightarrow> bool" where
  "plain_switch f = (f \<notin> set value_flags \<and> \<not> is_rc_flag f)"

lemma plain_flags:
  "plain_value ''--vfs-cache-mode''" "plain_value ''--vfs-cache-max-size''"
  "plain_value ''--vfs-cache-max-age''" "plain_value ''--uid''" "plain_value ''--gid''"
  "plain_value ''--umask''" "plain_switch ''--read-only''" "plain_switch ''--allow-other''"
  by code_simp+

lemma rc_flags:
  "''--rc'' \<notin> set value_flags" "is_rc_flag ''--rc''" "''--rc-addr'' \<in> set value_flags"
  "is_rc_flag ''--rc-addr''" "''--rc-no-auth'' \<notin> set value_flags" "is_rc_flag ''--rc-no-auth''"
  by code_simp+

abbreviation rc_of :: "string list \<Rightarrow> string list" where
  "rc_of args \<equiv> filter is_rc_flag (argv_flags args)"

lemma rc_of_value: "plain_value f \<Longrightarrow> rc_of (f # v # rest) = rc_of rest"
  by (simp add: plain_value_def)

lemma rc_of_option:
  "plain_value f \<Longrightarrow> rc_of ((case x of Some v \<Rightarrow> [f, g v] | None \<Rightarrow> []) @ rest) = rc_of rest"
  by (cases x) (simp_all add: plain_value_def)

lemma rc_of_switch: "plain_switch f \<Longrightarrow> rc_of ((if b then [f] else []) @ rest) = rc_of rest"
  by (simp add: plain_switch_def)

lemma rc_of_mount_args:
  "rc_of (drop 3 (mount_args m sock))
     = [''--rc'', ''--rc-addr'', ''--rc-no-auth''] @ rc_of (mt_extra_args m)"
proof -
  have "rc_of (drop 3 (mount_args m sock)) =
      rc_of ([''--rc'', ''--rc-addr'', ''unix://'' @ from_utf8_lossy sock, ''--rc-no-auth''] @ mt_extra_args m)"
    unfolding mount_args_def append_Cons append_Nil drop_Suc_Cons numeral_3_eq_3 drop_0
    by (simp only: rc_of_value plain_flags rc_of_switch
        rc_of_option [where g = "\<lambda>v. v"] rc_of_option [where g = "\<lambda>v. show_nat (unat v)"]
        rc_of_option [where g = canonical_umask])
  then show ?thesis by (simp only: append_Cons append_Nil) (simp add: rc_flags)
qed

text \<open>
  C29: A validated mount has one rc endpoint, the private socket: of all the flags of its argv,
  read with the value each composed flag takes, exactly the three composed ones concern rc,
  the address they give is the socket's, and neither positional argument can be read as a flag.
\<close>

theorem only_the_private_rc_endpoint:
  assumes "validate U c = Inr ()" "m \<in> set (cf_mounts c)"
  shows "filter is_rc_flag (argv_flags (drop 3 (mount_args m sock))) = [''--rc'', ''--rc-addr'', ''--rc-no-auth'']
    \<and> (\<exists>pre. mount_args m sock =
         pre @ [''--rc'', ''--rc-addr'', ''unix://'' @ from_utf8_lossy sock, ''--rc-no-auth''] @ mt_extra_args m)
    \<and> \<not> starts_with ''-'' (fs_spec m) \<and> is_absolute (mt_point m)"
proof -
  have ok: "mount_ok U m" using assms validate_iff by (auto simp: config_ok_def list_all_iff)
  then have "filter is_rc_flag (argv_flags (mt_extra_args m)) = []"
    using argv_flags_subset [of "mt_extra_args m"] by (auto simp: filter_empty_conv mount_ok_def list_all_iff)
  then have "rc_of (drop 3 (mount_args m sock)) = [''--rc'', ''--rc-addr'', ''--rc-no-auth'']"
    by (simp add: rc_of_mount_args)
  moreover have "\<not> starts_with ''-'' (fs_spec m)"
    using ok by (cases "mt_remote m") (auto simp: mount_ok_def remote_ok_def fs_spec_def starts_with_def)
  ultimately show ?thesis using ok by (auto simp: mount_args_def mount_ok_def)
qed

theorem only_the_private_rc_endpoint_witness:
  "filter is_rc_flag (argv_flags (drop 3 (mount_args sample_mount ''/run/backup.sock'')))
     = [''--rc'', ''--rc-addr'', ''--rc-no-auth'']"
  using only_the_private_rc_endpoint [of no_unicode sample_config sample_mount]
    sample_config_ok validate_iff by (simp add: sample_config_def)

text \<open>
  A umask that passes validation reaches rclone in one spelling every version reads alike:
  the same mask, no longer ambiguous, and left alone by a second pass. A spelling that does
  not pass is handed on untouched.
\<close>

theorem umask_is_respelled_safely:
  "(validate_umask n (Some u) = Inr () \<longrightarrow>
     umask_bits (canonical_umask u) = umask_bits u \<and> umask_readings (canonical_umask u) = None
       \<and> canonical_umask (canonical_umask u) = canonical_umask u)
   \<and> (validate_umask n (Some u) \<noteq> Inr () \<longrightarrow> canonical_umask u = u)"
proof -
  have le: "b \<le> U128_MAX" if "b \<le> MAX_UMASK" for b using that by (simp add: MAX_UMASK_def U128_MAX_def)
  show ?thesis
    by (auto simp: validate_umask_iff canonical_umask_def umask_bits_zero_octal umask_readings_zero_octal
        le split: option.splits)
qed

theorem umask_is_respelled_safely_witness:
  "umask_readings (canonical_umask ''022'') = None"
  using umask_is_respelled_safely [of n "''022''"] by (simp add: validate_umask_iff sample_umask MAX_UMASK_def)


section \<open>A save seen from outside\<close>

definition after :: "save_op list \<Rightarrow> (comps \<Rightarrow> string option) \<Rightarrow> comps \<Rightarrow> string option" where
  "after ops F = foldl (\<lambda>G op. apply_op op G) F ops"

lemma after_simps [simp]:
  "after [] F = F" "after (op # ops) F = after ops (apply_op op F)"
  by (simp_all add: after_def)

lemma after_append [simp]: "after (ops @ ops') F = after ops' (after ops F)"
  by (simp add: after_def)

lemma split_at_last_dot:
  "CHR ''.'' \<in> set name \<Longrightarrow>
    \<exists>ext. name = rev (drop 1 (dropWhile (\<lambda>c. c \<noteq> CHR ''.'') (rev name))) @ CHR ''.'' # ext
      \<and> CHR ''.'' \<notin> set ext"
proof -
  assume dot: "CHR ''.'' \<in> set name"
  define w where "w = takeWhile (\<lambda>c. c \<noteq> CHR ''.'') (rev name)"
  obtain d where d: "dropWhile (\<lambda>c. c \<noteq> CHR ''.'') (rev name) = CHR ''.'' # d"
  proof (cases "dropWhile (\<lambda>c. c \<noteq> CHR ''.'') (rev name)")
    case Nil
    then have "CHR ''.'' \<notin> set name" unfolding dropWhile_eq_Nil_conv by auto
    with dot show ?thesis by blast
  next
    case (Cons c t)
    then have "c = CHR ''.''" using hd_dropWhile [of "\<lambda>c. c \<noteq> CHR ''.''" "rev name"] by simp
    with Cons that show ?thesis by blast
  qed
  have "rev name = w @ CHR ''.'' # d" unfolding w_def d [symmetric] by simp
  from arg_cong [OF this, of rev] have "name = rev d @ CHR ''.'' # rev w" by simp
  moreover have "CHR ''.'' \<notin> set (rev w)" by (auto simp: w_def dest: set_takeWhileD)
  ultimately show ?thesis unfolding d by auto
qed

lemma file_stem_other: "CHR ''.'' \<in> set ext \<Longrightarrow> file_stem name @ ''.'' @ ext \<noteq> name"
proof
  assume dot: "CHR ''.'' \<in> set ext" and eq: "file_stem name @ ''.'' @ ext = name"
  then have "CHR ''.'' \<in> set name" by (metis Un_iff set_append)
  then obtain e where e: "name = rev (drop 1 (dropWhile (\<lambda>c. c \<noteq> CHR ''.'') (rev name))) @ CHR ''.'' # e"
      "CHR ''.'' \<notin> set e" using split_at_last_dot by blast
  show False
  proof (cases "rev (drop 1 (dropWhile (\<lambda>c. c \<noteq> CHR ''.'') (rev name))) = []")
    case True
    then have "file_stem name = name" by (simp add: file_stem_def Let_def)
    with eq show False by simp
  next
    case False
    then have "file_stem name = rev (drop 1 (dropWhile (\<lambda>c. c \<noteq> CHR ''.'') (rev name)))"
      by (simp add: file_stem_def Let_def)
    with eq e(1) have "CHR ''.'' # ext = CHR ''.'' # e" by (metis append_Cons append_Nil same_append_eq)
    with dot e(2) show False by simp
  qed
qed

lemma tmp_is_other: "has_file_name p \<Longrightarrow> with_extension (tmp_extension pid seq) p \<noteq> p"
proof
  assume name: "has_file_name p" and eq: "with_extension (tmp_extension pid seq) p = p"
  then have "butlast (snd p) @ [file_stem (last (snd p)) @ ''.'' @ tmp_extension pid seq] = snd p"
    by (auto simp: with_extension_def prod_eq_iff)
  then have "file_stem (last (snd p)) @ ''.'' @ tmp_extension pid seq = last (snd p)"
    by (metis last_snoc)
  then show False using file_stem_other [of "tmp_extension pid seq" "last (snd p)"]
    by (simp add: tmp_extension_def)
qed

text \<open>The operations that cannot change what the target holds.\<close>

fun spares :: "comps \<Rightarrow> save_op \<Rightarrow> bool" where
  "spares p (Create q) = (q \<noteq> p)"
| "spares p (Append q s) = (q \<noteq> p)"
| "spares p (Remove q) = (q \<noteq> p)"
| "spares p (Rename q r) = (q \<noteq> p \<and> r \<noteq> p)"
| "spares p (MkDirs q) = True"
| "spares p (SyncFile q) = True"
| "spares p (SyncDir q) = True"

lemma after_spares: "list_all (spares p) ops \<Longrightarrow> after ops F p = F p"
proof (induction ops arbitrary: F)
  case (Cons op ops)
  then have "apply_op op F p = F p" by (cases op) auto
  with Cons show ?case by simp
qed simp

lemma list_all_take: "list_all P xs \<Longrightarrow> list_all P (take k xs)"
  by (auto simp: list_all_iff dest: in_set_takeD)

lemma write_tmp_spares: "tmp \<noteq> p \<Longrightarrow> list_all (spares p) (fst (write_tmp A tmp body))"
  by (auto simp: write_tmp_def split: option.splits)

lemma write_tmp_done:
  "write_tmp A tmp body = (ops, None) \<Longrightarrow> ops = [Create tmp, Append tmp body, SyncFile tmp]"
  by (auto simp: write_tmp_def split: option.splits prod.splits)

text \<open>Every save either never touches the target or renames the finished body onto it last.\<close>

lemma save_shape:
  assumes "save U A pid seq c path = (ops, r)" "has_file_name (path_components path)"
  defines "p \<equiv> path_components path"
  defines "tmp \<equiv> with_extension (tmp_extension pid seq) p"
  shows "(r \<noteq> Inr () \<and> list_all (spares p) ops \<and> (list_all (spares tmp) ops \<or> last ops = Remove tmp))
    \<or> (r = Inr () \<and> config_ok U c \<and> (\<exists>body dir tail. sa_body A = Inr body \<and> list_all (spares tmp) tail
         \<and> list_all (spares p) tail
         \<and> ops = [MkDirs dir, Create tmp, Append tmp body, SyncFile tmp, Rename tmp p] @ tail))"
proof -
  have other: "tmp \<noteq> p" using tmp_is_other assms(2) unfolding tmp_def p_def by blast
  show ?thesis
  proof (cases "validate U c")
    case (Inl e)
    then show ?thesis using assms(1) by (auto simp: save_def)
  next
    case (Inr u)
    then have ok: "config_ok U c" using validate_iff by (cases u) auto
    obtain wops werr where w: "write_tmp A tmp (projr (sa_body A)) = (wops, werr)" by force
    then have spare: "list_all (spares p) wops" using write_tmp_spares [OF other, of A] by (metis fst_conv)
    note save = assms(1) [unfolded save_def Let_def p_def [symmetric] tmp_def [symmetric]]
    show ?thesis
    proof (cases "sa_mkdir A = None \<and> (\<exists>b. sa_body A = Inr b) \<and> werr = None \<and> sa_rename A = None")
      case True
      then obtain body where "sa_body A = Inr body" by blast
      with True w have "wops = [Create tmp, Append tmp body, SyncFile tmp]" using write_tmp_done by auto
      then show ?thesis using True save Inr w ok \<open>sa_body A = Inr body\<close>
        by (auto split: if_splits)
    next
      case False
      then show ?thesis using save Inr w spare other
        by (auto split: option.splits sum.splits)
    qed
  qed
qed

text \<open>
  C30: Saving never tears the configuration: stopped after any number of its operations, it
  leaves the file holding either what it held or the whole new text, which was validated and
  is on disk before it takes the name; when it fails the file is what it was, when it returns
  it is the new text, and either way no temporary file is left behind.
\<close>

theorem save_never_tears:
  assumes "save U A pid seq c path = (ops, r)" "has_file_name (path_components path)"
  defines "p \<equiv> path_components path"
  shows "(after (take k ops) F p = F p \<or> (\<exists>body. sa_body A = Inr body \<and> after (take k ops) F p = Some body))
    \<and> (r \<noteq> Inr () \<longrightarrow> after ops F p = F p)
    \<and> (r = Inr () \<longrightarrow> config_ok U c \<and> (\<exists>body. sa_body A = Inr body \<and> after ops F p = Some body))
    \<and> (F (with_extension (tmp_extension pid seq) p) = None \<longrightarrow>
         after ops F (with_extension (tmp_extension pid seq) p) = None)"
proof -
  define tmp where "tmp = with_extension (tmp_extension pid seq) p"
  have other: "tmp \<noteq> p" using tmp_is_other assms(2) unfolding tmp_def p_def by blast
  note shape = save_shape [OF assms(1,2), folded p_def, folded tmp_def]
  show ?thesis
  proof (cases "r = Inr ()")
    case False
    with shape have s: "list_all (spares p) ops" "list_all (spares tmp) ops \<or> last ops = Remove tmp" by auto
    have "after ops F tmp = None" if "F tmp = None"
    proof (cases "ops = [] \<or> list_all (spares tmp) ops")
      case True
      then show ?thesis using that after_spares [of tmp ops F] by auto
    next
      case False
      then have "ops = butlast ops @ [Remove tmp]" using s(2) by (metis append_butlast_last_id)
      then show ?thesis by (metis after_append after_simps apply_op.simps(3) fun_upd_same)
    qed
    with False s(1) show ?thesis unfolding tmp_def [symmetric]
      by (simp add: after_spares list_all_take)
  next
    case True
    with shape obtain body dir tail where s: "config_ok U c" "sa_body A = Inr body"
        "list_all (spares tmp) tail" "list_all (spares p) tail"
        "ops = [MkDirs dir, Create tmp, Append tmp body, SyncFile tmp, Rename tmp p] @ tail" by auto
    have "after ops F p = Some body" "after ops F tmp = None"
      using s(3-5) other by (simp_all add: after_spares)
    moreover have "after (take k ops) F p = F p \<or> after (take k ops) F p = Some body"
    proof (cases "k < 5")
      case True
      then have "k \<in> {0, 1, 2, 3, 4}" by auto
      then show ?thesis using other by (auto simp: s(5))
    next
      case False
      then have "take k ops = [MkDirs dir, Create tmp, Append tmp body, SyncFile tmp, Rename tmp p]
          @ take (k - 5) tail" by (simp add: s(5) take_Cons' numeral_eq_Suc)
      then show ?thesis using s(4) other by (simp add: after_spares list_all_take)
    qed
    ultimately show ?thesis using True s(1,2) unfolding tmp_def [symmetric] by blast
  qed
qed

definition good_save :: save_answers where
  "good_save = \<lparr>sa_mkdir = None, sa_body = Inr ''version = 1'', sa_create = None, sa_write = None,
     sa_sync = None, sa_rename = None, sa_dir_opens = True\<rparr>"

theorem save_never_tears_witness:
  "after (fst (save no_unicode good_save 7 0 sample_config ''/c/config.toml'')) (\<lambda>_. None)
     (path_components ''/c/config.toml'') = Some ''version = 1''"
proof -
  define res where "res = save no_unicode good_save 7 0 sample_config ''/c/config.toml''"
  have pc: "path_components ''/c/config.toml'' = (True, [''c'', ''config.toml''])"
    by (simp add: path_components_def starts_with_def)
  have "snd res = Inr ()"
    using sample_config_ok validate_iff [THEN iffD2, OF sample_config_ok]
    by (simp add: res_def save_def good_save_def write_tmp_def pc Let_def)
  then have eq: "save no_unicode good_save 7 0 sample_config ''/c/config.toml'' = (fst res, Inr ())"
    unfolding res_def by (metis prod.collapse)
  have "has_file_name (path_components ''/c/config.toml'')" by (simp add: pc has_file_name_def)
  from save_never_tears [OF eq this, of 0 "\<lambda>_. None"]
  have "\<exists>body. sa_body good_save = Inr body
      \<and> after (fst res) (\<lambda>_. None) (path_components ''/c/config.toml'') = Some body" by blast
  then show ?thesis by (simp add: res_def good_save_def)
qed

end
