(* ===== verification/Host.thy ===== *)
theory Host
  imports Config
begin

text \<open>
  How the mount service meets the rest of the machine. A program is a function of the host and
  the state of the run, and every question it asks (of systemd over D-Bus, of the kernel's mount
  table, of the file system, of a helper program, of the clock) is an event of the run together
  with the answer. The host answers from the events so far, so it may change its mind between
  any two questions, which covers every other process acting meanwhile.
\<close>

section \<open>What systemd is told and what it tells\<close>

datatype unit_status = UActive | UActivating | UDeactivating | UFailed | UInactive

definition unit_status_default :: unit_status where "unit_status_default = UInactive"

fun is_serving :: "unit_status \<Rightarrow> bool" where
  "is_serving UActive = True"
| "is_serving UDeactivating = True"
| "is_serving UActivating = False"
| "is_serving UFailed = False"
| "is_serving UInactive = False"

record unit_spec =
  us_name :: string
  us_description :: string
  us_executable :: string
  us_args :: "string list"
  us_pre_start :: "(string \<times> string list) option"
  us_umask :: "32 word"

record serving_info =
  sv_fs_spec :: string
  sv_point :: string

record loaded_unit =
  lu_name :: string
  lu_status :: unit_status
  lu_serving :: "serving_info option"

text \<open>
  A failure of a bus call: a method error with its name, message and text, or another failure.
\<close>

datatype bus_error = BusMethod string "string option" string | BusFault string

fun bus_text :: "bus_error \<Rightarrow> string" where
  "bus_text (BusMethod _ _ t) = t"
| "bus_text (BusFault t) = t"

text \<open>The D-Bus values of a unit's properties; an exec entry is binary, argv, ignore-errors.\<close>

datatype bus_value = PStr string | PU32 "32 word" | PU64 u64 | PExec "(string \<times> string list \<times> bool) list"

text \<open>A listed unit as far as the code reads it: name, active state, object path.\<close>

record unit_row =
  ur_name :: string
  ur_active :: string
  ur_path :: string

text \<open>A journal entry as the JSON reader gives it.\<close>

datatype journal_message = JString string | JBytes "nat option list" | JOther

record journal_entry =
  je_message :: "journal_message option"
  je_comm :: "string option"

section \<open>Events\<close>

datatype run_result = RunErr io_error | Exited bool string

datatype probe = NoAnswer | StatOk | StatErr "int option"

datatype event =
    EvManager "bus_error option"
  | EvStartUnit string "(string \<times> bus_value) list" "bus_error option"
  | EvStopUnit string "bus_error option"
  | EvResetFailed string "bus_error option"
  | EvGetUnit string "bus_error + string"
  | EvUnitPath string "bus_error option"
  | EvUnitOpen string "bus_error option"
  | EvActiveState string "bus_error + string"
  | EvListUnits string "bus_error + unit_row list"
  | EvServiceOpen string "bus_error option"
  | EvExecStart string "bus_error + (string \<times> string list) list"
  | EvJournal string "string option"
  | EvMountinfo "io_error + string"
  | EvCanonicalize string "string option"
  | EvProbe string probe
  | EvRun string "string list" run_result
  | EvMetadata string "io_error + bool"
  | EvMkdirs string "io_error option"
  | EvChmod string nat "io_error option"
  | EvExists string bool
  | EvRemove string
  | EvCurrentExe "io_error + string"
  | EvIsFile string bool
  | EvLockWait string bool
  | EvQueued string bool
  | EvRequestName string bool
  | EvSleep

type_synonym log = "event list"

record host =
  h_manager :: "log \<Rightarrow> bus_error option"
  h_start :: "log \<Rightarrow> string \<Rightarrow> (string \<times> bus_value) list \<Rightarrow> bus_error option"
  h_stop :: "log \<Rightarrow> string \<Rightarrow> bus_error option"
  h_reset :: "log \<Rightarrow> string \<Rightarrow> bus_error option"
  h_get_unit :: "log \<Rightarrow> string \<Rightarrow> bus_error + string"
  h_unit_path :: "log \<Rightarrow> string \<Rightarrow> bus_error option"
  h_unit_open :: "log \<Rightarrow> string \<Rightarrow> bus_error option"
  h_active_state :: "log \<Rightarrow> string \<Rightarrow> bus_error + string"
  h_list_units :: "log \<Rightarrow> string \<Rightarrow> bus_error + unit_row list"
  h_service_open :: "log \<Rightarrow> string \<Rightarrow> bus_error option"
  h_exec_start :: "log \<Rightarrow> string \<Rightarrow> bus_error + (string \<times> string list) list"
  h_journal :: "log \<Rightarrow> string \<Rightarrow> string option"
  h_json :: "string \<Rightarrow> journal_entry option"
  h_mountinfo :: "log \<Rightarrow> io_error + string"
  h_canonicalize :: "log \<Rightarrow> string \<Rightarrow> string option"
  h_probe :: "log \<Rightarrow> string \<Rightarrow> probe"
  h_run :: "log \<Rightarrow> string \<Rightarrow> string list \<Rightarrow> run_result"
  h_metadata :: "log \<Rightarrow> string \<Rightarrow> io_error + bool"
  h_mkdirs :: "log \<Rightarrow> string \<Rightarrow> io_error option"
  h_chmod :: "log \<Rightarrow> string \<Rightarrow> nat \<Rightarrow> io_error option"
  h_exists :: "log \<Rightarrow> string \<Rightarrow> bool"
  h_current_exe :: "log \<Rightarrow> io_error + string"
  h_is_file :: "log \<Rightarrow> string \<Rightarrow> bool"
  h_lock_free :: "log \<Rightarrow> string \<Rightarrow> bool"
  h_queued :: "log \<Rightarrow> string \<Rightarrow> bool"
  h_delay :: "log \<Rightarrow> nat"

text \<open>The state of a run: its events, newest first, the clock in milliseconds, the lock table.\<close>

record sys =
  sy_log :: log
  sy_clock :: nat
  sy_locks :: "string list"

section \<open>Programs\<close>

text \<open>A program may fail with a supervisor error, which ends what follows it.\<close>

type_synonym 'a prog = "host \<Rightarrow> sys \<Rightarrow> (supervisor_error + 'a) \<times> sys"

definition ret :: "'a \<Rightarrow> 'a prog" where
  "ret a = (\<lambda>H s. (Inr a, s))"

definition fail :: "supervisor_error \<Rightarrow> 'a prog" where
  "fail e = (\<lambda>H s. (Inl e, s))"

definition andthen :: "'a prog \<Rightarrow> ('a \<Rightarrow> 'b prog) \<Rightarrow> 'b prog" where
  "andthen m f = (\<lambda>H s. case m H s of (Inl e, t) \<Rightarrow> (Inl e, t) | (Inr a, t) \<Rightarrow> f a H t)"

text \<open>The outcome of a program as a value, so that what follows may look at the error.\<close>

definition attempt :: "'a prog \<Rightarrow> (supervisor_error + 'a) prog" where
  "attempt m = (\<lambda>H s. case m H s of (r, t) \<Rightarrow> (Inr r, t))"

text \<open>A question: the answer depends on the events so far, and asking takes time.\<close>

definition ask :: "(host \<Rightarrow> log \<Rightarrow> 'a) \<Rightarrow> ('a \<Rightarrow> event) \<Rightarrow> 'a prog" where
  "ask q ev = (\<lambda>H s. let a = q H (sy_log s) in
     (Inr a, s\<lparr>sy_log := ev a # sy_log s, sy_clock := sy_clock s + h_delay H (sy_log s)\<rparr>))"

definition pause :: "nat \<Rightarrow> unit prog" where
  "pause ms = (\<lambda>H s. (Inr (), s\<lparr>sy_log := EvSleep # sy_log s,
     sy_clock := sy_clock s + ms + h_delay H (sy_log s)\<rparr>))"

definition clock_now :: "nat prog" where
  "clock_now = (\<lambda>H s. (Inr (sy_clock s), s))"

definition host_json :: "(string \<Rightarrow> journal_entry option) prog" where
  "host_json = (\<lambda>H s. (Inr (h_json H), s))"

primrec each :: "('a \<Rightarrow> 'b prog) \<Rightarrow> 'a list \<Rightarrow> 'b list prog" where
  "each f [] = ret []"
| "each f (x # xs) = andthen (f x) (\<lambda>y. andthen (each f xs) (\<lambda>ys. ret (y # ys)))"

text \<open>
  The waiting loop: take a step; when it settles nothing, give up at the deadline, otherwise
  sleep and go on. The clock is monotonic, as \<^verbatim>\<open>Instant\<close> is.
\<close>

function poll_until :: "'a option prog \<Rightarrow> nat \<Rightarrow> nat \<Rightarrow> 'a prog \<Rightarrow> 'a prog" where
  "poll_until step interval deadline late H s =
     (case step H s of
        (Inl e, t) \<Rightarrow> (Inl e, t)
      | (Inr (Some a), t) \<Rightarrow> (Inr a, t)
      | (Inr None, t) \<Rightarrow>
          (let now = max (sy_clock s) (sy_clock t) in
           if deadline \<le> now \<or> interval = 0 then late H t
           else poll_until step interval deadline late H
                  (snd (pause interval H (t\<lparr>sy_clock := now\<rparr>)))))"
  by pat_completeness auto
termination
  by (relation "measure (\<lambda>(step, interval, deadline, late, H, s). deadline - sy_clock s)")
    (auto simp: pause_def max_def)

declare poll_until.simps [simp del]

section \<open>Reasoning about runs\<close>

text \<open>
  \<open>behaves P K m\<close>: whatever the host answers, a run of \<open>m\<close> only adds events that satisfy \<open>P\<close>
  and only fails with errors that satisfy \<open>K\<close>.
\<close>

definition behaves :: "(event \<Rightarrow> bool) \<Rightarrow> (supervisor_error \<Rightarrow> bool) \<Rightarrow> 'a prog \<Rightarrow> bool" where
  "behaves P K m =
     (\<forall>H s. (\<exists>new. sy_log (snd (m H s)) = new @ sy_log s \<and> list_all P new)
        \<and> (\<forall>e. fst (m H s) = Inl e \<longrightarrow> K e))"

named_theorems behave \<open>rules for the events and errors of programs\<close>

abbreviation any_error :: "supervisor_error \<Rightarrow> bool" where "any_error \<equiv> \<lambda>_. True"
abbreviation any_event :: "event \<Rightarrow> bool" where "any_event \<equiv> \<lambda>_. True"

lemma behaves_ret [behave, intro!]: "behaves P K (ret a)"
  by (simp add: behaves_def ret_def)

lemma behaves_fail [behave, intro]: "K e \<Longrightarrow> behaves P K (fail e)"
  by (simp add: behaves_def fail_def)

lemma behaves_andthen [behave, intro]:
  assumes "behaves P K m" "\<And>a. behaves P K (f a)"
  shows "behaves P K (andthen m f)"
  unfolding behaves_def
proof (intro allI)
  fix H s
  obtain r t where m: "m H s = (r, t)" by force
  from assms(1) obtain new where new: "sy_log t = new @ sy_log s" "list_all P new" "\<forall>e. r = Inl e \<longrightarrow> K e"
    unfolding behaves_def using m by (metis fst_conv snd_conv)
  show "(\<exists>new. sy_log (snd (andthen m f H s)) = new @ sy_log s \<and> list_all P new)
      \<and> (\<forall>e. fst (andthen m f H s) = Inl e \<longrightarrow> K e)"
  proof (cases r)
    case (Inl e)
    then show ?thesis using new m by (auto simp: andthen_def)
  next
    case (Inr a)
    from assms(2) obtain new' where "sy_log (snd (f a H t)) = new' @ sy_log t" "list_all P new'"
        "\<forall>e. fst (f a H t) = Inl e \<longrightarrow> K e"
      unfolding behaves_def by blast
    then show ?thesis using new m Inr
      by (auto simp: andthen_def intro!: exI [of _ "new' @ new"])
  qed
qed

lemma behaves_attempt [behave]: "behaves P any_error m \<Longrightarrow> behaves P K (attempt m)"
  by (simp add: behaves_def attempt_def split_def)

lemma behaves_ask [behave, intro]: "(\<And>a. P (ev a)) \<Longrightarrow> behaves P K (ask q ev)"
  by (auto simp: behaves_def ask_def Let_def)

lemma behaves_pause [behave]: "P EvSleep \<Longrightarrow> behaves P K (pause n)"
  by (simp add: behaves_def pause_def)

lemma behaves_clock [behave, intro!]: "behaves P K clock_now"
  by (simp add: behaves_def clock_now_def)

lemma behaves_json [behave, intro!]: "behaves P K host_json"
  by (simp add: behaves_def host_json_def)

lemma behaves_each [behave]: "(\<And>x. x \<in> set xs \<Longrightarrow> behaves P K (f x)) \<Longrightarrow> behaves P K (each f xs)"
  by (induction xs) (auto intro!: behaves_andthen)

lemma behaves_if [behave]:
  "(b \<Longrightarrow> behaves P K m) \<Longrightarrow> (\<not> b \<Longrightarrow> behaves P K n) \<Longrightarrow> behaves P K (if b then m else n)"
  by simp

lemma behaves_option [behave]:
  "behaves P K m \<Longrightarrow> (\<And>a. x = Some a \<Longrightarrow> behaves P K (f a))
    \<Longrightarrow> behaves P K (case x of None \<Rightarrow> m | Some a \<Rightarrow> f a)"
  by (cases x) auto

lemma behaves_sum [behave]:
  "(\<And>a. x = Inl a \<Longrightarrow> behaves P K (f a)) \<Longrightarrow> (\<And>a. x = Inr a \<Longrightarrow> behaves P K (g a))
    \<Longrightarrow> behaves P K (case x of Inl a \<Rightarrow> f a | Inr a \<Rightarrow> g a)"
  by (cases x) auto

lemma behaves_poll [behave]:
  assumes "behaves P K step" "behaves P K late" "P EvSleep"
  shows "behaves P K (poll_until step interval deadline late)"
proof -
  have "(\<exists>new. sy_log (snd (poll_until step interval deadline late H s)) = new @ sy_log s \<and> list_all P new)
      \<and> (\<forall>e. fst (poll_until step interval deadline late H s) = Inl e \<longrightarrow> K e)" for H s
    using assms
  proof (induction step interval deadline late H s rule: poll_until.induct)
    case (1 step interval deadline late H s)
    obtain r t where m: "step H s = (r, t)" by force
    from 1(2) obtain new where new: "sy_log t = new @ sy_log s" "list_all P new" "\<forall>e. r = Inl e \<longrightarrow> K e"
      unfolding behaves_def using m by (metis fst_conv snd_conv)
    consider e where "r = Inl e" | a where "r = Inr (Some a)" | "r = Inr None"
      by (cases r) (auto simp: not_None_eq [symmetric])
    then show ?case
    proof cases
      case 1
      then show ?thesis using m new by (subst (1 2) poll_until.simps) simp
    next
      case 2
      then show ?thesis using m new by (subst (1 2) poll_until.simps) simp
    next
      case 3
      define now where "now = max (sy_clock s) (sy_clock t)"
      show ?thesis
      proof (cases "deadline \<le> now \<or> interval = 0")
        case True
        from 1(3) obtain new' where "sy_log (snd (late H t)) = new' @ sy_log t" "list_all P new'"
            "\<forall>e. fst (late H t) = Inl e \<longrightarrow> K e"
          unfolding behaves_def by blast
        then show ?thesis using m new 3 True
          by (subst (1 2) poll_until.simps) (auto simp: now_def [symmetric] intro!: exI [of _ "new' @ new"])
      next
        case False
        define u where "u = snd (pause interval H (t\<lparr>sy_clock := now\<rparr>))"
        have u: "sy_log u = EvSleep # sy_log t" by (simp add: u_def pause_def)
        have "(\<exists>new. sy_log (snd (poll_until step interval deadline late H u)) = new @ sy_log u \<and> list_all P new)
            \<and> (\<forall>e. fst (poll_until step interval deadline late H u) = Inl e \<longrightarrow> K e)"
          using "1.IH" [OF m [symmetric]] 3 False 1(2-4) unfolding u_def now_def by simp
        then obtain new' where "sy_log (snd (poll_until step interval deadline late H u)) = new' @ sy_log u"
            "list_all P new'" "\<forall>e. fst (poll_until step interval deadline late H u) = Inl e \<longrightarrow> K e" by blast
        then show ?thesis using m new 3 False u 1(4)
          by (subst (1 2) poll_until.simps)
            (auto simp: now_def [symmetric] u_def [symmetric] intro!: exI [of _ "new' @ EvSleep # new"])
      qed
    qed
  qed
  then show ?thesis unfolding behaves_def by blast
qed

lemma behaves_weaken:
  "behaves P K m \<Longrightarrow> (\<And>e. P e \<Longrightarrow> P' e) \<Longrightarrow> (\<And>e. K e \<Longrightarrow> K' e) \<Longrightarrow> behaves P' K' m"
  unfolding behaves_def by (metis (mono_tags, lifting) list_all_iff)

text \<open>
  \<open>triple A m Q\<close>: from a state with \<open>A\<close> a run of \<open>m\<close> ends in an outcome and a state with \<open>Q\<close>.
  The assertions speak of the events since a fixed beginning, newest first.
\<close>

definition triple :: "(sys \<Rightarrow> bool) \<Rightarrow> 'a prog \<Rightarrow> (supervisor_error + 'a \<Rightarrow> sys \<Rightarrow> bool) \<Rightarrow> bool" where
  "triple A m Q = (\<forall>H s. A s \<longrightarrow> Q (fst (m H s)) (snd (m H s)))"

definition ok_then :: "('a \<Rightarrow> sys \<Rightarrow> bool) \<Rightarrow> (supervisor_error \<Rightarrow> sys \<Rightarrow> bool) \<Rightarrow> supervisor_error + 'a \<Rightarrow> sys \<Rightarrow> bool" where
  "ok_then Q E r s = (case r of Inl e \<Rightarrow> E e s | Inr a \<Rightarrow> Q a s)"

lemma ok_then_simps [simp]: "ok_then Q E (Inl e) s = E e s" "ok_then Q E (Inr a) s = Q a s"
  by (simp_all add: ok_then_def)

lemma triple_ret: "(\<And>s. A s \<Longrightarrow> Q a s) \<Longrightarrow> triple A (ret a) (ok_then Q E)"
  by (simp add: triple_def ret_def)

lemma triple_fail: "(\<And>s. A s \<Longrightarrow> E e s) \<Longrightarrow> triple A (fail e) (ok_then Q E)"
  by (simp add: triple_def fail_def)

lemma triple_andthen:
  assumes "triple A m (ok_then R E)" "\<And>a. triple (R a) (f a) (ok_then Q E)"
  shows "triple A (andthen m f) (ok_then Q E)"
  unfolding triple_def
proof (intro allI impI)
  fix H s assume "A s"
  obtain r t where m: "m H s = (r, t)" by force
  with assms(1) \<open>A s\<close> have "ok_then R E r t" unfolding triple_def by (metis fst_conv snd_conv)
  then show "ok_then Q E (fst (andthen m f H s)) (snd (andthen m f H s))"
    using m assms(2) by (cases r) (auto simp: andthen_def triple_def)
qed

lemma triple_attempt:
  "triple A m (ok_then (\<lambda>a. Q (Inr a)) (\<lambda>e. Q (Inl e))) \<Longrightarrow> triple A (attempt m) (ok_then Q E)"
  unfolding triple_def attempt_def ok_then_def by (simp add: split_def split: sum.splits) (metis sum.exhaust)

lemma triple_weaken:
  "triple A' m (ok_then Q' E') \<Longrightarrow> (\<And>s. A s \<Longrightarrow> A' s) \<Longrightarrow> (\<And>a s. Q' a s \<Longrightarrow> Q a s)
    \<Longrightarrow> (\<And>e s. E' e s \<Longrightarrow> E e s) \<Longrightarrow> triple A m (ok_then Q E)"
  by (auto simp: triple_def ok_then_def split: sum.splits)

lemma triple_if:
  "(b \<Longrightarrow> triple A m Q) \<Longrightarrow> (\<not> b \<Longrightarrow> triple A n Q) \<Longrightarrow> triple A (if b then m else n) Q"
  by simp

lemma triple_ask:
  "(\<And>s a t. A s \<Longrightarrow> sy_log t = ev a # sy_log s \<Longrightarrow> Q a t) \<Longrightarrow> triple A (ask q ev) (ok_then Q E)"
  by (simp add: triple_def ask_def Let_def)

lemma triple_poll:
  assumes step: "triple I step (ok_then (\<lambda>r s. case r of None \<Rightarrow> I s | Some a \<Rightarrow> Q a s) E)"
    and late: "triple I late (ok_then Q E)"
    and sleep: "\<And>s t. I s \<Longrightarrow> sy_log t = EvSleep # sy_log s \<Longrightarrow> I t"
    and clock: "\<And>s t. I s \<Longrightarrow> sy_log t = sy_log s \<Longrightarrow> I t"
  shows "triple I (poll_until step interval deadline late) (ok_then Q E)"
proof -
  have "ok_then Q E (fst (poll_until step interval deadline late H s))
      (snd (poll_until step interval deadline late H s))" if "I s" for H s
    using step late that
  proof (induction step interval deadline late H s rule: poll_until.induct)
    case (1 step interval deadline late H s)
    obtain r t where m: "step H s = (r, t)" by force
    with 1(2,4) have r: "ok_then (\<lambda>r s. case r of None \<Rightarrow> I s | Some a \<Rightarrow> Q a s) E r t"
      unfolding triple_def by (metis fst_conv snd_conv)
    consider e where "r = Inl e" | a where "r = Inr (Some a)" | "r = Inr None"
      by (cases r) (auto simp: not_None_eq [symmetric])
    then show ?case
    proof cases
      case 1
      then show ?thesis using m r by (subst (1 2) poll_until.simps) simp
    next
      case 2
      then show ?thesis using m r by (subst (1 2) poll_until.simps) simp
    next
      case 3
      define now where "now = max (sy_clock s) (sy_clock t)"
      define u where "u = snd (pause interval H (t\<lparr>sy_clock := now\<rparr>))"
      have "I t" using r 3 by simp
      moreover have "sy_log u = EvSleep # sy_log t" by (simp add: u_def pause_def)
      ultimately have "I u" using sleep by blast
      show ?thesis
      proof (cases "deadline \<le> now \<or> interval = 0")
        case True
        then show ?thesis using m 3 1(3) \<open>I t\<close>
          by (subst (1 2) poll_until.simps) (simp add: now_def [symmetric] triple_def)
      next
        case False
        then show ?thesis
          using "1.IH" [OF m [symmetric]] m 3 1(2,3) \<open>I u\<close>
          by (subst (1 2) poll_until.simps) (simp add: now_def [symmetric] u_def [symmetric])
      qed
    qed
  qed
  then show ?thesis unfolding triple_def by blast
qed

text \<open>What a program that only adds harmless events keeps.\<close>

lemma triple_keeps:
  assumes "behaves P K m"
    and "\<And>s t new. A s \<Longrightarrow> sy_log t = new @ sy_log s \<Longrightarrow> list_all P new \<Longrightarrow> B t"
  shows "triple A m (ok_then (\<lambda>_. B) (\<lambda>e s. K e \<and> B s))"
  unfolding triple_def
proof (intro allI impI)
  fix H s assume "A s"
  obtain new where "sy_log (snd (m H s)) = new @ sy_log s" "list_all P new"
    using assms(1) unfolding behaves_def by blast
  then have "B (snd (m H s))" using assms(2) \<open>A s\<close> by blast
  then show "ok_then (\<lambda>_. B) (\<lambda>e s. K e \<and> B s) (fst (m H s)) (snd (m H s))"
    using assms(1) unfolding behaves_def ok_then_def by (auto split: sum.splits)
qed

text \<open>
  \<open>since l0 A s\<close>: the events after \<open>l0\<close> satisfy \<open>A\<close>. \<open>guarded P Q\<close>: every event with \<open>P\<close> comes
  after events with \<open>Q\<close>.
\<close>

definition since :: "log \<Rightarrow> (log \<Rightarrow> bool) \<Rightarrow> sys \<Rightarrow> bool" where
  "since l0 A s = (\<exists>new. sy_log s = new @ l0 \<and> A new)"

fun guarded :: "(event \<Rightarrow> bool) \<Rightarrow> (log \<Rightarrow> bool) \<Rightarrow> log \<Rightarrow> bool" where
  "guarded P Q [] = True"
| "guarded P Q (e # l) = ((P e \<longrightarrow> Q l) \<and> guarded P Q l)"

lemma guarded_append_clean: "list_all (\<lambda>e. \<not> P e) new \<Longrightarrow> guarded P Q (new @ l) = guarded P Q l"
  by (induction new) auto

lemma guarded_append:
  "guarded P Q l \<Longrightarrow> Q l \<Longrightarrow> (\<And>e l. Q l \<Longrightarrow> Q (e # l)) \<Longrightarrow> guarded P Q (new @ l)"
proof (induction new)
  case (Cons e new)
  have "Q (new @ l)" using Cons.prems by (induction new) auto
  with Cons show ?case by simp
qed simp

lemma guardedD: "guarded P Q (later @ e # earlier) \<Longrightarrow> P e \<Longrightarrow> Q earlier"
  by (induction later) auto

lemma since_self: "since (sy_log s) A s \<longleftrightarrow> A []"
  by (simp add: since_def)

lemma since_grow: "since l0 A s \<Longrightarrow> sy_log t = new @ sy_log s \<Longrightarrow> (\<And>l. A l \<Longrightarrow> B (new @ l)) \<Longrightarrow> since l0 B t"
  by (auto simp: since_def)

end
