(* ===== verification/Systemd.thy ===== *)
theory Systemd
  imports Host
begin

text \<open>
  Units of the systemd user instance (crates/service/src/systemd.rs): what is asked of it to
  start, stop, list and question a unit, how its answers and refusals are read, and what a
  unit's journal is quoted as saying.
\<close>

section \<open>Reading systemd\<close>

definition unit_status_of :: "string \<Rightarrow> unit_status" where
  "unit_status_of active_state =
     (if active_state = ''active'' \<or> active_state = ''reloading'' then UActive
      else if active_state = ''activating'' then UActivating
      else if active_state = ''deactivating'' then UDeactivating
      else if active_state = ''failed'' then UFailed
      else UInactive)"

definition supervision :: "string \<Rightarrow> bus_error \<Rightarrow> supervisor_error" where
  "supervision context e = Supervision context (Some (bus_text e))"

definition no_such_unit :: "bus_error \<Rightarrow> bool" where
  "no_such_unit e = (case e of BusMethod name _ _ \<Rightarrow> ends_with ''.NoSuchUnit'' name | BusFault _ \<Rightarrow> False)"

definition says_not_loaded :: "bus_error \<Rightarrow> bool" where
  "says_not_loaded e =
     (case e of BusMethod _ msg _ \<Rightarrow> is_some_and msg (contains_str ''not loaded'') | BusFault _ \<Rightarrow> False)"

definition or_fail :: "string \<Rightarrow> bus_error + 'a \<Rightarrow> 'a prog" where
  "or_fail context r = (case r of Inl e \<Rightarrow> fail (supervision context e) | Inr a \<Rightarrow> ret a)"

definition ok_or_fail :: "string \<Rightarrow> bus_error option \<Rightarrow> unit prog" where
  "ok_or_fail context r = (case r of Some e \<Rightarrow> fail (supervision context e) | None \<Rightarrow> ret ())"

definition manager :: "unit prog" where
  "manager =
     andthen (ask h_manager EvManager) (ok_or_fail ''opening the systemd manager interface'')"

section \<open>Starting and stopping\<close>

definition unit_properties :: "unit_spec \<Rightarrow> (string \<times> bus_value) list" where
  "unit_properties spec =
     (let exec = from_utf8_lossy (us_executable spec) in
      [(''Description'', PStr (us_description spec)),
       (''ExecStart'', PExec [(exec, exec # us_args spec, False)]),
       (''Type'', PStr ''exec''),
       (''UMask'', PU32 (us_umask spec)),
       (''Restart'', PStr ''on-failure''),
       (''StartLimitIntervalUSec'', PU64 60000000),
       (''StartLimitBurst'', PU32 3),
       (''RestartUSec'', PU64 5000000),
       (''KillMode'', PStr ''mixed''),
       (''TimeoutStopUSec'', PU64 30000000)]
      @ (case us_pre_start spec of
           Some (bin, args) \<Rightarrow>
             (let exe = from_utf8_lossy bin in [(''ExecStartPre'', PExec [(exe, exe # args, True)])])
         | None \<Rightarrow> []))"

definition start_transient :: "unit_spec \<Rightarrow> unit prog" where
  "start_transient spec =
     andthen manager (\<lambda>_.
     andthen (ask (\<lambda>H l. h_start H l (us_name spec) (unit_properties spec))
                  (EvStartUnit (us_name spec) (unit_properties spec)))
       (ok_or_fail (''starting unit '' @ us_name spec)))"

definition unit_stop :: "string \<Rightarrow> unit prog" where
  "unit_stop u =
     andthen manager (\<lambda>_.
     andthen (ask (\<lambda>H l. h_stop H l u) (EvStopUnit u)) (\<lambda>r.
       case r of
         None \<Rightarrow> ret ()
       | Some e \<Rightarrow> if no_such_unit e \<or> says_not_loaded e then ret ()
                   else fail (supervision (''stopping unit '' @ u) e)))"

definition reset_failed :: "string \<Rightarrow> unit prog" where
  "reset_failed u =
     andthen manager (\<lambda>_. andthen (ask (\<lambda>H l. h_reset H l u) (EvResetFailed u)) (\<lambda>_. ret ()))"

section \<open>Questions\<close>

definition unit_status :: "string \<Rightarrow> unit_status prog" where
  "unit_status u =
     andthen manager (\<lambda>_.
     andthen (ask (\<lambda>H l. h_get_unit H l u) (EvGetUnit u)) (\<lambda>r.
       case r of
         Inl e \<Rightarrow> if no_such_unit e then ret UInactive
                  else fail (supervision (''looking up unit '' @ u) e)
       | Inr path \<Rightarrow>
           andthen (ask (\<lambda>H l. h_unit_path H l path) (EvUnitPath path)) (\<lambda>r.
           andthen (ok_or_fail ''addressing the unit'' r) (\<lambda>_.
           andthen (ask (\<lambda>H l. h_unit_open H l path) (EvUnitOpen path)) (\<lambda>r.
           andthen (ok_or_fail ''opening the unit interface'' r) (\<lambda>_.
           andthen (ask (\<lambda>H l. h_active_state H l path) (EvActiveState path)) (\<lambda>r.
           andthen (or_fail (''reading state of '' @ u) r) (\<lambda>state.
             ret (unit_status_of state)))))))))"

definition serving_of_argv :: "string list \<Rightarrow> serving_info option" where
  "serving_of_argv argv =
     (if 1 < length argv \<and> argv ! 1 = ''mount'' \<and> 3 < length argv
      then Some \<lparr>sv_fs_spec = argv ! 2, sv_point = argv ! 3\<rparr> else None)"

definition serving :: "string \<Rightarrow> serving_info option prog" where
  "serving path =
     andthen (ask (\<lambda>H l. h_service_open H l path) (EvServiceOpen path)) (\<lambda>r.
       case r of Some _ \<Rightarrow> ret None
       | None \<Rightarrow>
           andthen (ask (\<lambda>H l. h_exec_start H l path) (EvExecStart path)) (\<lambda>r.
             case r of
               Inl _ \<Rightarrow> ret None
             | Inr [] \<Rightarrow> ret None
             | Inr ((_, argv) # _) \<Rightarrow> ret (serving_of_argv argv)))"

definition loaded_of :: "unit_row \<Rightarrow> loaded_unit prog" where
  "loaded_of row =
     andthen (if ends_with ''.service'' (ur_name row) then serving (ur_path row) else ret None) (\<lambda>sv.
       ret \<lparr>lu_name = ur_name row, lu_status = unit_status_of (ur_active row), lu_serving = sv\<rparr>)"

definition list_units :: "string \<Rightarrow> loaded_unit list prog" where
  "list_units prefix =
     andthen manager (\<lambda>_.
     andthen (ask (\<lambda>H l. h_list_units H l (prefix @ ''*'')) (EvListUnits (prefix @ ''*''))) (\<lambda>r.
     andthen (or_fail (''listing units matching '' @ prefix @ ''*'') r) (\<lambda>rows.
       each loaded_of rows)))"

section \<open>What a unit said\<close>

text \<open>
  The text of an entry: a string, or the bytes an array of numbers stands for, each taken
  modulo 256. Blank entries are dropped.
\<close>

definition message_text :: "journal_message \<Rightarrow> string option" where
  "message_text m =
     (case m of
        JString s \<Rightarrow> Some s
      | JBytes bytes \<Rightarrow>
          Some (from_utf8_lossy (map (\<lambda>b. char_of (b mod 256)) (List.map_filter id bytes)))
      | JOther \<Rightarrow> None)"

definition entry_said :: "journal_entry \<Rightarrow> (bool \<times> string) option" where
  "entry_said e =
     (case je_message e of None \<Rightarrow> None
      | Some m \<Rightarrow>
          (case message_text m of None \<Rightarrow> None
           | Some text \<Rightarrow> if trim text = [] then None else Some (je_comm e = Some ''systemd'', text)))"

fun squeeze :: "string list \<Rightarrow> string list" where
  "squeeze (a # b # xs) = (if a = b then squeeze (b # xs) else a # squeeze (b # xs))"
| "squeeze xs = xs"

definition what_the_unit_said :: "(string \<Rightarrow> journal_entry option) \<Rightarrow> string \<Rightarrow> string" where
  "what_the_unit_said json journal =
     (let entries = List.map_filter entry_said (List.map_filter json (lines journal));
          own = map snd (filter (\<lambda>e. \<not> fst e) entries);
          shown = (if own = [] then map snd entries else own) in
      trim (join [newline] (squeeze shown)))"

definition recent_output :: "string \<Rightarrow> string prog" where
  "recent_output u =
     andthen (ask (\<lambda>H l. h_journal H l u) (EvJournal u)) (\<lambda>out.
     andthen host_json (\<lambda>json.
       ret (case out of Some raw \<Rightarrow> what_the_unit_said json (from_utf8_lossy raw) | None \<Rightarrow> [])))"

end
