(* ===== verification/Supervisor.thy ===== *)
theory Supervisor
  imports Systemd
begin

text \<open>
  The mount supervisor (crates/service/src/supervisor.rs): mounts run as systemd units that
  outlive the service, every state answer comes from the kernel's mount table, and a unit of
  ours the configuration no longer places where it serves is an orphan, handled like any other
  mount. Operations are programs over a host; each question is asked where the code asks it.
\<close>

section \<open>Settings\<close>

definition READY_TIMEOUT :: nat where "READY_TIMEOUT = 45000"

definition ENOTCONN :: int where "ENOTCONN = 107"

definition POLL_INTERVAL :: nat where "POLL_INTERVAL = 250"

text \<open>Times are in milliseconds.\<close>

record supervisor =
  sp_config :: config
  sp_rclone :: string
  sp_runtime_dir :: string
  sp_config_path :: string
  sp_ready_timeout :: nat
  sp_gone_timeout :: nat
  sp_unit_gone_timeout :: nat

definition supervisor_new :: "config \<Rightarrow> string \<Rightarrow> string \<Rightarrow> string \<Rightarrow> supervisor" where
  "supervisor_new config rclone runtime_dir config_path =
     \<lparr>sp_config = config, sp_rclone = rclone, sp_runtime_dir = runtime_dir,
      sp_config_path = config_path, sp_ready_timeout = READY_TIMEOUT, sp_gone_timeout = 30000,
      sp_unit_gone_timeout = 35000\<rparr>"

datatype release = Refuse | Detach

record target =
  tg_name :: string
  tg_unit :: string
  tg_point :: string
  tg_fs_spec :: string

definition rc_socket_path :: "string \<Rightarrow> string \<Rightarrow> string" where
  "rc_socket_path runtime_dir name = path_join runtime_dir (socket_file_name name)"

definition orphan_name :: "string \<Rightarrow> string option" where
  "orphan_name u =
     (case strip_prefix UNIT_PREFIX u of
        None \<Rightarrow> None
      | Some rest \<Rightarrow>
          (case strip_suffix ''.service'' rest of
             None \<Rightarrow> None
           | Some name \<Rightarrow> if name = [] \<or> name = ''.'' \<or> name = ''..'' then None else Some name))"

definition foreign_name :: "mount_entry \<Rightarrow> string" where
  "foreign_name e = from_utf8_lossy (me_point e)"

definition mount_config :: "config \<Rightarrow> string \<Rightarrow> supervisor_error + mount" where
  "mount_config c name =
     (case find (\<lambda>m. mt_name m = name) (cf_mounts c) of
        Some m \<Rightarrow> Inr m | None \<Rightarrow> Inl (UnknownMount name))"

section \<open>What the kernel says\<close>

definition mounts_of :: "io_error + string \<Rightarrow> mount_entry list" where
  "mounts_of file = (case read_from file of Inl _ \<Rightarrow> [] | Inr es \<Rightarrow> es)"

definition live_mounts :: "mount_entry list prog" where
  "live_mounts = andthen (ask h_mountinfo EvMountinfo) (\<lambda>file. ret (mounts_of file))"

definition resolved :: "string \<Rightarrow> string prog" where
  "resolved raw =
     andthen (ask (\<lambda>H l. h_canonicalize H l raw) (EvCanonicalize raw)) (\<lambda>r. ret (unwrap_or r raw))"

definition resolved_point :: "mount \<Rightarrow> string prog" where
  "resolved_point m = resolved (mt_point m)"

definition target_of :: "mount \<Rightarrow> target prog" where
  "target_of m =
     andthen (resolved_point m) (\<lambda>point.
       ret \<lparr>tg_name = mt_name m, tg_unit = unit_name m, tg_point = point, tg_fs_spec = fs_spec m\<rparr>)"

text \<open>A probe that does not answer in time is not the dead daemon this asks about.\<close>

definition is_stale :: "string \<Rightarrow> bool prog" where
  "is_stale p =
     andthen (ask (\<lambda>H l. h_probe H l p) (EvProbe p)) (\<lambda>r. ret (r = StatErr (Some ENOTCONN)))"

section \<open>Orphans\<close>

fun configured_unit_holds ::
  "(string \<times> string) list \<Rightarrow> string \<Rightarrow> (string \<Rightarrow> string option option) \<Rightarrow> bool prog" where
  "configured_unit_holds [] point argv = ret False"
| "configured_unit_holds ((p, u) # rest) point argv =
     (if \<not> path_eq p point then configured_unit_holds rest point argv
      else (case argv u of
              None \<Rightarrow> configured_unit_holds rest point argv
            | Some None \<Rightarrow> ret True
            | Some (Some meant) \<Rightarrow>
                andthen (resolved meant) (\<lambda>real.
                  if path_eq real point then ret True else configured_unit_holds rest point argv)))"

definition resolve_configured :: "mount list \<Rightarrow> (string \<times> string) list prog" where
  "resolve_configured ms =
     each (\<lambda>m. andthen (resolved_point m) (\<lambda>p. ret (p, unit_name m))) ms"

text \<open>Where each configured unit belongs, and where each serving unit says it mounted.\<close>

definition our_points :: "mount list \<Rightarrow> string \<Rightarrow> string option" where
  "our_points ms = map_of (rev (map (\<lambda>m. (unit_name m, mt_point m)) ms))"

definition serving_argv :: "loaded_unit list \<Rightarrow> string \<Rightarrow> string option option" where
  "serving_argv loaded =
     map_of (rev (map (\<lambda>u. (lu_name u, map_option sv_point (lu_serving u)))
       (filter (\<lambda>u. is_serving (lu_status u)) loaded)))"

text \<open>A unit worth looking at: serving, named as ours are, not where its own entry puts it.\<close>

definition candidate :: "mount list \<Rightarrow> loaded_unit \<Rightarrow> (serving_info \<times> string) option" where
  "candidate ms u =
     (if \<not> is_serving (lu_status u) then None
      else (case (lu_serving u, orphan_name (lu_name u)) of
              (Some sv, Some name) \<Rightarrow>
                if is_some_and (our_points ms (lu_name u)) (\<lambda>p. path_eq p (sv_point sv)) then None
                else Some (sv, name)
            | _ \<Rightarrow> None))"

fun sweep ::
  "mount list \<Rightarrow> mount_entry list \<Rightarrow> (string \<Rightarrow> string option option)
     \<Rightarrow> (string \<times> string) list option \<Rightarrow> loaded_unit list \<Rightarrow> target list prog" where
  "sweep ms live argv configured [] = ret []"
| "sweep ms live argv configured (u # us) =
     (case candidate ms u of
        None \<Rightarrow> sweep ms live argv configured us
      | Some (sv, name) \<Rightarrow>
          andthen (resolved (sv_point sv)) (\<lambda>point.
            if \<not> is_mounted_at live point then sweep ms live argv configured us
            else andthen (case configured of Some c \<Rightarrow> ret c | None \<Rightarrow> resolve_configured ms) (\<lambda>c.
              andthen (configured_unit_holds c point argv) (\<lambda>held.
                if held then sweep ms live argv (Some c) us
                else andthen (sweep ms live argv (Some c) us) (\<lambda>out.
                  ret (\<lparr>tg_name = name, tg_unit = lu_name u, tg_point = point,
                        tg_fs_spec = sv_fs_spec sv\<rparr> # out))))))"

definition orphans :: "config \<Rightarrow> target list prog" where
  "orphans c =
     andthen (list_units UNIT_PREFIX) (\<lambda>loaded.
     andthen live_mounts (\<lambda>live.
       sweep (cf_mounts c) live (serving_argv loaded) None loaded))"

definition argv_point :: "string \<Rightarrow> string option prog" where
  "argv_point u =
     andthen (list_units UNIT_PREFIX) (\<lambda>loaded.
       case Option.bind (find (\<lambda>x. lu_name x = u) loaded) lu_serving of
         None \<Rightarrow> ret None
       | Some sv \<Rightarrow> andthen (resolved (sv_point sv)) (\<lambda>p. ret (Some p)))"

definition orphan_at :: "config \<Rightarrow> string \<Rightarrow> target option prog" where
  "orphan_at c point = andthen (orphans c) (\<lambda>os. ret (find (\<lambda>t. path_eq (tg_point t) point) os))"

definition msg_still_held :: "string \<Rightarrow> string \<Rightarrow> target \<Rightarrow> string" where
  "msg_still_held name point t =
     name @ '': '' @ from_utf8_lossy point @ '' is still held by '' @ tg_unit t
       @ '', a mount of ours the config no longer places there. Unmount ''
       @ debug_str (tg_name t) @ '' first.''"

definition refuse_to_take_over :: "config \<Rightarrow> string \<Rightarrow> string \<Rightarrow> unit prog" where
  "refuse_to_take_over c name point =
     andthen (orphan_at c point) (\<lambda>r.
       case r of None \<Rightarrow> ret () | Some t \<Rightarrow> fail (NotManaged (msg_still_held name point t)))"

definition unmount_target :: "config \<Rightarrow> string \<Rightarrow> target prog" where
  "unmount_target c name =
     andthen (orphans c) (\<lambda>os.
       case mount_config c name of
         Inl _ \<Rightarrow> (case find (\<lambda>t. tg_name t = name) os of
                     Some t \<Rightarrow> ret t | None \<Rightarrow> fail (UnknownMount name))
       | Inr m \<Rightarrow>
           andthen (target_of m) (\<lambda>own.
           andthen (unit_status (tg_unit own)) (\<lambda>status.
             if is_serving status
             then ret (unwrap_or (find (\<lambda>t. tg_unit t = tg_unit own) os) own)
             else (case find (\<lambda>t. path_eq (tg_point t) (tg_point own)) os of
                     Some t \<Rightarrow> ret t | None \<Rightarrow> ret own))))"

section \<open>Why a unit failed\<close>

definition REDACTED :: string where "REDACTED = ''<redacted>''"

definition ARGV_ECHO :: string where "ARGV_ECHO = ''starting with parameters''"

definition ARGV_WITHHELD :: string where
  "ARGV_WITHHELD = ''[rclone'' @ [CHR 0x27] @ ''s command line withheld]''"

text \<open>\<^verbatim>\<open>str::replace\<close> of a non-empty pattern, left to right without overlap.\<close>

function replace_str :: "string \<Rightarrow> string \<Rightarrow> string \<Rightarrow> string" where
  "replace_str p w [] = []"
| "replace_str p w (c # s) =
     (case (if p = [] then None else strip_prefix p (c # s)) of
        Some rest \<Rightarrow> w @ replace_str p w rest
      | None \<Rightarrow> c # replace_str p w s)"
  by pat_completeness auto
termination
  by (relation "measure (\<lambda>(p, w, s). length s)")
    (auto simp: strip_prefix_def le_imp_less_Suc split: if_splits)

definition redact_line :: "string list \<Rightarrow> string \<Rightarrow> string" where
  "redact_line args line =
     (if contains_str ARGV_ECHO line then ARGV_WITHHELD
      else foldl (\<lambda>l arg. replace_str (debug_str arg) (debug_str REDACTED) l) line args)"

definition redact_extra_args :: "string \<Rightarrow> string list \<Rightarrow> string" where
  "redact_extra_args text extra_args =
     join [newline] (map (redact_line (filter (\<lambda>a. a \<noteq> []) extra_args)) (lines text))"

definition failure_reason :: "config \<Rightarrow> string \<Rightarrow> string prog" where
  "failure_reason c u =
     andthen (recent_output u) (\<lambda>out.
       if out = [] then ret (''rclone logged nothing; check `journalctl --user -u '' @ u @ ''`'')
       else ret (redact_extra_args out
         (case find (\<lambda>m. unit_name m = u) (cf_mounts c) of Some m \<Rightarrow> mt_extra_args m | None \<Rightarrow> [])))"

section \<open>The state of one mount\<close>

definition msg_moved :: "mount \<Rightarrow> target \<Rightarrow> string \<Rightarrow> string" where
  "msg_moved m t point =
     tg_unit t @ '' is serving '' @ from_utf8_lossy (tg_point t) @ '', not the configured ''
       @ from_utf8_lossy point @ '' '' @ em_dash @ '' its mount point was changed while it was mounted. Unmounting ''
       @ debug_str (mt_name m) @ '' and mounting it again moves it.''"

definition msg_not_responding :: "string \<Rightarrow> string" where
  "msg_not_responding point =
     from_utf8_lossy point @ '' is mounted but not responding '' @ em_dash
       @ '' the rclone serving it exited without unmounting. Mounting again will clear it.''"

definition msg_still_served :: "string \<Rightarrow> target \<Rightarrow> string" where
  "msg_still_served point t =
     from_utf8_lossy point @ '' is still served by '' @ tg_unit t
       @ '', a mount of ours the config no longer places there. Unmounting ''
       @ debug_str (tg_name t) @ '' frees it.''"

definition resolve_table ::
  "config \<Rightarrow> mount \<Rightarrow> target list \<Rightarrow> string \<Rightarrow> bool \<Rightarrow> unit_status \<Rightarrow> mount_state prog" where
  "resolve_table c m os point live status =
     (case status of
        UActive \<Rightarrow> ret (if live then Mounted else Mounting)
      | UActivating \<Rightarrow> ret (if live then Mounted else Mounting)
      | UDeactivating \<Rightarrow> ret Unmounting
      | UFailed \<Rightarrow> andthen (failure_reason c (unit_name m)) (\<lambda>reason. ret (FailedState reason))
      | UInactive \<Rightarrow>
          ret (if \<not> live then Unmounted
               else (case find (\<lambda>t. path_eq (tg_point t) point) os of
                       Some t \<Rightarrow> FailedState (msg_still_served point t)
                     | None \<Rightarrow> Foreign)))"

definition resolve :: "config \<Rightarrow> mount \<Rightarrow> target list \<Rightarrow> mount_state prog" where
  "resolve c m os =
     andthen (resolved_point m) (\<lambda>point.
     andthen live_mounts (\<lambda>es.
     let live = is_mounted_at es point in
     andthen (unit_status (unit_name m)) (\<lambda>status.
       case (if status = UDeactivating then None else find (\<lambda>t. tg_unit t = unit_name m) os) of
         Some t \<Rightarrow> ret (FailedState (msg_moved m t point))
       | None \<Rightarrow>
           andthen (if live then is_stale point else ret False) (\<lambda>stale.
             if stale then ret (FailedState (msg_not_responding point))
             else resolve_table c m os point live status))))"

section \<open>Waiting\<close>

definition await_ready :: "supervisor \<Rightarrow> mount \<Rightarrow> unit prog" where
  "await_ready S m =
     andthen clock_now (\<lambda>start.
     andthen (resolved_point m) (\<lambda>point.
       poll_until
         (andthen live_mounts (\<lambda>es.
            if is_mounted_at es point then ret (Some ())
            else andthen (unit_status (unit_name m)) (\<lambda>status.
              if status = UFailed
              then andthen (failure_reason (sp_config S) (unit_name m)) (\<lambda>reason. fail (RcloneFailed reason None))
              else ret None)))
         POLL_INTERVAL (start + sp_ready_timeout S)
         (andthen (failure_reason (sp_config S) (unit_name m)) (\<lambda>reason.
            fail (RcloneFailed (trim_end (from_utf8_lossy (mt_point m) @ '' did not start serving within ''
              @ show_nat (sp_ready_timeout S div 1000) @ ''s. '' @ reason)) None)))))"

definition await_unit_gone :: "string \<Rightarrow> nat \<Rightarrow> unit prog" where
  "await_unit_gone u ms =
     andthen clock_now (\<lambda>start.
       poll_until
         (andthen (unit_status u) (\<lambda>status.
            ret (if status = UInactive \<or> status = UFailed then Some () else None)))
         POLL_INTERVAL (start + ms)
         (fail (Supervision (u @ '' is still shutting down after '' @ show_nat (ms div 1000) @ ''s'') None)))"

definition await_gone :: "string \<Rightarrow> nat \<Rightarrow> bool prog" where
  "await_gone point ms =
     andthen clock_now (\<lambda>start.
       poll_until
         (andthen live_mounts (\<lambda>es. ret (if is_mounted_at es point then None else Some True)))
         POLL_INTERVAL (start + ms)
         (ret False))"

section \<open>Asking the kernel for a mount point back\<close>

definition release_args :: "release \<Rightarrow> string \<Rightarrow> string list" where
  "release_args how p = [''-u''] @ (if how = Detach then [''-z''] else []) @ [from_utf8_lossy p]"

definition run_program :: "string \<Rightarrow> string list \<Rightarrow> run_result prog" where
  "run_program program args = ask (\<lambda>H l. h_run H l program args) (EvRun program args)"

definition fusermount :: "string \<Rightarrow> release \<Rightarrow> unit prog" where
  "fusermount p how =
     andthen (run_program ''fusermount3'' (release_args how p)) (\<lambda>out.
     andthen (if out = RunErr IoNotFound then run_program ''fusermount'' (release_args how p) else ret out) (\<lambda>out.
       case out of
         Exited ok stderr \<Rightarrow>
           if ok then ret ()
           else fail (Busy (from_utf8_lossy p @ '' could not be unmounted: ''
                  @ rev (dropWhile (\<lambda>c. c = CHR ''.'') (rev (trim (from_utf8_lossy stderr))))))
       | RunErr e \<Rightarrow> fail (Supervision (''running fusermount for '' @ from_utf8_lossy p) (Some (io_text e)))))"

definition release_point :: "string \<Rightarrow> release \<Rightarrow> unit prog" where
  "release_point p how = fusermount p how"

definition refused :: "string \<Rightarrow> supervisor_error \<Rightarrow> supervisor_error" where
  "refused p e =
     (case e of
        Busy reason \<Rightarrow>
          Busy (reason @ ''. Usually a process is still using the mount '' @ em_dash
            @ '' a file open under it, or a shell whose working directory is inside it. `fuser -m ''
            @ from_utf8_lossy p @ ''` names them. Unmounting anyway cuts anything mid-write off, and rclone ''
            @ ''then uploads the partial file as if it were complete.'')
      | _ \<Rightarrow> e)"

section \<open>Preparing a start\<close>

definition prepare_runtime_dir :: "supervisor \<Rightarrow> unit prog" where
  "prepare_runtime_dir S =
     (let dir = sp_runtime_dir S;
          checked = (\<lambda>r. case r of None \<Rightarrow> ret ()
            | Some e \<Rightarrow> fail (Supervision (''preparing the runtime directory '' @ from_utf8_lossy dir) (Some (io_text e)))) in
      andthen (ask (\<lambda>H l. h_mkdirs H l dir) (EvMkdirs dir)) (\<lambda>r.
      andthen (checked r) (\<lambda>_.
      andthen (ask (\<lambda>H l. h_chmod H l dir 448) (EvChmod dir 448)) checked)))"

definition prepare_mount_point :: "string \<Rightarrow> unit prog" where
  "prepare_mount_point p =
     (let bad = (\<lambda>reason cause. fail (BadMountPoint (from_utf8_lossy p) reason cause)) in
      andthen (ask (\<lambda>H l. h_metadata H l p) (EvMetadata p)) (\<lambda>md.
        case md of
          Inr is_dir \<Rightarrow> if is_dir then ret () else bad ''exists but is not a directory'' None
        | Inl IoNotFound \<Rightarrow>
            andthen (ask (\<lambda>H l. h_mkdirs H l p) (EvMkdirs p)) (\<lambda>r.
              case r of None \<Rightarrow> ret () | Some e \<Rightarrow> bad ''could not be created'' (Some (io_text e)))
        | Inl e \<Rightarrow> bad ''could not be inspected'' (Some (io_text e))))"

definition pre_start_hook :: "supervisor \<Rightarrow> string \<Rightarrow> (string \<times> string list) option prog" where
  "pre_start_hook S name =
     andthen (ask h_current_exe EvCurrentExe) (\<lambda>r.
       case r of
         Inl _ \<Rightarrow> ret None
       | Inr exe \<Rightarrow>
           andthen (ask (\<lambda>H l. h_is_file H l exe) (EvIsFile exe)) (\<lambda>file.
             if \<not> file \<or> ends_with '' (deleted)'' (from_utf8_lossy exe) then ret None
             else ret (Some (exe, [''--config'', from_utf8_lossy (sp_config_path S), ''prepare-mount'',
                    ''--name'', name]))))"

definition lock_for :: "string \<Rightarrow> unit prog" where
  "lock_for name = (\<lambda>H s. (Inr (), s\<lparr>sy_locks := List.insert name (sy_locks s)\<rparr>))"

definition unit_spec_of :: "supervisor \<Rightarrow> mount \<Rightarrow> (string \<times> string list) option \<Rightarrow> unit_spec" where
  "unit_spec_of S m hook =
     \<lparr>us_name = unit_name m,
      us_description = ''rclone mount '' @ fs_spec m @ '' at '' @ from_utf8_lossy (mt_point m),
      us_executable = sp_rclone S,
      us_args = mount_args m (rc_socket_path (sp_runtime_dir S) (mt_name m)),
      us_pre_start = hook, us_umask = 18\<rparr>"

definition remove_socket :: "string \<Rightarrow> unit prog" where
  "remove_socket sock_path =
     andthen (ask (\<lambda>H l. h_exists H l sock_path) (EvExists sock_path)) (\<lambda>there.
       if there then ask (\<lambda>H l. ()) (\<lambda>_. EvRemove sock_path) else ret ())"

section \<open>Mounting\<close>

definition msg_leftover :: "string \<Rightarrow> target \<Rightarrow> string" where
  "msg_leftover name t =
     name @ '' is a leftover unit, '' @ tg_unit t @ '', not a configured mount '' @ em_dash
       @ '' nothing describes what to start. Unmount it instead.''"

definition msg_still_serving :: "string \<Rightarrow> target \<Rightarrow> string" where
  "msg_still_serving name t =
     name @ '': '' @ tg_unit t @ '' is still serving '' @ from_utf8_lossy (tg_point t)
       @ '', the mount point this entry had before it was changed. Unmount '' @ name
       @ '' first, then mount it again.''"

definition msg_already :: "string \<Rightarrow> string \<Rightarrow> string" where
  "msg_already name point =
     name @ '': '' @ from_utf8_lossy point @ '' is already mounted by something we did not start''"

text \<open>What is already at the mount point: \<open>True\<close> when there is nothing left to do.\<close>

definition clear_the_point :: "supervisor \<Rightarrow> mount \<Rightarrow> bool prog" where
  "clear_the_point S m =
     (let name = mt_name m; c = sp_config S in
      andthen (resolved_point m) (\<lambda>point.
      andthen live_mounts (\<lambda>es.
      if \<not> is_mounted_at es point then ret False
      else andthen (is_stale point) (\<lambda>stale.
        if stale then
          andthen (refuse_to_take_over c name point) (\<lambda>_.
          andthen (release_point point Refuse) (\<lambda>_. ret False))
        else andthen (unit_status (unit_name m)) (\<lambda>status.
          andthen (if is_serving status then ret () else refuse_to_take_over c name point) (\<lambda>_.
            case status of
              UActive \<Rightarrow> ret True
            | UActivating \<Rightarrow> ret True
            | UDeactivating \<Rightarrow>
                andthen (await_unit_gone (unit_name m) (sp_unit_gone_timeout S)) (\<lambda>_. ret False)
            | UFailed \<Rightarrow> ret False
            | UInactive \<Rightarrow> fail (NotManaged (msg_already name point))))))))"

definition start_unit :: "supervisor \<Rightarrow> mount \<Rightarrow> unit prog" where
  "start_unit S m =
     andthen (prepare_mount_point (mt_point m)) (\<lambda>_.
     andthen (prepare_runtime_dir S) (\<lambda>_.
     andthen (unit_status (unit_name m)) (\<lambda>status.
     if status = UActive \<or> status = UActivating then await_ready S m
     else
     andthen (if status = UDeactivating then await_unit_gone (unit_name m) (sp_unit_gone_timeout S) else ret ()) (\<lambda>_.
     andthen (remove_socket (rc_socket_path (sp_runtime_dir S) (mt_name m))) (\<lambda>_.
     andthen (reset_failed (unit_name m)) (\<lambda>_.
     andthen (pre_start_hook S (mt_name m)) (\<lambda>hook.
     andthen (start_transient (unit_spec_of S m hook)) (\<lambda>_.
       await_ready S m))))))))"

definition sup_mount :: "supervisor \<Rightarrow> string \<Rightarrow> unit prog" where
  "sup_mount S name =
     (let c = sp_config S in
      case mount_config c name of
        Inl unknown \<Rightarrow>
          andthen (orphans c) (\<lambda>os.
            case find (\<lambda>t. tg_name t = name) os of
              None \<Rightarrow> fail unknown
            | Some t \<Rightarrow> fail (NotManaged (msg_leftover name t)))
      | Inr m \<Rightarrow>
          andthen (lock_for name) (\<lambda>_.
          andthen (unit_status (unit_name m)) (\<lambda>status.
          andthen (if status = UDeactivating then ret None
                   else andthen (orphans c) (\<lambda>os. ret (find (\<lambda>t. tg_unit t = unit_name m) os))) (\<lambda>moved.
            case moved of
              Some t \<Rightarrow> fail (NotManaged (msg_still_serving name t))
            | None \<Rightarrow>
                andthen (clear_the_point S m) (\<lambda>done_already.
                  if done_already then ret () else start_unit S m)))))"


section \<open>Unmounting\<close>

definition msg_other_source :: "string \<Rightarrow> string \<Rightarrow> string \<Rightarrow> string \<Rightarrow> string" where
  "msg_other_source name point source spec =
     name @ '': '' @ from_utf8_lossy point @ '' is serving '' @ source @ '', not '' @ spec @ '' ''
       @ em_dash @ '' refusing to unmount something this mount does not own''"

definition msg_gave_up :: "string \<Rightarrow> target \<Rightarrow> string" where
  "msg_gave_up name t =
     name @ '': gave up waiting for '' @ tg_unit t @ '', which is being operated on under the name ''
       @ debug_str (tg_name t)
       @ ''. Retrying this one on its own will say what is actually wrong with it.''"

definition msg_still_mounted :: "string \<Rightarrow> string" where
  "msg_still_mounted point =
     from_utf8_lossy point @ '' is still mounted after everything this can do to release it. ''
       @ ''Something is holding it that a lazy unmount did not clear either, so ''
       @ ''there is likely a second filesystem stacked under the same path.''"

text \<open>
  Whether the mount at the point is this target's: asked only without \<open>force\<close>, and only the
  unit's own argv excuses a source that is not the one it was started with.
\<close>

definition check_source :: "target \<Rightarrow> unit_status \<Rightarrow> unit prog" where
  "check_source t status =
     andthen live_mounts (\<lambda>es.
       case find (\<lambda>e. is_rclone e \<and> path_eq (me_point e) (tg_point t)) es of
         None \<Rightarrow> ret ()
       | Some e \<Rightarrow>
           if me_source e = tg_fs_spec t then ret ()
           else andthen (if is_serving status then argv_point (tg_unit t) else ret None) (\<lambda>meant.
             if is_some_and meant (\<lambda>p. path_eq p (tg_point t)) then ret ()
             else fail (NotManaged
               (msg_other_source (tg_name t) (tg_point t) (me_source e) (tg_fs_spec t)))))"

text \<open>The kernel decides first. A refusal stands unless the point is gone or force may override it.\<close>

definition ask_the_kernel :: "target \<Rightarrow> bool \<Rightarrow> unit prog" where
  "ask_the_kernel t may_detach =
     andthen (attempt (release_point (tg_point t) Refuse)) (\<lambda>r.
       case r of
         Inr _ \<Rightarrow> ret ()
       | Inl e \<Rightarrow>
           andthen live_mounts (\<lambda>es.
             if \<not> is_mounted_at es (tg_point t) then ret ()
             else if may_detach then ret ()
             else fail (refused (tg_point t) e)))"

text \<open>Stop the unit and wait: \<open>True\<close> when the point is released and the name freed.\<close>

definition stop_unit :: "supervisor \<Rightarrow> target \<Rightarrow> bool \<Rightarrow> bool prog" where
  "stop_unit S t live =
     andthen (unit_stop (tg_unit t)) (\<lambda>_.
     andthen (if \<not> live then ret True else await_gone (tg_point t) (sp_gone_timeout S)) (\<lambda>gone.
       if \<not> gone then ret False
       else andthen (await_unit_gone (tg_unit t) (sp_unit_gone_timeout S)) (\<lambda>_.
         andthen (reset_failed (tg_unit t)) (\<lambda>_. ret True))))"

definition last_resort :: "target \<Rightarrow> bool \<Rightarrow> unit prog" where
  "last_resort t may_detach =
     andthen live_mounts (\<lambda>es.
     if \<not> is_mounted_at es (tg_point t) then ret ()
     else
     andthen (attempt (release_point (tg_point t) Refuse)) (\<lambda>r.
     andthen (case r of
                Inr _ \<Rightarrow> ret ()
              | Inl e \<Rightarrow> if \<not> may_detach then fail (refused (tg_point t) e)
                         else release_point (tg_point t) Detach) (\<lambda>_.
     andthen (await_gone (tg_point t) 10000) (\<lambda>gone.
       if gone then reset_failed (tg_unit t)
       else fail (Busy (msg_still_mounted (tg_point t)))))))"

text \<open>Before anything touches the unit: whose mount this is, and whether the kernel lets go of it.\<close>

definition release_first :: "target \<Rightarrow> bool \<Rightarrow> bool \<Rightarrow> unit_status \<Rightarrow> unit prog" where
  "release_first t force live status =
     (if \<not> live then ret ()
      else andthen (if force then andthen live_mounts (\<lambda>_. ret ()) else check_source t status) (\<lambda>_.
        ask_the_kernel t (force \<and> status \<noteq> UInactive)))"

definition release_and_stop :: "supervisor \<Rightarrow> target \<Rightarrow> bool \<Rightarrow> bool \<Rightarrow> unit_status \<Rightarrow> unit prog" where
  "release_and_stop S t force live status =
     (let ours = (status \<noteq> UInactive); may_detach = (force \<and> ours) in
      andthen (release_first t force live status) (\<lambda>_.
      andthen (if ours then stop_unit S t live else ret False) (\<lambda>finished.
        if finished then ret () else last_resort t may_detach)))"

definition take_down :: "supervisor \<Rightarrow> target \<Rightarrow> bool \<Rightarrow> unit prog" where
  "take_down S t force =
     andthen live_mounts (\<lambda>es.
     let live = is_mounted_at es (tg_point t) in
     andthen (unit_status (tg_unit t)) (\<lambda>status.
       if live \<and> status = UInactive \<and> \<not> force then fail (NotManaged (tg_name t))
       else if \<not> live \<and> status = UInactive then ret ()
       else release_and_stop S t force live status))"

text \<open>A name that resolves to nothing leaves no lock behind, unless somebody waits for it.\<close>

definition drop_lock :: "string \<Rightarrow> unit prog" where
  "drop_lock name =
     andthen (ask (\<lambda>H l. h_queued H l name) (EvQueued name)) (\<lambda>queued.
       if queued then ret ()
       else (\<lambda>H s. (Inr (), s\<lparr>sy_locks := filter (\<lambda>n. n \<noteq> name) (sy_locks s)\<rparr>)))"

definition sup_unmount :: "supervisor \<Rightarrow> string \<Rightarrow> bool \<Rightarrow> unit prog" where
  "sup_unmount S name force =
     andthen (lock_for name) (\<lambda>_.
     andthen (attempt (unmount_target (sp_config S) name)) (\<lambda>r.
       case r of
         Inl e \<Rightarrow>
           andthen (case e of UnknownMount _ \<Rightarrow> drop_lock name | _ \<Rightarrow> ret ()) (\<lambda>_. fail e)
       | Inr t \<Rightarrow>
           andthen (if tg_name t = name then ret ()
                    else andthen (lock_for (tg_name t)) (\<lambda>_.
                      andthen (ask (\<lambda>H l. h_lock_free H l (tg_name t)) (EvLockWait (tg_name t))) (\<lambda>got.
                        if got then ret () else fail (Busy (msg_gave_up name t))))) (\<lambda>_.
             take_down S t force)))"

section \<open>State and discovery\<close>

definition sup_state :: "supervisor \<Rightarrow> string \<Rightarrow> mount_state prog" where
  "sup_state S name =
     andthen (orphans (sp_config S)) (\<lambda>os.
       case mount_config (sp_config S) name of
         Inr m \<Rightarrow> resolve (sp_config S) m os
       | Inl unknown \<Rightarrow> if list_ex (\<lambda>t. tg_name t = name) os then ret Orphaned else fail unknown)"

text \<open>One row per configured mount, under the spelling the user wrote.\<close>

definition configured_row :: "config \<Rightarrow> target list \<Rightarrow> mount \<Rightarrow> discovered_mount prog" where
  "configured_row c os m =
     andthen (resolve c m os) (\<lambda>st. ret (dm_at (mt_point m) (discovered (mt_name m) st)))"

definition orphan_rows :: "config \<Rightarrow> target list \<Rightarrow> discovered_mount list" where
  "orphan_rows c os =
     map (\<lambda>t. dm_at (tg_point t) (discovered (tg_name t) Orphaned))
       (filter (\<lambda>t. \<not> list_ex (\<lambda>m. unit_name m = tg_unit t) (cf_mounts c)) os)"

definition foreign_rows :: "string list \<Rightarrow> mount_entry list \<Rightarrow> discovered_mount list" where
  "foreign_rows claimed live =
     map (\<lambda>e. dm_at (me_point e) (discovered (foreign_name e) Foreign))
       (filter (\<lambda>e. is_rclone e \<and> \<not> list_ex (\<lambda>p. path_eq p (me_point e)) claimed) live)"

definition reconcile :: "supervisor \<Rightarrow> discovered_mount list prog" where
  "reconcile S =
     (let c = sp_config S in
      andthen live_mounts (\<lambda>live.
      andthen (orphans c) (\<lambda>os.
      andthen (each (configured_row c os) (cf_mounts c)) (\<lambda>rows.
      andthen (each resolved_point (cf_mounts c)) (\<lambda>claimed.
        ret (rows @ orphan_rows c os @ foreign_rows (claimed @ map tg_point os) live))))))"

section \<open>Before a start\<close>

text \<open>What \<^verbatim>\<open>ExecStartPre\<close> runs: it clears a dead socket and a stale point, nothing else.\<close>

definition prepare_for_start :: "config \<Rightarrow> string \<Rightarrow> string \<Rightarrow> unit prog" where
  "prepare_for_start c runtime_dir name =
     (case mount_config c name of
        Inl e \<Rightarrow> fail e
      | Inr m \<Rightarrow>
          andthen (remove_socket (rc_socket_path runtime_dir name)) (\<lambda>_.
          andthen (resolved_point m) (\<lambda>point.
          andthen live_mounts (\<lambda>live.
          andthen (is_stale point) (\<lambda>stale.
            if is_mounted_at live point \<and> stale then fusermount point Refuse else ret ())))))"

end
