(* ===== verification/Lifecycle.thy ===== *)
theory Lifecycle
  imports Supervisor
begin

text \<open>
  What the supervisor's operations guarantee, over every host: which of their events change
  anything, in which order the changes come, what each of them rests on, and what a success
  or a refusal means.
\<close>

section \<open>Questions and changes\<close>

fun question :: "event \<Rightarrow> bool" where
  "question (EvStartUnit _ _ _) = False"
| "question (EvStopUnit _ _) = False"
| "question (EvResetFailed _ _) = False"
| "question (EvRun _ _ _) = False"
| "question (EvMkdirs _ _) = False"
| "question (EvChmod _ _ _) = False"
| "question (EvRemove _) = False"
| "question _ = True"

definition is_supervision :: "supervisor_error \<Rightarrow> bool" where
  "is_supervision e = (\<exists>c x. e = Supervision c x)"

lemma is_supervision_simps [simp]: "is_supervision (Supervision c x)" "is_supervision (supervision c b)"
  by (simp_all add: is_supervision_def supervision_def)

lemma asks_manager: "P (EvManager None) \<Longrightarrow> (\<And>r. P (EvManager r)) \<Longrightarrow> behaves P is_supervision manager"
  by (auto simp: manager_def ok_or_fail_def intro!: behave)

lemma asks_or_fail: "behaves P is_supervision (or_fail c r)"
  by (auto simp: or_fail_def intro!: behave)

lemma asks_ok_or_fail: "behaves P is_supervision (ok_or_fail c r)"
  by (auto simp: ok_or_fail_def intro!: behave)

lemmas basic = behave asks_manager asks_or_fail asks_ok_or_fail

lemma asks_status: "behaves question is_supervision (unit_status u)"
  by (auto simp: unit_status_def intro!: basic)

lemma asks_serving: "behaves question is_supervision (serving path)"
  by (auto simp: serving_def intro!: basic split: list.split prod.split)

lemma asks_list_units: "behaves question is_supervision (list_units p)"
  by (auto simp: list_units_def loaded_of_def intro!: basic asks_serving)

lemma asks_live: "behaves question is_supervision live_mounts"
  by (auto simp: live_mounts_def intro!: basic)

lemma asks_resolved: "behaves question is_supervision (resolved p)"
  by (auto simp: resolved_def intro!: basic)

lemma asks_stale: "behaves question is_supervision (is_stale p)"
  by (auto simp: is_stale_def intro!: basic)

lemma asks_holds: "behaves question is_supervision (configured_unit_holds c p argv)"
  by (induction c p argv rule: configured_unit_holds.induct)
    (auto intro!: basic asks_resolved split: option.split)

lemma asks_configured: "behaves question is_supervision (resolve_configured ms)"
  by (auto simp: resolve_configured_def resolved_point_def intro!: basic asks_resolved)

lemma asks_sweep: "behaves question is_supervision (sweep ms live argv c us)"
proof (induction us arbitrary: c)
  case (Cons u us)
  then show ?case
    by (auto intro!: basic asks_resolved asks_holds asks_configured split: option.split)
qed (auto intro!: basic)

lemma asks_orphans: "behaves question is_supervision (orphans c)"
  by (auto simp: orphans_def intro!: basic asks_list_units asks_live asks_sweep)

lemma asks_argv_point: "behaves question is_supervision (argv_point u)"
  by (auto simp: argv_point_def intro!: basic asks_list_units asks_resolved split: option.split)

lemma asks_reason: "behaves question is_supervision (failure_reason c u)"
  by (auto simp: failure_reason_def recent_output_def intro!: basic)

lemma asks_resolve: "behaves question is_supervision (resolve c m os)"
  by (auto simp: resolve_def resolve_table_def resolved_point_def Let_def
      intro!: basic asks_resolved asks_live asks_status asks_stale asks_reason
      split: unit_status.split option.split)

lemmas asks = asks_status asks_list_units asks_live asks_resolved asks_stale asks_orphans
  asks_argv_point asks_reason asks_resolve

section \<open>Waiting and releasing\<close>

lemma asks_unit_gone: "behaves question is_supervision (await_unit_gone u ms)"
  by (auto simp: await_unit_gone_def intro!: basic asks_status)

lemma asks_gone: "behaves question is_supervision (await_gone p ms)"
  by (auto simp: await_gone_def intro!: basic asks_live)

definition is_release :: "release \<Rightarrow> string \<Rightarrow> event \<Rightarrow> bool" where
  "is_release how p e =
     (\<exists>program out. e = EvRun program (release_args how p) out
        \<and> program \<in> {''fusermount3'', ''fusermount''})"

definition released :: "release \<Rightarrow> string \<Rightarrow> event \<Rightarrow> bool" where
  "released how p e =
     (\<exists>program err. e = EvRun program (release_args how p) (Exited True err)
        \<and> program \<in> {''fusermount3'', ''fusermount''})"

text \<open>
  A mount table that was read and does not list the point, and one that could not be read at all.
  The code does not tell the second from a table with nothing in it, and so takes the point for
  gone in either case.
\<close>

definition shows_gone :: "string \<Rightarrow> event \<Rightarrow> bool" where
  "shows_gone p e = (\<exists>contents. e = EvMountinfo (Inr contents) \<and> \<not> is_mounted_at (mounts_of (Inr contents)) p)"

definition table_unread :: "event \<Rightarrow> bool" where
  "table_unread e = (\<exists>err. e = EvMountinfo (Inl err))"

definition taken_gone :: "string \<Rightarrow> event \<Rightarrow> bool" where
  "taken_gone p e = (\<exists>file. e = EvMountinfo file \<and> \<not> is_mounted_at (mounts_of file) p)"

lemma taken_gone_read: "list_ex (taken_gone p) l \<Longrightarrow> \<not> list_ex table_unread l \<Longrightarrow> list_ex (shows_gone p) l"
  by (induction l) (auto simp: taken_gone_def shows_gone_def table_unread_def, metis sum.exhaust)

definition release_error :: "supervisor_error \<Rightarrow> bool" where
  "release_error e = (is_supervision e \<or> (\<exists>d. e = Busy d))"

lemma supervision_release_error: "is_supervision e \<Longrightarrow> release_error e"
  by (simp add: release_error_def)

lemma release_error_refused: "release_error e \<Longrightarrow> release_error (refused p e)"
  by (auto simp: release_error_def refused_def is_supervision_def)

lemma since_keeps:
  assumes "behaves P K m" "\<And>new l. A l \<Longrightarrow> list_all P new \<Longrightarrow> B (new @ l)"
    "\<And>l e. B l \<Longrightarrow> K e \<Longrightarrow> E e l"
  shows "triple (since l0 A) m (ok_then (\<lambda>_. since l0 B) (\<lambda>e. since l0 (E e)))"
proof (rule triple_weaken [OF triple_keeps [OF assms(1)]])
  show "since l0 A s \<Longrightarrow> sy_log t = new @ sy_log s \<Longrightarrow> list_all P new \<Longrightarrow> since l0 B t" for s t new
    using since_grow [of l0 A s t new B] assms(2) by blast
  show "K e \<and> since l0 B s \<Longrightarrow> since l0 (E e) s" for e s
    using assms(3) by (auto simp: since_def)
qed auto

lemma live_triple:
  assumes "\<And>file l. A l \<Longrightarrow> Q (mounts_of file) (EvMountinfo file # l)"
  shows "triple (since l0 A) live_mounts (ok_then (\<lambda>es. since l0 (Q es)) (\<lambda>e. since l0 (E e)))"
  unfolding live_mounts_def
proof (rule triple_andthen)
  show "triple (since l0 A) (ask h_mountinfo EvMountinfo)
      (ok_then (\<lambda>file. since l0 (Q (mounts_of file))) (\<lambda>e. since l0 (E e)))"
    by (rule triple_ask) (auto simp: since_def intro: assms)
  show "triple (since l0 (Q (mounts_of f))) (ret (mounts_of f))
      (ok_then (\<lambda>es. since l0 (Q es)) (\<lambda>e. since l0 (E e)))" for f
    by (rule triple_ret)
qed

lemma release_triple:
  assumes "\<And>new l. A l \<Longrightarrow> list_all (is_release how p) new \<Longrightarrow> list_ex (released how p) new \<Longrightarrow> Q (new @ l)"
    "\<And>new l e. A l \<Longrightarrow> list_all (is_release how p) new \<Longrightarrow> new \<noteq> [] \<Longrightarrow> release_error e \<Longrightarrow> E e (new @ l)"
  shows "triple (since l0 A) (release_point p how) (ok_then (\<lambda>_. since l0 Q) (\<lambda>e. since l0 (E e)))"
  unfolding release_point_def fusermount_def
proof (rule triple_andthen)
  define B where "B out l = (\<exists>new l'. l = new @ l' \<and> A l' \<and> new \<noteq> [] \<and> list_all (is_release how p) new
      \<and> (\<forall>err. out = Exited True err \<longrightarrow> list_ex (released how p) new))" for out l
  define finish where "finish out = (case out of Exited ok stderr \<Rightarrow>
           if ok then ret ()
           else fail (Busy (from_utf8_lossy p @ '' could not be unmounted: ''
                  @ rev (dropWhile (\<lambda>c. c = CHR ''.'') (rev (trim (from_utf8_lossy stderr))))))
       | RunErr e \<Rightarrow> fail (Supervision (''running fusermount for '' @ from_utf8_lossy p) (Some (io_text e))))" for out
  show "triple (since l0 A) (run_program ''fusermount3'' (release_args how p))
      (ok_then (\<lambda>out. since l0 (B out)) (\<lambda>e. since l0 (E e)))"
    unfolding run_program_def
  proof (rule triple_ask)
    fix s out and t :: sys
    assume "since l0 A s" "sy_log t = EvRun ''fusermount3'' (release_args how p) out # sy_log s"
    then obtain l where "A l" "sy_log t = (EvRun ''fusermount3'' (release_args how p) out # l) @ l0"
      by (auto simp: since_def)
    moreover from this have "B out (EvRun ''fusermount3'' (release_args how p) out # l)"
      unfolding B_def by (intro exI [of _ "[EvRun ''fusermount3'' (release_args how p) out]"] exI [of _ l])
        (simp add: is_release_def released_def)
    ultimately show "since l0 (B out) t" unfolding since_def by blast
  qed
  fix out
  show "triple (since l0 (B out))
      (andthen (if out = RunErr IoNotFound then run_program ''fusermount'' (release_args how p) else ret out) finish)
      (ok_then (\<lambda>_. since l0 Q) (\<lambda>e. since l0 (E e)))"
  proof (rule triple_andthen)
    show "triple (since l0 (B out))
        (if out = RunErr IoNotFound then run_program ''fusermount'' (release_args how p) else ret out)
        (ok_then (\<lambda>out. since l0 (B out)) (\<lambda>e. since l0 (E e)))"
    proof (rule triple_if)
      show "triple (since l0 (B out)) (run_program ''fusermount'' (release_args how p))
          (ok_then (\<lambda>out. since l0 (B out)) (\<lambda>e. since l0 (E e)))"
        unfolding run_program_def
      proof (rule triple_ask)
        fix s out' and t :: sys
        assume "since l0 (B out) s" "sy_log t = EvRun ''fusermount'' (release_args how p) out' # sy_log s"
        then obtain new l where l: "A l" "list_all (is_release how p) new"
            "sy_log t = ((EvRun ''fusermount'' (release_args how p) out' # new) @ l) @ l0"
          by (auto simp: since_def B_def)
        then have "B out' ((EvRun ''fusermount'' (release_args how p) out' # new) @ l)"
          unfolding B_def
          by (intro exI [of _ "EvRun ''fusermount'' (release_args how p) out' # new"] exI [of _ l])
            (simp add: is_release_def released_def)
        with l(3) show "since l0 (B out') t" unfolding since_def by blast
      qed
    qed (rule triple_ret)
    fix out
    show "triple (since l0 (B out)) (finish out) (ok_then (\<lambda>_. since l0 Q) (\<lambda>e. since l0 (E e)))"
    proof -
      have good: "since l0 (B (Exited True err)) s \<Longrightarrow> since l0 Q s" for err s
        using assms(1) unfolding since_def B_def by blast
      have bad: "since l0 (B out) s \<Longrightarrow> release_error e \<Longrightarrow> since l0 (E e) s" for s e
        using assms(2) unfolding since_def B_def by blast
      show ?thesis
        by (cases out) (auto simp: finish_def release_error_def intro!: triple_ret triple_fail good bad)
    qed
  qed
qed

lemma release_behaves: "behaves (is_release how p) release_error (release_point p how)"
  by (auto simp: release_point_def fusermount_def run_program_def is_release_def release_error_def
      intro!: behave split: run_result.split)

lemma gone_triple:
  assumes "\<And>new l. A l \<Longrightarrow> list_all question new \<Longrightarrow> A (new @ l)"
  shows "triple (since l0 A) (await_gone p ms)
    (ok_then (\<lambda>gone. since l0 (\<lambda>l. A l \<and> (gone \<longrightarrow> list_ex (taken_gone p) l))) (\<lambda>e. since l0 (E e)))"
  unfolding await_gone_def
proof (rule triple_andthen)
  have one: "A l \<Longrightarrow> question e \<Longrightarrow> A (e # l)" for e l using assms [of l "[e]"] by simp
  show "triple (since l0 A) clock_now (ok_then (\<lambda>_. since l0 A) (\<lambda>e. since l0 (E e)))"
    by (simp add: triple_def clock_now_def)
  fix start
  show "triple (since l0 A)
     (poll_until (andthen live_mounts (\<lambda>es. ret (if is_mounted_at es p then None else Some True)))
       POLL_INTERVAL (start + ms) (ret False))
     (ok_then (\<lambda>gone. since l0 (\<lambda>l. A l \<and> (gone \<longrightarrow> list_ex (taken_gone p) l))) (\<lambda>e. since l0 (E e)))"
  proof (rule triple_poll)
    have seen: "triple (since l0 A) live_mounts
        (ok_then (\<lambda>es. since l0 (\<lambda>l. A l \<and> (\<not> is_mounted_at es p \<longrightarrow> list_ex (taken_gone p) l)))
          (\<lambda>e. since l0 (E e)))"
      by (rule live_triple) (auto simp: taken_gone_def intro: one)
    show "triple (since l0 A) (andthen live_mounts (\<lambda>es. ret (if is_mounted_at es p then None else Some True)))
       (ok_then (\<lambda>r s. case r of None \<Rightarrow> since l0 A s
          | Some gone \<Rightarrow> since l0 (\<lambda>l. A l \<and> (gone \<longrightarrow> list_ex (taken_gone p) l)) s) (\<lambda>e. since l0 (E e)))"
      by (rule triple_andthen [OF seen], rule triple_ret) (auto simp: since_def)
    show "since l0 A s \<Longrightarrow> sy_log t = EvSleep # sy_log s \<Longrightarrow> since l0 A t" for s t
      using since_grow [of l0 A s t "[EvSleep]" A] one [of _ EvSleep] by simp
  qed (auto simp: since_def intro!: triple_ret)
qed


section \<open>Taking a mount down\<close>

definition is_stop :: "event \<Rightarrow> bool" where
  "is_stop e = (\<exists>u r. e = EvStopUnit u r)"

definition stop_of :: "string \<Rightarrow> event \<Rightarrow> bool" where
  "stop_of u e = (\<exists>r. e = EvStopUnit u r)"

text \<open>What may come before the unit is signalled: the kernel let go, shows nothing, or was overruled.\<close>

definition cleared :: "target \<Rightarrow> bool \<Rightarrow> log \<Rightarrow> bool" where
  "cleared t force l =
     (list_ex (released Refuse (tg_point t)) l \<or> list_ex (taken_gone (tg_point t)) l
      \<or> force \<and> list_ex (is_release Refuse (tg_point t)) l)"

definition stopped :: "target \<Rightarrow> bool \<Rightarrow> log \<Rightarrow> bool" where
  "stopped t force l = (force \<and> list_ex (stop_of (tg_unit t)) l)"

definition first_steps :: "target \<Rightarrow> event \<Rightarrow> bool" where
  "first_steps t e = (question e \<or> is_release Refuse (tg_point t) e)"

definition allowed :: "target \<Rightarrow> event \<Rightarrow> bool" where
  "allowed t e = (question e \<or> is_release Refuse (tg_point t) e \<or> is_release Detach (tg_point t) e
     \<or> stop_of (tg_unit t) e \<or> (\<exists>r. e = EvResetFailed (tg_unit t) r))"

definition orderly :: "target \<Rightarrow> bool \<Rightarrow> log \<Rightarrow> bool" where
  "orderly t force l =
     (list_all (allowed t) l \<and> guarded is_stop (cleared t force) l
      \<and> guarded (is_release Detach (tg_point t)) (stopped t force) l)"

lemma release_not_question: "is_release how p e \<Longrightarrow> \<not> question e"
  by (auto simp: is_release_def)

lemma release_not_stop: "is_release how p e \<Longrightarrow> \<not> is_stop e"
  by (auto simp: is_release_def is_stop_def)

lemma refuse_not_detach: "is_release Refuse p e \<Longrightarrow> \<not> is_release Detach q e"
  by (auto simp: is_release_def release_args_def)

lemma question_not_stop: "question e \<Longrightarrow> \<not> is_stop e"
  by (auto simp: is_stop_def)

lemma first_steps_orderly: "list_all (first_steps t) l \<Longrightarrow> orderly t force l"
  by (induction l)
    (auto simp: orderly_def first_steps_def allowed_def
      dest: release_not_question release_not_stop refuse_not_detach question_not_stop)

lemma questions_first_steps: "list_all question l \<Longrightarrow> list_all (first_steps t) l"
  by (auto simp: list_all_iff first_steps_def)

lemma cleared_grows: "cleared t force l \<Longrightarrow> cleared t force (new @ l)"
  by (auto simp: cleared_def)

lemma stopped_grows: "stopped t force l \<Longrightarrow> stopped t force (new @ l)"
  by (auto simp: stopped_def)

lemma orderly_append_first: "orderly t force l \<Longrightarrow> list_all (first_steps t) new \<Longrightarrow> orderly t force (new @ l)"
proof (induction new)
  case (Cons e new)
  then show ?case
    by (auto simp: orderly_def first_steps_def allowed_def
        dest: release_not_question release_not_stop refuse_not_detach question_not_stop)
qed simp

lemma orderly_questions: "orderly t force l \<Longrightarrow> list_all question new \<Longrightarrow> orderly t force (new @ l)"
  by (blast intro: orderly_append_first questions_first_steps)

definition down_error :: "target \<Rightarrow> bool \<Rightarrow> supervisor_error \<Rightarrow> log \<Rightarrow> bool" where
  "down_error t force e l = (orderly t force l \<and> (release_error e \<or> list_all question l))"

lemma ask_the_kernel_triple:
  assumes "may_detach \<longrightarrow> force"
  shows "triple (since l0 (list_all question)) (ask_the_kernel t may_detach)
    (ok_then (\<lambda>_. since l0 (\<lambda>l. list_all (first_steps t) l \<and> cleared t force l))
      (\<lambda>e. since l0 (down_error t force e)))"
  unfolding ask_the_kernel_def
proof (rule triple_andthen)
  define A where "A r l = (list_all (first_steps t) l \<and> list_ex (is_release Refuse (tg_point t)) l
      \<and> (case r of Inr _ \<Rightarrow> list_ex (released Refuse (tg_point t)) l | Inl e \<Rightarrow> release_error e))"
    for l and r :: "supervisor_error + unit"
  have more: "list_all question l \<Longrightarrow> list_all (is_release Refuse (tg_point t)) new
      \<Longrightarrow> list_all (first_steps t) (new @ l)" for l new
    by (auto simp: list_all_iff first_steps_def)
  show "triple (since l0 (list_all question)) (attempt (release_point (tg_point t) Refuse))
      (ok_then (\<lambda>r. since l0 (A r)) (\<lambda>e. since l0 (down_error t force e)))"
  proof (rule triple_attempt, rule triple_weaken [where Q' = "\<lambda>_. since l0 (A (Inr ()))"], rule release_triple)
    fix new l
    assume l: "list_all question l" "list_all (is_release Refuse (tg_point t)) new"
    show "list_ex (released Refuse (tg_point t)) new \<Longrightarrow> A (Inr ()) (new @ l)"
      using more [OF l] by (auto simp: A_def list_ex_iff released_def is_release_def)
    show "new \<noteq> [] \<Longrightarrow> release_error e \<Longrightarrow> A (Inl e) (new @ l)" for e
      using more [OF l] l(2) by (cases new) (auto simp: A_def)
  qed auto
  fix r
  show "triple (since l0 (A r))
     (case r of Inl e \<Rightarrow> andthen live_mounts (\<lambda>es. if \<not> is_mounted_at es (tg_point t) then ret ()
         else if may_detach then ret () else fail (refused (tg_point t) e)) | Inr _ \<Rightarrow> ret ())
     (ok_then (\<lambda>_. since l0 (\<lambda>l. list_all (first_steps t) l \<and> cleared t force l))
       (\<lambda>e. since l0 (down_error t force e)))"
  proof (cases r)
    case (Inr u)
    then show ?thesis by (auto intro!: triple_ret simp: since_def A_def cleared_def)
  next
    case (Inl e)
    have seen: "triple (since l0 (A (Inl e))) live_mounts
        (ok_then (\<lambda>es. since l0 (\<lambda>l. A (Inl e) l \<and> (\<not> is_mounted_at es (tg_point t)
            \<longrightarrow> list_ex (taken_gone (tg_point t)) l)))
          (\<lambda>e. since l0 (down_error t force e)))"
      by (rule live_triple) (auto simp: A_def taken_gone_def first_steps_def)
    have "triple (since l0 (\<lambda>l. A (Inl e) l \<and> (\<not> is_mounted_at es (tg_point t)
            \<longrightarrow> list_ex (taken_gone (tg_point t)) l)))
        (if \<not> is_mounted_at es (tg_point t) then ret ()
         else if may_detach then ret () else fail (refused (tg_point t) e))
        (ok_then (\<lambda>_. since l0 (\<lambda>l. list_all (first_steps t) l \<and> cleared t force l))
          (\<lambda>e. since l0 (down_error t force e)))" for es
      using assms by (intro triple_if triple_ret triple_fail)
        (auto simp: since_def A_def cleared_def down_error_def release_error_refused first_steps_orderly)
    with seen show ?thesis by (simp add: Inl triple_andthen)
  qed
qed


lemma asks_check_source: "behaves question any_error (check_source t status)"
  by (auto simp: check_source_def intro!: behave asks_live [THEN behaves_weaken]
      asks_argv_point [THEN behaves_weaken] split: option.split)

definition stop_events :: "string \<Rightarrow> event \<Rightarrow> bool" where
  "stop_events u e = (question e \<or> stop_of u e)"

lemma stop_behaves: "behaves (stop_events u) is_supervision (unit_stop u)"
  by (auto simp: unit_stop_def stop_events_def stop_of_def intro!: basic)

lemma reset_behaves: "behaves (\<lambda>e. question e \<or> (\<exists>r. e = EvResetFailed u r)) is_supervision (reset_failed u)"
  by (auto simp: reset_failed_def intro!: basic)

text \<open>Stopping a unit that was cleared is orderly, and a stop that returns was sent.\<close>

lemma stop_sends:
  "triple (since l0 A) (unit_stop u)
    (ok_then (\<lambda>_. since l0 (\<lambda>l. \<exists>new l'. l = new @ l' \<and> A l' \<and> list_all (stop_events u) new \<and> list_ex (stop_of u) new))
      (\<lambda>e. since l0 (\<lambda>l. is_supervision e \<and> (\<exists>new l'. l = new @ l' \<and> A l' \<and> list_all (stop_events u) new))))"
  unfolding unit_stop_def
proof (rule triple_andthen)
  let ?E = "\<lambda>e. since l0 (\<lambda>l. is_supervision e \<and> (\<exists>new l'. l = new @ l' \<and> A l' \<and> list_all (stop_events u) new))"
  have manager: "behaves question is_supervision manager" by (auto intro!: basic)
  show "triple (since l0 A) manager
      (ok_then (\<lambda>_. since l0 (\<lambda>l. \<exists>new l'. l = new @ l' \<and> A l' \<and> list_all (stop_events u) new)) ?E)"
    by (rule since_keeps [OF manager]) (auto simp: stop_events_def list_all_iff)
  fix a
  show "triple (since l0 (\<lambda>l. \<exists>new l'. l = new @ l' \<and> A l' \<and> list_all (stop_events u) new))
      (andthen (ask (\<lambda>H l. h_stop H l u) (EvStopUnit u)) (\<lambda>r. case r of
         None \<Rightarrow> ret ()
       | Some e \<Rightarrow> if no_such_unit e \<or> says_not_loaded e then ret ()
                   else fail (supervision (''stopping unit '' @ u) e)))
      (ok_then (\<lambda>_. since l0 (\<lambda>l. \<exists>new l'. l = new @ l' \<and> A l' \<and> list_all (stop_events u) new \<and> list_ex (stop_of u) new)) ?E)"
  proof (rule triple_andthen)
    let ?B = "since l0 (\<lambda>l. \<exists>new l'. l = new @ l' \<and> A l' \<and> list_all (stop_events u) new \<and> list_ex (stop_of u) new)"
    show "triple (since l0 (\<lambda>l. \<exists>new l'. l = new @ l' \<and> A l' \<and> list_all (stop_events u) new))
        (ask (\<lambda>H l. h_stop H l u) (EvStopUnit u)) (ok_then (\<lambda>_. ?B) ?E)"
    proof (rule triple_ask)
      fix s r and t :: sys
      assume "since l0 (\<lambda>l. \<exists>new l'. l = new @ l' \<and> A l' \<and> list_all (stop_events u) new) s"
        "sy_log t = EvStopUnit u r # sy_log s"
      then obtain new l' where "A l'" "list_all (stop_events u) new"
          "sy_log t = ((EvStopUnit u r # new) @ l') @ l0" by (auto simp: since_def)
      then show "?B t" unfolding since_def
        by (intro exI [of _ "(EvStopUnit u r # new) @ l'"] conjI exI [of _ "EvStopUnit u r # new"] exI [of _ l'])
          (simp_all add: stop_events_def stop_of_def)
    qed
    fix r
    show "triple ?B (case r of None \<Rightarrow> ret () | Some e \<Rightarrow> if no_such_unit e \<or> says_not_loaded e then ret ()
        else fail (supervision (''stopping unit '' @ u) e)) (ok_then (\<lambda>_. ?B) ?E)"
      by (cases r) (auto 4 5 intro!: triple_ret triple_fail simp: since_def)
  qed
qed

lemma orderly_stop:
  "orderly t force l \<Longrightarrow> cleared t force l \<Longrightarrow> list_all (stop_events (tg_unit t)) new \<Longrightarrow> orderly t force (new @ l)"
proof (induction new)
  case (Cons e new)
  then have "cleared t force (new @ l)" by (simp add: cleared_grows)
  with Cons show ?case
    by (auto simp: orderly_def stop_events_def allowed_def stop_of_def is_release_def is_stop_def)
qed simp

lemma orderly_reset:
  "orderly t force l \<Longrightarrow> list_all (\<lambda>e. question e \<or> (\<exists>r. e = EvResetFailed (tg_unit t) r)) new
    \<Longrightarrow> orderly t force (new @ l)"
  by (induction new) (auto simp: orderly_def allowed_def is_release_def is_stop_def)

definition halted :: "target \<Rightarrow> bool \<Rightarrow> log \<Rightarrow> bool" where
  "halted t force l = (orderly t force l \<and> list_ex (stop_of (tg_unit t)) l)"

lemma halted_questions: "halted t force l \<Longrightarrow> list_all question new \<Longrightarrow> halted t force (new @ l)"
  by (auto simp: halted_def orderly_questions)

lemma supervision_down_error:
  "is_supervision e \<Longrightarrow> orderly t force l \<Longrightarrow> down_error t force e l"
  by (simp add: down_error_def supervision_release_error)

lemma reset_triple:
  assumes "\<And>new l. A l \<Longrightarrow> list_all (\<lambda>e. question e \<or> (\<exists>r. e = EvResetFailed (tg_unit t) r)) new \<Longrightarrow> A (new @ l)"
    and "\<And>l. A l \<Longrightarrow> orderly t force l"
  shows "triple (since l0 A) (reset_failed (tg_unit t)) (ok_then (\<lambda>_. since l0 A) (\<lambda>e. since l0 (down_error t force e)))"
  by (rule since_keeps [OF reset_behaves]) (auto intro: assms supervision_down_error)

lemma stop_unit_triple:
  "triple (since l0 (\<lambda>l. list_all (first_steps t) l \<and> cleared t force l
        \<and> (\<not> live \<longrightarrow> list_ex (taken_gone (tg_point t)) l)))
      (stop_unit S t live)
      (ok_then (\<lambda>finished. since l0 (\<lambda>l. halted t force l \<and> (finished \<longrightarrow> list_ex (taken_gone (tg_point t)) l)))
        (\<lambda>e. since l0 (down_error t force e)))"
  unfolding stop_unit_def
proof (rule triple_andthen)
  let ?E = "\<lambda>e. since l0 (down_error t force e)"
  define B where "B l = (halted t force l \<and> (\<not> live \<longrightarrow> list_ex (taken_gone (tg_point t)) l))" for l
  define C where "C l = (halted t force l \<and> list_ex (taken_gone (tg_point t)) l)" for l
  show "triple (since l0 (\<lambda>l. list_all (first_steps t) l \<and> cleared t force l
        \<and> (\<not> live \<longrightarrow> list_ex (taken_gone (tg_point t)) l)))
      (unit_stop (tg_unit t)) (ok_then (\<lambda>_. since l0 B) ?E)"
    by (rule triple_weaken [OF stop_sends])
      (auto simp: since_def B_def halted_def down_error_def first_steps_orderly orderly_stop
        supervision_release_error)
  show "triple (since l0 B)
     (andthen (if \<not> live then ret True else await_gone (tg_point t) (sp_gone_timeout S)) (\<lambda>gone.
       if \<not> gone then ret False
       else andthen (await_unit_gone (tg_unit t) (sp_unit_gone_timeout S)) (\<lambda>_.
         andthen (reset_failed (tg_unit t)) (\<lambda>_. ret True))))
     (ok_then (\<lambda>finished. since l0 (\<lambda>l. halted t force l \<and> (finished \<longrightarrow> list_ex (taken_gone (tg_point t)) l))) ?E)"
  proof (rule triple_andthen)
    show "triple (since l0 B) (if \<not> live then ret True else await_gone (tg_point t) (sp_gone_timeout S))
        (ok_then (\<lambda>gone. since l0 (\<lambda>l. B l \<and> (gone \<longrightarrow> list_ex (taken_gone (tg_point t)) l))) ?E)"
    proof (rule triple_if)
      show "\<not> live \<Longrightarrow> triple (since l0 B) (ret True)
          (ok_then (\<lambda>gone. since l0 (\<lambda>l. B l \<and> (gone \<longrightarrow> list_ex (taken_gone (tg_point t)) l))) ?E)"
        by (rule triple_ret) (auto simp: since_def B_def)
    qed (rule gone_triple, auto simp: B_def halted_questions)
    fix gone
    show "triple (since l0 (\<lambda>l. B l \<and> (gone \<longrightarrow> list_ex (taken_gone (tg_point t)) l)))
       (if \<not> gone then ret False
        else andthen (await_unit_gone (tg_unit t) (sp_unit_gone_timeout S)) (\<lambda>_.
          andthen (reset_failed (tg_unit t)) (\<lambda>_. ret True)))
       (ok_then (\<lambda>finished. since l0 (\<lambda>l. halted t force l \<and> (finished \<longrightarrow> list_ex (taken_gone (tg_point t)) l))) ?E)"
    proof (rule triple_if)
      show "triple (since l0 (\<lambda>l. B l \<and> (gone \<longrightarrow> list_ex (taken_gone (tg_point t)) l)))
         (ret False) (ok_then (\<lambda>finished. since l0 (\<lambda>l. halted t force l \<and> (finished \<longrightarrow> list_ex (taken_gone (tg_point t)) l))) ?E)"
        by (rule triple_ret) (auto simp: since_def B_def)
      assume "\<not> \<not> gone"
      then have start: "since l0 (\<lambda>l. B l \<and> (gone \<longrightarrow> list_ex (taken_gone (tg_point t)) l)) s \<Longrightarrow> since l0 C s" for s
        by (auto simp: since_def B_def C_def)
      have wait: "triple (since l0 C) (await_unit_gone (tg_unit t) (sp_unit_gone_timeout S))
          (ok_then (\<lambda>_. since l0 C) ?E)"
        by (rule since_keeps [OF asks_unit_gone])
          (auto simp: C_def halted_def intro: supervision_down_error orderly_questions)
      have reset: "triple (since l0 C) (reset_failed (tg_unit t)) (ok_then (\<lambda>_. since l0 C) ?E)"
        by (rule reset_triple) (auto simp: C_def halted_def orderly_reset)
      have "triple (since l0 C) (andthen (await_unit_gone (tg_unit t) (sp_unit_gone_timeout S)) (\<lambda>_.
          andthen (reset_failed (tg_unit t)) (\<lambda>_. ret True)))
          (ok_then (\<lambda>finished. since l0 (\<lambda>l. halted t force l \<and> (finished \<longrightarrow> list_ex (taken_gone (tg_point t)) l))) ?E)"
        by (rule triple_andthen [OF wait], rule triple_andthen [OF reset], rule triple_ret)
          (auto simp: since_def C_def)
      then show "triple (since l0 (\<lambda>l. B l \<and> (gone \<longrightarrow> list_ex (taken_gone (tg_point t)) l)))
         (andthen (await_unit_gone (tg_unit t) (sp_unit_gone_timeout S)) (\<lambda>_.
          andthen (reset_failed (tg_unit t)) (\<lambda>_. ret True)))
         (ok_then (\<lambda>finished. since l0 (\<lambda>l. halted t force l \<and> (finished \<longrightarrow> list_ex (taken_gone (tg_point t)) l))) ?E)"
        by (rule triple_weaken) (auto intro: start)
    qed
  qed
qed


lemma orderly_refuse:
  "orderly t force l \<Longrightarrow> list_all (is_release Refuse (tg_point t)) new \<Longrightarrow> orderly t force (new @ l)"
  by (rule orderly_append_first) (auto simp: first_steps_def list_all_iff)

lemma orderly_detach:
  "orderly t force l \<Longrightarrow> stopped t force l \<Longrightarrow> list_all (is_release Detach (tg_point t)) new
    \<Longrightarrow> orderly t force (new @ l)"
proof (induction new)
  case (Cons e new)
  then have "stopped t force (new @ l)" by (simp add: stopped_grows)
  with Cons show ?case by (auto simp: orderly_def allowed_def dest: release_not_stop)
qed simp

lemma last_resort_triple:
  fixes t force defines "A may_detach \<equiv> \<lambda>l. orderly t force l \<and> (may_detach \<longrightarrow> stopped t force l)"
  shows "triple (since l0 (A may_detach)) (last_resort t may_detach)
    (ok_then (\<lambda>_. since l0 (\<lambda>l. orderly t force l \<and> list_ex (taken_gone (tg_point t)) l))
      (\<lambda>e. since l0 (down_error t force e)))"
  unfolding last_resort_def
proof (rule triple_andthen)
  let ?E = "\<lambda>e. since l0 (down_error t force e)"
  let ?Q = "\<lambda>l. orderly t force l \<and> list_ex (taken_gone (tg_point t)) l"
  define B where "B es l = (A may_detach l \<and> (\<not> is_mounted_at es (tg_point t) \<longrightarrow> list_ex (taken_gone (tg_point t)) l))" for es l
  have A_questions: "A md l \<Longrightarrow> list_all question new \<Longrightarrow> A md (new @ l)" for md l new
    by (auto simp: A_def stopped_grows orderly_questions)
  have A_refuse: "A md l \<Longrightarrow> list_all (is_release Refuse (tg_point t)) new \<Longrightarrow> A md (new @ l)" for md l new
    by (auto simp: A_def stopped_grows orderly_refuse)
  show "triple (since l0 (A may_detach)) live_mounts (ok_then (\<lambda>es. since l0 (B es)) ?E)"
  proof (rule live_triple)
    fix f l assume "A may_detach l"
    then show "B (mounts_of f) (EvMountinfo f # l)"
      using A_questions [of may_detach l "[EvMountinfo f]"] by (auto simp: B_def taken_gone_def)
  qed
  fix es
  show "triple (since l0 (B es))
     (if \<not> is_mounted_at es (tg_point t) then ret ()
      else andthen (attempt (release_point (tg_point t) Refuse)) (\<lambda>r.
        andthen (case r of Inr _ \<Rightarrow> ret ()
                 | Inl e \<Rightarrow> if \<not> may_detach then fail (refused (tg_point t) e)
                            else release_point (tg_point t) Detach) (\<lambda>_.
        andthen (await_gone (tg_point t) 10000) (\<lambda>gone.
          if gone then reset_failed (tg_unit t) else fail (Busy (msg_still_mounted (tg_point t)))))))
     (ok_then (\<lambda>_. since l0 ?Q) ?E)"
  proof (rule triple_if)
    show "\<not> is_mounted_at es (tg_point t) \<Longrightarrow> triple (since l0 (B es)) (ret ()) (ok_then (\<lambda>_. since l0 ?Q) ?E)"
      by (rule triple_ret) (auto simp: since_def B_def A_def)
    have tried: "triple (since l0 (B es)) (attempt (release_point (tg_point t) Refuse))
        (ok_then (\<lambda>r. since l0 (\<lambda>l. A may_detach l \<and> (case r of Inl e \<Rightarrow> release_error e | Inr _ \<Rightarrow> True))) ?E)"
      by (rule triple_attempt, rule triple_weaken [where Q' = "\<lambda>_. since l0 (A may_detach)"],
        rule release_triple) (auto simp: B_def A_refuse)
    have forced: "triple (since l0 (\<lambda>l. A may_detach l \<and> (case r of Inl e \<Rightarrow> release_error e | Inr _ \<Rightarrow> True)))
        (case r of Inr _ \<Rightarrow> ret ()
         | Inl e \<Rightarrow> if \<not> may_detach then fail (refused (tg_point t) e) else release_point (tg_point t) Detach)
        (ok_then (\<lambda>_. since l0 (orderly t force)) ?E)" for r :: "supervisor_error + unit"
    proof (cases r)
      case (Inl e)
      have "triple (since l0 (\<lambda>l. A may_detach l \<and> release_error e))
          (release_point (tg_point t) Detach) (ok_then (\<lambda>_. since l0 (orderly t force)) ?E)" if may_detach
        by (rule release_triple) (use that in \<open>auto simp: A_def orderly_detach down_error_def\<close>)
      moreover have "triple (since l0 (\<lambda>l. A may_detach l \<and> release_error e))
          (fail (refused (tg_point t) e)) (ok_then (\<lambda>_. since l0 (orderly t force)) ?E)"
        by (rule triple_fail) (auto simp: since_def A_def down_error_def release_error_refused)
      ultimately show ?thesis unfolding Inl by (cases may_detach) simp_all
    qed (auto intro!: triple_ret simp: since_def A_def)
    have waited: "triple (since l0 (orderly t force)) (await_gone (tg_point t) 10000)
        (ok_then (\<lambda>gone. since l0 (\<lambda>l. orderly t force l \<and> (gone \<longrightarrow> list_ex (taken_gone (tg_point t)) l))) ?E)"
      by (rule gone_triple) (rule orderly_questions)
    have reset: "triple (since l0 ?Q) (reset_failed (tg_unit t)) (ok_then (\<lambda>_. since l0 ?Q) ?E)"
      by (rule reset_triple) (auto simp: orderly_reset)
    have finish: "triple (since l0 (\<lambda>l. orderly t force l \<and> (gone \<longrightarrow> list_ex (taken_gone (tg_point t)) l)))
        (if gone then reset_failed (tg_unit t) else fail (Busy (msg_still_mounted (tg_point t))))
        (ok_then (\<lambda>_. since l0 ?Q) ?E)" for gone
      using reset by (cases gone) (auto intro!: triple_fail simp: since_def down_error_def release_error_def)
    show "triple (since l0 (B es))
       (andthen (attempt (release_point (tg_point t) Refuse)) (\<lambda>r.
        andthen (case r of Inr _ \<Rightarrow> ret ()
                 | Inl e \<Rightarrow> if \<not> may_detach then fail (refused (tg_point t) e)
                            else release_point (tg_point t) Detach) (\<lambda>_.
        andthen (await_gone (tg_point t) 10000) (\<lambda>gone.
          if gone then reset_failed (tg_unit t) else fail (Busy (msg_still_mounted (tg_point t)))))))
       (ok_then (\<lambda>_. since l0 ?Q) ?E)"
      by (rule triple_andthen [OF tried], rule triple_andthen [OF forced], rule triple_andthen [OF waited],
        rule finish)
  qed
qed

lemma early_error: "list_all question l \<Longrightarrow> down_error t force e l"
  by (simp add: down_error_def first_steps_orderly questions_first_steps)

definition looked :: "target \<Rightarrow> bool \<Rightarrow> log \<Rightarrow> bool" where
  "looked t live l = (list_all question l \<and> (\<not> live \<longrightarrow> list_ex (taken_gone (tg_point t)) l))"

lemma looked_questions: "looked t live l \<Longrightarrow> list_all question new \<Longrightarrow> looked t live (new @ l)"
  by (auto simp: looked_def)

lemma release_first_triple:
  "triple (since l0 (looked t live)) (release_first t force live status)
    (ok_then (\<lambda>_. since l0 (\<lambda>l. list_all (first_steps t) l \<and> cleared t force l
        \<and> (\<not> live \<longrightarrow> list_ex (taken_gone (tg_point t)) l)))
      (\<lambda>e. since l0 (down_error t force e)))"
  unfolding release_first_def
proof (rule triple_if)
  let ?E = "\<lambda>e. since l0 (down_error t force e)"
  let ?C = "\<lambda>l. list_all (first_steps t) l \<and> cleared t force l \<and> (\<not> live \<longrightarrow> list_ex (taken_gone (tg_point t)) l)"
  show "\<not> live \<Longrightarrow> triple (since l0 (looked t live)) (ret ()) (ok_then (\<lambda>_. since l0 ?C) ?E)"
    by (rule triple_ret) (auto simp: since_def looked_def questions_first_steps cleared_def)
  have "behaves question any_error (if force then andthen live_mounts (\<lambda>_. ret ()) else check_source t status)"
    by (auto intro!: behave asks_check_source asks_live [THEN behaves_weaken])
  then have checked: "triple (since l0 (looked t live))
      (if force then andthen live_mounts (\<lambda>_. ret ()) else check_source t status)
      (ok_then (\<lambda>_. since l0 (list_all question)) ?E)"
    by (rule since_keeps) (auto simp: looked_def intro: early_error)
  have kernel: "triple (since l0 (list_all question)) (ask_the_kernel t (force \<and> status \<noteq> UInactive))
      (ok_then (\<lambda>_. since l0 (\<lambda>l. list_all (first_steps t) l \<and> cleared t force l)) ?E)"
    by (rule ask_the_kernel_triple) simp
  show "\<not> \<not> live \<Longrightarrow> triple (since l0 (looked t live))
      (andthen (if force then andthen live_mounts (\<lambda>_. ret ()) else check_source t status) (\<lambda>_.
         ask_the_kernel t (force \<and> status \<noteq> UInactive))) (ok_then (\<lambda>_. since l0 ?C) ?E)"
    by (rule triple_weaken [OF triple_andthen [OF checked kernel]]) (auto simp: since_def)
qed

lemma release_and_stop_triple:
  "triple (since l0 (looked t live)) (release_and_stop S t force live status)
    (ok_then (\<lambda>_. since l0 (\<lambda>l. orderly t force l \<and> list_ex (taken_gone (tg_point t)) l))
      (\<lambda>e. since l0 (down_error t force e)))"
  unfolding release_and_stop_def Let_def
proof (rule triple_andthen [OF release_first_triple])
  let ?E = "\<lambda>e. since l0 (down_error t force e)"
  let ?ours = "status \<noteq> UInactive"
  let ?C = "\<lambda>l. list_all (first_steps t) l \<and> cleared t force l \<and> (\<not> live \<longrightarrow> list_ex (taken_gone (tg_point t)) l)"
  let ?D = "\<lambda>finished l. orderly t force l \<and> (?ours \<longrightarrow> list_ex (stop_of (tg_unit t)) l)
     \<and> (finished \<longrightarrow> list_ex (taken_gone (tg_point t)) l)"
  let ?Q = "\<lambda>l. orderly t force l \<and> list_ex (taken_gone (tg_point t)) l"
  have stop: "triple (since l0 ?C) (if ?ours then stop_unit S t live else ret False)
      (ok_then (\<lambda>finished. since l0 (?D finished)) ?E)"
  proof (rule triple_if)
    show "?ours \<Longrightarrow> triple (since l0 ?C) (stop_unit S t live) (ok_then (\<lambda>finished. since l0 (?D finished)) ?E)"
      by (rule triple_weaken [OF stop_unit_triple]) (auto simp: since_def halted_def)
    show "\<not> ?ours \<Longrightarrow> triple (since l0 ?C) (ret False) (ok_then (\<lambda>finished. since l0 (?D finished)) ?E)"
      by (rule triple_ret) (auto simp: since_def first_steps_orderly)
  qed
  have "triple (since l0 (?D finished)) (if finished then ret () else last_resort t (force \<and> ?ours))
      (ok_then (\<lambda>_. since l0 ?Q) ?E)" for finished
  proof (rule triple_if)
    show "finished \<Longrightarrow> triple (since l0 (?D finished)) (ret ()) (ok_then (\<lambda>_. since l0 ?Q) ?E)"
      by (rule triple_ret) (auto simp: since_def)
    show "triple (since l0 (?D finished)) (last_resort t (force \<and> ?ours)) (ok_then (\<lambda>_. since l0 ?Q) ?E)"
      by (rule triple_weaken [OF last_resort_triple]) (auto simp: since_def stopped_def)
  qed
  with stop show "triple (since l0 ?C)
      (andthen (if ?ours then stop_unit S t live else ret False) (\<lambda>finished.
         if finished then ret () else last_resort t (force \<and> ?ours))) (ok_then (\<lambda>_. since l0 ?Q) ?E)" for a
    by (rule triple_andthen)
qed

lemma take_down_triple:
  "triple (since l0 (list_all question)) (take_down S t force)
    (ok_then (\<lambda>_. since l0 (\<lambda>l. orderly t force l \<and> list_ex (taken_gone (tg_point t)) l))
      (\<lambda>e. since l0 (down_error t force e)))"
  unfolding take_down_def Let_def
proof (rule triple_andthen)
  let ?E = "\<lambda>e. since l0 (down_error t force e)"
  let ?live = "\<lambda>es. is_mounted_at es (tg_point t)"
  show "triple (since l0 (list_all question)) live_mounts (ok_then (\<lambda>es. since l0 (looked t (?live es))) ?E)"
    by (rule live_triple) (auto simp: looked_def taken_gone_def)
  fix es
  let ?rest = "\<lambda>status. if ?live es \<and> status = UInactive \<and> \<not> force then fail (NotManaged (tg_name t))
      else if \<not> ?live es \<and> status = UInactive then ret ()
      else release_and_stop S t force (?live es) status"
  have status: "triple (since l0 (looked t (?live es))) (unit_status (tg_unit t))
      (ok_then (\<lambda>_. since l0 (looked t (?live es))) ?E)"
    by (rule since_keeps [OF asks_status]) (auto simp: looked_questions looked_def intro: early_error)
  have "triple (since l0 (looked t (?live es))) (?rest status)
      (ok_then (\<lambda>_. since l0 (\<lambda>l. orderly t force l \<and> list_ex (taken_gone (tg_point t)) l)) ?E)" for status
    by (rule triple_if, rule triple_fail, force simp: since_def looked_def intro: early_error,
      rule triple_if, rule triple_ret,
      force simp: since_def looked_def intro: first_steps_orderly questions_first_steps,
      rule release_and_stop_triple)
  with status show "triple (since l0 (looked t (?live es))) (andthen (unit_status (tg_unit t)) ?rest)
      (ok_then (\<lambda>_. since l0 (\<lambda>l. orderly t force l \<and> list_ex (taken_gone (tg_point t)) l)) ?E)"
    by (rule triple_andthen)
qed

end
