(* ===== verification/Outcomes.thy ===== *)
theory Outcomes
  imports Lifecycle
begin

text \<open>
  The properties of the supervisor: what an unmount may do and in which order, what its
  success and its refusals mean, which units it ever acts on, what a mount may do and what its
  success rests on, what is reported for which mount, and how long the waits last.
\<close>

section \<open>Runs from a state\<close>

lemma run_of_triple:
  assumes "triple (since (sy_log s) (list_all question)) m (ok_then (\<lambda>a. since (sy_log s) (Q a)) (\<lambda>e. since (sy_log s) (E e)))"
    "m H s = (r, s')" "sy_log s' = new @ sy_log s"
  shows "case r of Inl e \<Rightarrow> E e new | Inr a \<Rightarrow> Q a new"
proof -
  have "since (sy_log s) (list_all question) s" by (simp add: since_def)
  then have "ok_then (\<lambda>a. since (sy_log s) (Q a)) (\<lambda>e. since (sy_log s) (E e)) r s'"
    using assms(1,2) unfolding triple_def by (metis fst_conv snd_conv)
  then show ?thesis using assms(3) by (auto simp: since_def split: sum.splits)
qed

lemma down_orderly:
  assumes "take_down S t force H s = (r, s')" "sy_log s' = new @ sy_log s"
  shows "orderly t force new"
  using run_of_triple [OF take_down_triple assms] by (auto simp: down_error_def split: sum.splits)

text \<open>
  C6: The kernel is asked before rclone is signalled: in every run of an unmount a unit is
  stopped only if it is the target's, and only after the kernel let the mount point go, or a mount
  table that was read showed nothing mounted there, or the caller forced it over a refusal; the one
  other way is that the mount table could not be read, which the code takes for an empty one.
\<close>

theorem the_kernel_is_asked_first:
  assumes "take_down S t force H s = (r, s')"
    "sy_log s' = later @ EvStopUnit u res # earlier @ sy_log s"
  shows "u = tg_unit t
    \<and> (list_ex (released Refuse (tg_point t)) earlier \<or> list_ex (shows_gone (tg_point t)) earlier
       \<or> force \<and> list_ex (is_release Refuse (tg_point t)) earlier
       \<or> list_ex table_unread earlier)"
proof -
  have o: "orderly t force (later @ EvStopUnit u res # earlier)"
    using down_orderly [OF assms(1)] assms(2) by simp
  then have "allowed t (EvStopUnit u res)" by (simp add: orderly_def)
  then have "u = tg_unit t" by (auto simp: allowed_def is_release_def stop_of_def)
  moreover have "guarded is_stop (cleared t force) (later @ EvStopUnit u res # earlier)"
    using o by (simp add: orderly_def)
  then have "cleared t force earlier" by (rule guardedD) (simp add: is_stop_def)
  ultimately show ?thesis using taken_gone_read [of "tg_point t" earlier] by (auto simp: cleared_def)
qed

text \<open>
  C8: A lazy detach, which cuts a writer off mid-file, happens only under force, only at the
  target's own mount point, and only after the target's unit was told to stop.
\<close>

theorem detach_comes_last:
  assumes "take_down S t force H s = (r, s')"
    "sy_log s' = later @ EvRun program (release_args Detach p) out # earlier @ sy_log s"
  shows "force \<and> from_utf8_lossy p = from_utf8_lossy (tg_point t) \<and> list_ex (stop_of (tg_unit t)) earlier"
proof -
  let ?e = "EvRun program (release_args Detach p) out"
  have o: "orderly t force (later @ ?e # earlier)"
    using down_orderly [OF assms(1)] assms(2) by simp
  then have "allowed t ?e" by (simp add: orderly_def)
  then have d: "is_release Detach (tg_point t) ?e"
    by (auto simp: allowed_def is_release_def release_args_def stop_of_def)
  have "guarded (is_release Detach (tg_point t)) (stopped t force) (later @ ?e # earlier)"
    using o by (simp add: orderly_def)
  then have "stopped t force earlier" using d by (rule guardedD)
  with d show ?thesis by (auto simp: stopped_def is_release_def release_args_def)
qed

section \<open>A simulated machine\<close>

text \<open>
  A host to run the operations on: one unit and one mount point, whose state follows from the
  events. A stubborn machine refuses every release but a detach.
\<close>

fun machine_unit :: "bool \<Rightarrow> log \<Rightarrow> bool" where
  "machine_unit up [] = up"
| "machine_unit up (EvStartUnit _ _ _ # l) = True"
| "machine_unit up (EvStopUnit _ _ # l) = False"
| "machine_unit up (_ # l) = machine_unit up l"

fun machine_point :: "bool \<Rightarrow> log \<Rightarrow> bool" where
  "machine_point up [] = up"
| "machine_point up (EvStartUnit _ _ _ # l) = True"
| "machine_point up (EvRun _ _ (Exited True _) # l) = False"
| "machine_point up (_ # l) = machine_point up l"

definition backup_entry :: mount_entry where
  "backup_entry = \<lparr>me_point = ''/mnt/backup'', me_source = ''b2:photos'', me_fstype = ''fuse.rclone''\<rparr>"

definition backup_line :: string where
  "backup_line = mount_line [''1'', ''2'', ''0:5'', ''/''] [''rw''] backup_entry [''rw'']"

definition machine :: "bool \<Rightarrow> bool \<Rightarrow> host" where
  "machine up stubborn =
     \<lparr>h_manager = (\<lambda>_. None), h_start = (\<lambda>_ _ _. None), h_stop = (\<lambda>_ _. None), h_reset = (\<lambda>_ _. None),
      h_get_unit = (\<lambda>l _. if machine_unit up l then Inr ''/u''
        else Inl (BusMethod ''org.freedesktop.systemd1.NoSuchUnit'' None [])),
      h_unit_path = (\<lambda>_ _. None), h_unit_open = (\<lambda>_ _. None), h_active_state = (\<lambda>_ _. Inr ''active''),
      h_list_units = (\<lambda>_ _. Inr []), h_service_open = (\<lambda>_ _. None), h_exec_start = (\<lambda>_ _. Inr []),
      h_journal = (\<lambda>_ _. None), h_json = (\<lambda>_. None),
      h_mountinfo = (\<lambda>l. Inr (if machine_point up l then backup_line else [])),
      h_canonicalize = (\<lambda>_ p. Some p), h_probe = (\<lambda>_ _. StatOk),
      h_run = (\<lambda>_ _ args. if stubborn \<and> length args = 2 then Exited False ''busy'' else Exited True []),
      h_metadata = (\<lambda>_ _. Inr True), h_mkdirs = (\<lambda>_ _. None), h_chmod = (\<lambda>_ _ _. None),
      h_exists = (\<lambda>_ _. False), h_current_exe = (\<lambda>_. Inl IoNotFound), h_is_file = (\<lambda>_ _. False),
      h_lock_free = (\<lambda>_ _. True), h_queued = (\<lambda>_ _. False), h_delay = (\<lambda>_. 0)\<rparr>"

lemma machine_simps:
  "h_manager (machine up st) = (\<lambda>_. None)" "h_start (machine up st) = (\<lambda>_ _ _. None)"
  "h_stop (machine up st) = (\<lambda>_ _. None)" "h_reset (machine up st) = (\<lambda>_ _. None)"
  "h_get_unit (machine up st) = (\<lambda>l _. if machine_unit up l then Inr ''/u''
     else Inl (BusMethod ''org.freedesktop.systemd1.NoSuchUnit'' None []))"
  "h_unit_path (machine up st) = (\<lambda>_ _. None)" "h_unit_open (machine up st) = (\<lambda>_ _. None)"
  "h_active_state (machine up st) = (\<lambda>_ _. Inr ''active'')"
  "h_list_units (machine up st) = (\<lambda>_ _. Inr [])"
  "h_mountinfo (machine up st) = (\<lambda>l. Inr (if machine_point up l then backup_line else []))"
  "h_canonicalize (machine up st) = (\<lambda>_ p. Some p)"
  "h_run (machine up st) = (\<lambda>_ _ args. if st \<and> length args = 2 then Exited False ''busy'' else Exited True [])"
  "h_metadata (machine up st) = (\<lambda>_ _. Inr True)" "h_mkdirs (machine up st) = (\<lambda>_ _. None)"
  "h_chmod (machine up st) = (\<lambda>_ _ _. None)" "h_exists (machine up st) = (\<lambda>_ _. False)"
  "h_current_exe (machine up st) = (\<lambda>_. Inl IoNotFound)" "h_lock_free (machine up st) = (\<lambda>_ _. True)"
  "h_queued (machine up st) = (\<lambda>_ _. False)" "h_delay (machine up st) = (\<lambda>_. 0)"
  by (simp_all add: machine_def)

lemmas running = andthen_def ask_def ret_def fail_def attempt_def clock_now_def machine_simps Let_def

definition power_on :: sys where
  "power_on = \<lparr>sy_log = [], sy_clock = 0, sy_locks = []\<rparr>"

definition sample_supervisor :: supervisor where
  "sample_supervisor = (supervisor_new sample_config ''/usr/bin/rclone'' ''/run/u'' ''/c/config.toml'')\<lparr>sp_gone_timeout := 0\<rparr>"

definition backup_target :: target where
  "backup_target = \<lparr>tg_name = ''backup'', tg_unit = ''rvt-mount-backup.service'',
     tg_point = ''/mnt/backup'', tg_fs_spec = ''b2:photos''\<rparr>"

lemma backup_line_parsed: "mounts_of (Inr backup_line) = [backup_entry]"
proof -
  have chars: "list_all (\<lambda>c. (of_char c :: nat) < 128 \<and> c \<noteq> newline) backup_line"
    by (simp add: backup_line_def mount_line_def join_def backup_entry_def kernel_escape_def
        kernel_escape_char_def kernel_special_def)
  have "parse_line backup_line = Some backup_entry"
    unfolding backup_line_def
    by (rule parse_mount_line) (simp_all add: backup_entry_def is_utf8_ascii_Cons is_utf8.simps [of "[]"])
  moreover have "lines backup_line = [backup_line]"
    using chars by (intro lines_single) (auto simp: list_all_iff backup_line_def mount_line_def join_def)
  moreover have "from_utf8_lossy backup_line = backup_line"
    using chars by (intro from_utf8_lossy_ascii) (simp add: list_all_iff)
  ultimately show ?thesis by (simp add: mounts_of_def read_from_def parse_def List.map_filter_def)
qed

lemma nothing_parsed: "mounts_of (Inr []) = []"
  by (simp add: mounts_of_def read_from_def parse_def from_utf8_lossy.simps lines.simps List.map_filter_def)

lemma backup_mounted: "is_mounted_at [backup_entry] ''/mnt/backup''" "\<not> is_mounted_at [] p"
  by (simp_all add: is_mounted_at_def backup_entry_def is_rclone_def RCLONE_FSTYPE_def)

lemma machine_live:
  "live_mounts (machine up st) s =
     (Inr (if machine_point up (sy_log s) then [backup_entry] else []),
      s\<lparr>sy_log := EvMountinfo (Inr (if machine_point up (sy_log s) then backup_line else [])) # sy_log s\<rparr>)"
  by (simp add: live_mounts_def running backup_line_parsed nothing_parsed)

definition status_events :: "bool \<Rightarrow> string \<Rightarrow> log" where
  "status_events up u =
     (if up then [EvActiveState ''/u'' (Inr ''active''), EvUnitOpen ''/u'' None, EvUnitPath ''/u'' None,
        EvGetUnit u (Inr ''/u''), EvManager None]
      else [EvGetUnit u (Inl (BusMethod ''org.freedesktop.systemd1.NoSuchUnit'' None [])), EvManager None])"

lemma no_such_unit_read: "no_such_unit (BusMethod ''org.freedesktop.systemd1.NoSuchUnit'' None [])"
  by (simp add: no_such_unit_def ends_with_def)

lemma machine_status:
  "unit_status u (machine up st) s =
     (Inr (if machine_unit up (sy_log s) then UActive else UInactive),
      s\<lparr>sy_log := status_events (machine_unit up (sy_log s)) u @ sy_log s\<rparr>)"
  using no_such_unit_read
  by (simp add: unit_status_def manager_def running ok_or_fail_def or_fail_def status_events_def
      unit_status_of_def)

lemma machine_release:
  "release_point p how (machine up st) s =
     (if st \<and> how = Refuse
      then (Inl (Busy (from_utf8_lossy p @ '' could not be unmounted: busy'')),
        s\<lparr>sy_log := EvRun ''fusermount3'' (release_args how p) (Exited False ''busy'') # sy_log s\<rparr>)
      else (Inr (), s\<lparr>sy_log := EvRun ''fusermount3'' (release_args how p) (Exited True []) # sy_log s\<rparr>))"
proof -
  have "trim ''busy'' = ''busy''" by code_simp
  then show ?thesis
    by (cases how; cases st)
      (simp_all add: release_point_def fusermount_def run_program_def running release_args_def
        from_utf8_lossy_ascii)
qed

lemma machine_stop:
  "unit_stop u (machine up st) s =
     (Inr (), s\<lparr>sy_log := EvStopUnit u None # EvManager None # sy_log s\<rparr>)"
  by (simp add: unit_stop_def manager_def running ok_or_fail_def)

lemma machine_reset:
  "reset_failed u (machine up st) s =
     (Inr (), s\<lparr>sy_log := EvResetFailed u None # EvManager None # sy_log s\<rparr>)"
  by (simp add: reset_failed_def manager_def running ok_or_fail_def)

lemma machine_unit_gone:
  "\<not> machine_unit up (sy_log s) \<Longrightarrow> await_unit_gone u ms (machine up st) s =
     (Inr (), s\<lparr>sy_log := status_events False u @ sy_log s\<rparr>)"
  unfolding await_unit_gone_def
  by (simp add: andthen_def clock_now_def, subst poll_until.simps) (simp add: andthen_def machine_status ret_def)

lemma machine_gone:
  "\<not> machine_point up (sy_log s) \<Longrightarrow> await_gone ''/mnt/backup'' ms (machine up st) s =
     (Inr True, s\<lparr>sy_log := EvMountinfo (Inr []) # sy_log s\<rparr>)"
  "machine_point up (sy_log s) \<Longrightarrow> await_gone ''/mnt/backup'' 0 (machine up st) s =
     (Inr False, s\<lparr>sy_log := EvMountinfo (Inr backup_line) # sy_log s\<rparr>)"
  unfolding await_gone_def
  by (simp_all add: andthen_def clock_now_def, (subst poll_until.simps, simp add: andthen_def machine_live
      ret_def backup_mounted)+)

lemmas machine_steps = machine_live machine_status machine_release machine_stop machine_reset
  machine_unit_gone backup_mounted

lemma points_after:
  "machine_point up (status_events b u @ l) = machine_point up l"
  "machine_unit up (status_events b u @ l) = machine_unit up l"
  by (simp_all add: status_events_def)

lemma backup_entry_fields:
  "is_rclone backup_entry" "me_point backup_entry = ''/mnt/backup''" "me_source backup_entry = ''b2:photos''"
  by (simp_all add: backup_entry_def is_rclone_def RCLONE_FSTYPE_def)

text \<open>The ordinary unmount: asked, released, stopped, cleared.\<close>

definition asked_log :: log where
  "asked_log =
     EvManager None # EvRun ''fusermount3'' (release_args Refuse ''/mnt/backup'') (Exited True [])
       # EvMountinfo (Inr backup_line) # status_events True ''rvt-mount-backup.service''
       @ [EvMountinfo (Inr backup_line)]"

definition cleared_log :: log where
  "cleared_log =
     [EvResetFailed ''rvt-mount-backup.service'' None, EvManager None]
       @ status_events False ''rvt-mount-backup.service'' @ [EvMountinfo (Inr [])]"

lemma backup_unmounted:
  "take_down sample_supervisor backup_target False (machine True False) power_on =
     (Inr (), power_on\<lparr>sy_log := cleared_log @ EvStopUnit ''rvt-mount-backup.service'' None # asked_log\<rparr>)"
  by (simp add: take_down_def release_and_stop_def release_first_def check_source_def ask_the_kernel_def
     stop_unit_def machine_steps points_after backup_target_def power_on_def running machine_gone
     backup_entry_fields asked_log_def cleared_log_def)

theorem the_kernel_is_asked_first_witness:
  "sy_log (snd (take_down sample_supervisor backup_target False (machine True False) power_on))
      = cleared_log @ EvStopUnit (tg_unit backup_target) None # asked_log @ sy_log power_on
    \<and> (list_ex (released Refuse ''/mnt/backup'') asked_log \<or> list_ex (shows_gone ''/mnt/backup'') asked_log)"
proof -
  have log: "sy_log (snd (take_down sample_supervisor backup_target False (machine True False) power_on))
      = cleared_log @ EvStopUnit (tg_unit backup_target) None # asked_log @ sy_log power_on"
    unfolding backup_unmounted by (simp add: power_on_def backup_target_def)
  have "\<not> list_ex table_unread asked_log" by (simp add: asked_log_def status_events_def table_unread_def)
  with the_kernel_is_asked_first [OF prod.collapse [symmetric] log] log show ?thesis
    by (simp add: backup_target_def)
qed

text \<open>
  Where the mount table cannot be read, an ordinary unmount of a mount that is up and in use stops
  its unit without asking the kernel for anything, and reports success.
\<close>

definition blind_machine :: host where
  "blind_machine = (machine True True)\<lparr>h_mountinfo := \<lambda>_. Inl IoNotFound\<rparr>"

lemma blind_live:
  "live_mounts blind_machine s = (Inr [], s\<lparr>sy_log := EvMountinfo (Inl IoNotFound) # sy_log s\<rparr>)"
  by (simp add: live_mounts_def running blind_machine_def mounts_of_def read_from_def)

lemma blind_status:
  "unit_status u blind_machine s =
     (Inr (if machine_unit True (sy_log s) then UActive else UInactive),
      s\<lparr>sy_log := status_events (machine_unit True (sy_log s)) u @ sy_log s\<rparr>)"
  using no_such_unit_read
  by (simp add: unit_status_def manager_def running ok_or_fail_def or_fail_def status_events_def
      unit_status_of_def blind_machine_def)

lemma blind_stop:
  "unit_stop u blind_machine s = (Inr (), s\<lparr>sy_log := EvStopUnit u None # EvManager None # sy_log s\<rparr>)"
  "reset_failed u blind_machine s = (Inr (), s\<lparr>sy_log := EvResetFailed u None # EvManager None # sy_log s\<rparr>)"
  by (simp_all add: unit_stop_def reset_failed_def manager_def running ok_or_fail_def blind_machine_def)

lemma blind_unit_gone:
  "\<not> machine_unit True (sy_log s) \<Longrightarrow> await_unit_gone u ms blind_machine s =
     (Inr (), s\<lparr>sy_log := status_events False u @ sy_log s\<rparr>)"
  unfolding await_unit_gone_def
  by (simp add: andthen_def clock_now_def, subst poll_until.simps) (simp add: andthen_def blind_status ret_def)

theorem an_unreadable_table_is_taken_for_empty:
  "fst (take_down sample_supervisor backup_target False blind_machine power_on) = Inr ()
    \<and> EvStopUnit ''rvt-mount-backup.service'' None
        \<in> set (sy_log (snd (take_down sample_supervisor backup_target False blind_machine power_on)))
    \<and> list_all (\<lambda>e. \<forall>program args out. e \<noteq> EvRun program args out)
        (sy_log (snd (take_down sample_supervisor backup_target False blind_machine power_on)))"
  by (simp add: take_down_def release_and_stop_def release_first_def stop_unit_def backup_mounted(2)
      blind_live blind_status blind_stop blind_unit_gone points_after backup_target_def power_on_def
      andthen_def ret_def Let_def status_events_def)

text \<open>The forced one, over a refusal: stopped first, detached last.\<close>

definition forced_log :: log where
  "forced_log =
     EvRun ''fusermount3'' (release_args Refuse ''/mnt/backup'') (Exited False ''busy'')
       # EvMountinfo (Inr backup_line) # EvMountinfo (Inr backup_line)
       # EvStopUnit ''rvt-mount-backup.service'' None # EvManager None # EvMountinfo (Inr backup_line)
       # EvRun ''fusermount3'' (release_args Refuse ''/mnt/backup'') (Exited False ''busy'')
       # EvMountinfo (Inr backup_line) # status_events True ''rvt-mount-backup.service''
       @ [EvMountinfo (Inr backup_line)]"

lemma backup_forced:
  "take_down sample_supervisor backup_target True (machine True True) power_on =
     (Inr (), power_on\<lparr>sy_log := [EvResetFailed ''rvt-mount-backup.service'' None, EvManager None, EvMountinfo (Inr [])]
        @ EvRun ''fusermount3'' (release_args Detach ''/mnt/backup'') (Exited True []) # forced_log\<rparr>)"
  by (simp add: take_down_def release_and_stop_def release_first_def check_source_def ask_the_kernel_def
     stop_unit_def machine_steps points_after backup_target_def power_on_def running machine_gone
     sample_supervisor_def last_resort_def forced_log_def)

theorem detach_comes_last_witness:
  "list_ex (stop_of ''rvt-mount-backup.service'') forced_log
    \<and> sy_log (snd (take_down sample_supervisor backup_target True (machine True True) power_on))
      = [EvResetFailed ''rvt-mount-backup.service'' None, EvManager None, EvMountinfo (Inr [])]
        @ EvRun ''fusermount3'' (release_args Detach ''/mnt/backup'') (Exited True []) # forced_log @ sy_log power_on"
proof -
  have log: "sy_log (snd (take_down sample_supervisor backup_target True (machine True True) power_on))
      = [EvResetFailed ''rvt-mount-backup.service'' None, EvManager None, EvMountinfo (Inr [])]
        @ EvRun ''fusermount3'' (release_args Detach ''/mnt/backup'') (Exited True []) # forced_log @ sy_log power_on"
    unfolding backup_forced by (simp add: power_on_def)
  with detach_comes_last [OF prod.collapse [symmetric] log] show ?thesis
    by (simp add: backup_target_def)
qed

section \<open>What comes back\<close>

text \<open>\<open>gives R m\<close>: whatever a run of \<open>m\<close> returns satisfies \<open>R\<close>.\<close>

definition gives :: "('a \<Rightarrow> bool) \<Rightarrow> 'a prog \<Rightarrow> bool" where
  "gives R m = (\<forall>H s a. fst (m H s) = Inr a \<longrightarrow> R a)"

lemma gives_ret: "R a \<Longrightarrow> gives R (ret a)"
  by (simp add: gives_def ret_def)

lemma gives_fail: "gives R (fail e)"
  by (simp add: gives_def fail_def)

lemma gives_andthen:
  assumes "gives R' m" "\<And>a. R' a \<Longrightarrow> gives R (f a)"
  shows "gives R (andthen m f)"
  unfolding gives_def
proof (intro allI impI)
  fix H s a assume a: "fst (andthen m f H s) = Inr a"
  obtain r t where m: "m H s = (r, t)" by force
  then obtain x where x: "r = Inr x" using a by (cases r) (auto simp: andthen_def)
  then have "R' x" using assms(1) m unfolding gives_def by (metis fst_conv)
  then have "gives R (f x)" by (rule assms(2))
  moreover have "fst (f x H t) = Inr a" using a m x by (simp add: andthen_def)
  ultimately show "R a" unfolding gives_def by blast
qed

lemma gives_any: "gives (\<lambda>_. True) m"
  by (simp add: gives_def)

lemmas gives_then = gives_andthen [OF gives_any]

definition named_as_ours :: "target \<Rightarrow> bool" where
  "named_as_ours t = (orphan_name (tg_unit t) = Some (tg_name t))"

lemma candidate_named: "candidate ms u = Some (sv, name) \<Longrightarrow> orphan_name (lu_name u) = Some name"
  by (auto simp: candidate_def split: if_splits option.splits)

lemma sweep_named: "gives (list_all named_as_ours) (sweep ms live argv c us)"
proof (induction us arbitrary: c)
  case (Cons u us)
  show ?case
  proof (cases "candidate ms u")
    case (Some r)
    obtain sv name where r: "r = (sv, name)" by force
    with Some have named: "orphan_name (lu_name u) = Some name" by (simp add: candidate_named)
    show ?thesis unfolding sweep.simps Some r option.case prod.case
    proof (rule gives_then)
      fix point
      have push: "gives (list_all named_as_ours) (andthen (sweep ms live argv (Some c) us) (\<lambda>out.
          ret (\<lparr>tg_name = name, tg_unit = lu_name u, tg_point = point, tg_fs_spec = sv_fs_spec sv\<rparr> # out)))" for c
        by (rule gives_andthen [OF Cons.IH], rule gives_ret) (simp add: named_as_ours_def [of "\<lparr>tg_name = _, tg_unit = _, tg_point = _, tg_fs_spec = _\<rparr>"] named)
      have held: "gives (list_all named_as_ours) (andthen (configured_unit_holds c point argv) (\<lambda>held.
          if held then sweep ms live argv (Some c) us else andthen (sweep ms live argv (Some c) us) (\<lambda>out.
          ret (\<lparr>tg_name = name, tg_unit = lu_name u, tg_point = point, tg_fs_spec = sv_fs_spec sv\<rparr> # out))))" for c
        by (rule gives_then) (simp add: push Cons.IH)
      show "gives (list_all named_as_ours)
          (if \<not> is_mounted_at live point then sweep ms live argv c us
           else andthen (case c of None \<Rightarrow> resolve_configured ms | Some c \<Rightarrow> ret c) (\<lambda>c.
             andthen (configured_unit_holds c point argv) (\<lambda>held.
               if held then sweep ms live argv (Some c) us else andthen (sweep ms live argv (Some c) us) (\<lambda>out.
               ret (\<lparr>tg_name = name, tg_unit = lu_name u, tg_point = point, tg_fs_spec = sv_fs_spec sv\<rparr> # out)))))"
        using Cons.IH by (auto intro!: gives_then held)
    qed
  qed (simp add: Cons.IH)
qed (simp add: gives_ret)

lemma orphans_named: "gives (list_all named_as_ours) (orphans c)"
  unfolding orphans_def by (rule gives_then, rule gives_then, rule sweep_named)

lemma orphan_name_unit_name:
  assumes "mount_ok U m"
  shows "orphan_name (unit_name m) = Some (mt_name m)"
proof -
  have "unit_name m = UNIT_PREFIX @ mt_name m @ ''.service''"
    using assms by (intro unit_name_valid) (simp add: mount_ok_def)
  then show ?thesis using assms
    by (simp add: orphan_name_def strip_prefix_def starts_with_def strip_suffix_def ends_with_def mount_ok_def)
qed

lemma find_all: "find P xs = Some x \<Longrightarrow> list_all R xs \<Longrightarrow> R x"
  by (auto simp: find_Some_iff list_all_length)

lemma mount_config_member: "mount_config c name = Inr m \<Longrightarrow> m \<in> set (cf_mounts c) \<and> mt_name m = name"
  by (auto simp: mount_config_def find_Some_iff split: option.splits)

lemma target_named:
  assumes "config_ok U c"
  shows "gives named_as_ours (unmount_target c name)"
  unfolding unmount_target_def
proof (rule gives_andthen [OF orphans_named])
  fix os assume os: "list_all named_as_ours os"
  show "gives named_as_ours (case mount_config c name of
      Inl _ \<Rightarrow> (case find (\<lambda>t. tg_name t = name) os of Some t \<Rightarrow> ret t | None \<Rightarrow> fail (UnknownMount name))
    | Inr m \<Rightarrow> andthen (target_of m) (\<lambda>own.
        andthen (unit_status (tg_unit own)) (\<lambda>status.
          if is_serving status then ret (unwrap_or (find (\<lambda>t. tg_unit t = tg_unit own) os) own)
          else (case find (\<lambda>t. path_eq (tg_point t) (tg_point own)) os of Some t \<Rightarrow> ret t | None \<Rightarrow> ret own))))"
  proof (cases "mount_config c name")
    case (Inl e)
    then show ?thesis using os
      by (auto intro!: gives_ret gives_fail dest: find_all split: option.splits)
  next
    case (Inr m)
    then have "mount_ok U m" using assms mount_config_member by (auto simp: config_ok_def list_all_iff)
    then have own: "gives named_as_ours (target_of m)"
      unfolding target_of_def by (intro gives_then gives_ret) (simp add: named_as_ours_def orphan_name_unit_name)
    have chosen: "named_as_ours own \<Longrightarrow> named_as_ours (unwrap_or (find (\<lambda>t. tg_unit t = tg_unit own) os) own)"
      "named_as_ours own \<Longrightarrow> gives named_as_ours (case find (\<lambda>t. path_eq (tg_point t) (tg_point own)) os of
         Some t \<Rightarrow> ret t | None \<Rightarrow> ret own)" for own
      using os by (auto simp: unwrap_or_def intro!: gives_ret dest: find_all split: option.splits)
    show ?thesis unfolding Inr sum.case
      by (rule gives_andthen [OF own], rule gives_then) (auto intro: gives_ret chosen)
  qed
qed

lemma asks_target: "behaves question any_error (unmount_target c name)"
  by (auto simp: unmount_target_def target_of_def resolved_point_def intro!: behave
      asks [THEN behaves_weaken] split: sum.split option.split)


section \<open>Unmounting by name\<close>

text \<open>
  A run of an unmount either ends before anything is touched, or is a run of the sequence on
  the target the name resolved to, after nothing but questions.
\<close>

lemma sup_unmount_cases:
  assumes "sup_unmount S name force H s = (r, s')"
  obtains (early) e new where "r = Inl e" "sy_log s' = new @ sy_log s" "list_all question new"
  | (down) t s1 s2 new where
      "unmount_target (sp_config S) name H (snd (lock_for name H s)) = (Inr t, s1)"
      "sy_log s2 = new @ sy_log s" "list_all question new" "take_down S t force H s2 = (r, s')"
proof -
  define s0 where "s0 = snd (lock_for name H s)"
  have s0: "sy_log s0 = sy_log s" "fst (lock_for name H s) = Inr ()" by (simp_all add: s0_def lock_for_def)
  obtain r1 s1 where t: "unmount_target (sp_config S) name H s0 = (r1, s1)" by force
  obtain q where q: "sy_log s1 = q @ sy_log s" "list_all question q"
    using asks_target [of "sp_config S" name] t s0 unfolding behaves_def by (metis snd_conv)
  define finish where "finish r = (case r of
         Inl e \<Rightarrow> andthen (case e of UnknownMount _ \<Rightarrow> drop_lock name | _ \<Rightarrow> ret ()) (\<lambda>_. fail e)
       | Inr t \<Rightarrow>
           andthen (if tg_name t = name then ret ()
                    else andthen (lock_for (tg_name t)) (\<lambda>_.
                      andthen (ask (\<lambda>H l. h_lock_free H l (tg_name t)) (EvLockWait (tg_name t))) (\<lambda>got.
                        if got then ret () else fail (Busy (msg_gave_up name t))))) (\<lambda>_.
             take_down S t force))" for r
  have run: "finish r1 H s1 = (r, s')"
    using assms t s0(2) unfolding sup_unmount_def finish_def [symmetric]
    by (simp add: andthen_def attempt_def s0_def [symmetric] split_def split: prod.splits sum.splits)
  have lock: "behaves question any_error (lock_for n)" for n by (simp add: behaves_def lock_for_def)
  have drop: "behaves question any_error (drop_lock name)"
    unfolding drop_lock_def by (intro behave) (auto simp: behaves_def ret_def)
  show thesis
  proof (cases r1)
    case (Inl e)
    have b: "behaves question any_error (finish r1)"
      unfolding finish_def Inl by (auto intro!: behave drop split: supervisor_error.split)
    have "\<exists>e'. r = Inl e'"
      using run unfolding finish_def Inl by (auto simp: andthen_def fail_def split: prod.splits sum.splits)
    moreover obtain q' where "sy_log s' = q' @ sy_log s1" "list_all question q'"
      using b run unfolding behaves_def by (metis snd_conv)
    ultimately show ?thesis using q early [of _ "q' @ q"] by auto
  next
    case (Inr t)
    let ?wait = "if tg_name t = name then ret ()
        else andthen (lock_for (tg_name t)) (\<lambda>_.
          andthen (ask (\<lambda>H l. h_lock_free H l (tg_name t)) (EvLockWait (tg_name t))) (\<lambda>got.
            if got then ret () else fail (Busy (msg_gave_up name t))))"
    have w: "behaves question any_error ?wait" by (intro behave behaves_if lock) auto
    obtain r2 s2 where s2: "?wait H s1 = (r2, s2)" by force
    then obtain q' where q': "sy_log s2 = q' @ sy_log s1" "list_all question q'"
      using w unfolding behaves_def by (metis snd_conv)
    show ?thesis
    proof (cases r2)
      case (Inl e)
      then have "r = Inl e" "s' = s2" using run s2 unfolding finish_def \<open>r1 = Inr t\<close> by (simp_all add: andthen_def)
      then show ?thesis using q q' early [of e "q' @ q"] by auto
    next
      case (Inr u)
      then have "take_down S t force H s2 = (r, s')"
        using run s2 unfolding finish_def \<open>r1 = Inr t\<close> by (simp add: andthen_def)
      then show ?thesis using q q' t \<open>r1 = Inr t\<close> down [of t s1 s2 "q' @ q"] by (simp add: s0_def)
    qed
  qed
qed

lemma after_questions:
  assumes "sy_log s2 = q @ sy_log s" "list_all question q" "take_down S t force H s2 = (r, s')"
    "sy_log s' = new @ sy_log s"
  shows "case r of Inl e \<Rightarrow> down_error t force e new
    | Inr _ \<Rightarrow> orderly t force new \<and> list_ex (taken_gone (tg_point t)) new"
proof -
  have "since (sy_log s) (list_all question) s2" using assms(1,2) by (auto simp: since_def)
  then have "ok_then (\<lambda>_. since (sy_log s) (\<lambda>l. orderly t force l \<and> list_ex (taken_gone (tg_point t)) l))
      (\<lambda>e. since (sy_log s) (down_error t force e)) r s'"
    using take_down_triple [of "sy_log s" S t force] assms(3) unfolding triple_def by (metis fst_conv snd_conv)
  then show ?thesis using assms(4) by (auto simp: since_def split: sum.splits)
qed

text \<open>
  C9: An unmount means what it says: when it reports success, a mount table that was read during
  it did not show the target's mount point, unless a read of the table failed during it, which the
  code takes for an empty table; and when it answers that the mount is unknown or not ours it has
  touched nothing.
\<close>

theorem an_unmount_means_what_it_says:
  assumes "sup_unmount S name force H s = (r, s')" "sy_log s' = new @ sy_log s"
  shows "(r = Inr () \<longrightarrow> (\<exists>t s1. unmount_target (sp_config S) name H (snd (lock_for name H s)) = (Inr t, s1)
        \<and> (list_ex (shows_gone (tg_point t)) new \<or> list_ex table_unread new)))
    \<and> (\<forall>x. r = Inl (UnknownMount x) \<or> r = Inl (NotManaged x) \<longrightarrow> list_all question new)"
  using assms(1)
proof (cases rule: sup_unmount_cases)
  case (early e q)
  then show ?thesis using assms(2) by auto
next
  case (down t s1 s2 q)
  note outcome = after_questions [OF down(2-4) assms(2)]
  have "\<not> release_error (UnknownMount x)" "\<not> release_error (NotManaged x)" for x
    by (auto simp: release_error_def is_supervision_def)
  then show ?thesis using outcome down(1) taken_gone_read [of "tg_point t" new] by (auto simp: down_error_def)
qed

lemma machine_orphans:
  "orphans c (machine up st) s = (Inr [],
     s\<lparr>sy_log := EvMountinfo (Inr (if machine_point up (sy_log s) then backup_line else []))
        # EvListUnits (UNIT_PREFIX @ ''*'') (Inr []) # EvManager None # sy_log s\<rparr>)"
  by (simp add: orphans_def list_units_def manager_def running ok_or_fail_def or_fail_def machine_live)

lemma sample_target:
  "mount_config sample_config ''backup'' = Inr sample_mount"
  "target_of sample_mount (machine up st) s =
     (Inr backup_target, s\<lparr>sy_log := EvCanonicalize ''/mnt/backup'' (Some ''/mnt/backup'') # sy_log s\<rparr>)"
proof -
  have "unit_name sample_mount = ''rvt-mount-backup.service''" "fs_spec sample_mount = ''b2:photos''"
    by code_simp+
  then show "mount_config sample_config ''backup'' = Inr sample_mount"
    "target_of sample_mount (machine up st) s =
     (Inr backup_target, s\<lparr>sy_log := EvCanonicalize ''/mnt/backup'' (Some ''/mnt/backup'') # sy_log s\<rparr>)"
    by (simp_all add: mount_config_def sample_config_def target_of_def resolved_point_def resolved_def
        running backup_target_def) (simp_all add: sample_mount_def)
qed

lemma sample_unmount_target:
  "unmount_target sample_config ''backup'' (machine up st) s =
     (Inr backup_target, s\<lparr>sy_log := status_events (machine_unit up (sy_log s)) ''rvt-mount-backup.service''
        @ EvCanonicalize ''/mnt/backup'' (Some ''/mnt/backup'')
        # EvMountinfo (Inr (if machine_point up (sy_log s) then backup_line else []))
        # EvListUnits (UNIT_PREFIX @ ''*'') (Inr []) # EvManager None # sy_log s\<rparr>)"
  by (simp add: unmount_target_def andthen_def machine_orphans sample_target machine_status ret_def)
    (simp add: backup_target_def)

lemma sample_supervisor_fields:
  "sp_config sample_supervisor = sample_config" "sp_gone_timeout sample_supervisor = 0"
  by (simp_all add: sample_supervisor_def supervisor_new_def)

lemma sample_unmount:
  "fst (sup_unmount sample_supervisor ''backup'' False (machine True False) power_on) = Inr ()"
  "EvStopUnit ''rvt-mount-backup.service'' None
     \<in> set (sy_log (snd (sup_unmount sample_supervisor ''backup'' False (machine True False) power_on)))"
  "\<not> list_ex table_unread (sy_log (snd (sup_unmount sample_supervisor ''backup'' False (machine True False) power_on)))"
  by (simp_all add: sup_unmount_def lock_for_def andthen_def attempt_def sample_supervisor_fields
      sample_unmount_target)
    (simp_all add: power_on_def backup_target_def take_down_def release_and_stop_def release_first_def
      check_source_def ask_the_kernel_def stop_unit_def machine_steps points_after running machine_gone
      backup_entry_fields status_events_def table_unread_def)

theorem an_unmount_means_what_it_says_witness:
  "list_ex (shows_gone (tg_point backup_target))
     (sy_log (snd (sup_unmount sample_supervisor ''backup'' False (machine True False) power_on)))"
proof -
  let ?run = "sup_unmount sample_supervisor ''backup'' False (machine True False) power_on"
  have "?run = (Inr (), snd ?run)" using sample_unmount(1) by (metis prod.collapse)
  from an_unmount_means_what_it_says [OF this, of "sy_log (snd ?run)"]
  obtain t s1 where "unmount_target sample_config ''backup'' (machine True False)
        (snd (lock_for ''backup'' (machine True False) power_on)) = (Inr t, s1)"
      "list_ex (shows_gone (tg_point t)) (sy_log (snd ?run))"
    using sample_unmount(3) by (auto simp: power_on_def sample_supervisor_fields)
  then show ?thesis by (simp add: sample_unmount_target)
qed

text \<open>
  C12: Only units of ours are acted on: under a validated configuration every unit an unmount
  stops or clears bears a name this service gives its units, and nothing is ever started.
\<close>

theorem only_our_units_are_stopped:
  assumes "validate U (sp_config S) = Inr ()" "sup_unmount S name force H s = (r, s')"
    "sy_log s' = new @ sy_log s" "ev \<in> set new"
  shows "(\<forall>u res. ev = EvStopUnit u res \<or> ev = EvResetFailed u res \<longrightarrow> orphan_name u \<noteq> None)
    \<and> (\<forall>u props res. ev \<noteq> EvStartUnit u props res)"
  using assms(2)
proof (cases rule: sup_unmount_cases)
  case (early e q)
  then have "question ev" using assms(3,4) by (auto simp: list_all_iff)
  then show ?thesis by auto
next
  case (down t s1 s2 q)
  have "config_ok U (sp_config S)" using assms(1) validate_iff by blast
  then have "orphan_name (tg_unit t) = Some (tg_name t)"
    using target_named down(1) unfolding gives_def named_as_ours_def by (metis fst_conv)
  moreover have "orderly t force new"
    using after_questions [OF down(2-4) assms(3)] by (auto simp: down_error_def split: sum.splits)
  then have "allowed t ev" using assms(4) by (auto simp: orderly_def list_all_iff)
  ultimately show ?thesis by (auto simp: allowed_def is_release_def stop_of_def)
qed

theorem only_our_units_are_stopped_witness:
  "orphan_name ''rvt-mount-backup.service'' \<noteq> None"
proof -
  have "validate no_unicode (sp_config sample_supervisor) = Inr ()"
    using sample_config_ok validate_iff by (simp add: sample_supervisor_fields)
  from only_our_units_are_stopped [OF this prod.collapse [symmetric], of "''backup''" False
      "machine True False" power_on] sample_unmount(2)
  show ?thesis by (simp add: power_on_def)
qed

end
