(* ===== verification/Mounting.thy ===== *)
theory Mounting
  imports Outcomes
begin

text \<open>
  Bringing a mount up, and what is reported of all of them: what a mount may touch on the way,
  what its success rests on, which rows a discovery reports, and how long the waits last.
\<close>

section \<open>What a mount may do\<close>

definition mount_allowed :: "supervisor \<Rightarrow> mount \<Rightarrow> event \<Rightarrow> bool" where
  "mount_allowed S m e =
     (question e
      \<or> (\<exists>p. is_release Refuse p e)
      \<or> (\<exists>p r. e = EvMkdirs p r \<and> (p = mt_point m \<or> p = sp_runtime_dir S))
      \<or> (\<exists>r. e = EvChmod (sp_runtime_dir S) 448 r)
      \<or> e = EvRemove (rc_socket_path (sp_runtime_dir S) (mt_name m))
      \<or> (\<exists>r. e = EvResetFailed (unit_name m) r)
      \<or> (\<exists>hook r. e = EvStartUnit (unit_name m) (unit_properties (unit_spec_of S m hook)) r))"

text \<open>The path was resolved from the entry's mount point and its daemon answered as dead.\<close>

definition seen_stale :: "mount \<Rightarrow> string \<Rightarrow> log \<Rightarrow> bool" where
  "seen_stale m p l =
     (\<exists>c. EvCanonicalize (mt_point m) c \<in> set l
        \<and> EvProbe (unwrap_or c (mt_point m)) (StatErr (Some ENOTCONN)) \<in> set l
        \<and> from_utf8_lossy p = from_utf8_lossy (unwrap_or c (mt_point m)))"

definition seen_up :: "mount \<Rightarrow> log \<Rightarrow> bool" where
  "seen_up m l =
     (\<exists>c file. EvCanonicalize (mt_point m) c \<in> set l \<and> EvMountinfo file \<in> set l
        \<and> is_mounted_at (mounts_of file) (unwrap_or c (mt_point m)))"

definition mount_inv :: "supervisor \<Rightarrow> mount \<Rightarrow> log \<Rightarrow> bool" where
  "mount_inv S m l =
     (list_all (mount_allowed S m) l \<and> (\<forall>p. guarded (is_release Refuse p) (seen_stale m p) l))"

definition denial :: "supervisor_error \<Rightarrow> bool" where
  "denial e = (\<exists>x. e = NotManaged x \<or> e = UnknownMount x)"

definition mount_error :: "supervisor \<Rightarrow> mount \<Rightarrow> supervisor_error \<Rightarrow> log \<Rightarrow> bool" where
  "mount_error S m e l = (mount_inv S m l \<and> (denial e \<longrightarrow> list_all question l))"

lemma seen_stale_grows: "seen_stale m p l \<Longrightarrow> seen_stale m p (new @ l)"
  by (auto simp: seen_stale_def)

lemma seen_up_grows: "seen_up m l \<Longrightarrow> seen_up m (new @ l)"
  unfolding seen_up_def by (metis Un_iff set_append)

definition no_run :: "event \<Rightarrow> bool" where
  "no_run e = (\<forall>program args out. e \<noteq> EvRun program args out)"

lemma mount_inv_append:
  "mount_inv S m l \<Longrightarrow> list_all (\<lambda>e. mount_allowed S m e \<and> no_run e) new \<Longrightarrow> mount_inv S m (new @ l)"
  by (induction new) (auto simp: mount_inv_def no_run_def is_release_def)

lemma question_allowed: "question e \<Longrightarrow> mount_allowed S m e \<and> no_run e"
  by (auto simp: mount_allowed_def no_run_def)

lemma mount_inv_questions: "mount_inv S m l \<Longrightarrow> list_all question new \<Longrightarrow> mount_inv S m (new @ l)"
  by (rule mount_inv_append) (auto simp: list_all_iff question_allowed)

lemma questions_mount_inv: "list_all question l \<Longrightarrow> mount_inv S m l"
  using mount_inv_questions [of S m "[]" l] by (simp add: mount_inv_def)

lemma questions_mount_error: "list_all question l \<Longrightarrow> mount_error S m e l"
  by (simp add: mount_error_def questions_mount_inv)

lemma mount_inv_release:
  assumes "mount_inv S m l" "seen_stale m p l" "list_all (is_release Refuse p) new"
  shows "mount_inv S m (new @ l)"
  using assms(3)
proof (induction new)
  case (Cons e new)
  then have inv: "mount_inv S m (new @ l)" and e: "is_release Refuse p e" by simp_all
  have "seen_stale m q (new @ l)" if "is_release Refuse q e" for q
  proof -
    have "from_utf8_lossy q = from_utf8_lossy p"
      using e that by (auto simp: is_release_def release_args_def)
    then show ?thesis using seen_stale_grows [OF assms(2)] by (auto simp: seen_stale_def)
  qed
  with inv e show ?case by (auto simp: mount_inv_def mount_allowed_def)
qed (use assms(1) in simp)

section \<open>Questions with their answers\<close>

lemma resolved_triple:
  assumes "\<And>c l. A l \<Longrightarrow> Q (unwrap_or c raw) (EvCanonicalize raw c # l)"
  shows "triple (since l0 A) (resolved raw) (ok_then (\<lambda>p. since l0 (Q p)) (\<lambda>e. since l0 (E e)))"
  unfolding resolved_def
proof (rule triple_andthen)
  show "triple (since l0 A) (ask (\<lambda>H l. h_canonicalize H l raw) (EvCanonicalize raw))
      (ok_then (\<lambda>c. since l0 (Q (unwrap_or c raw))) (\<lambda>e. since l0 (E e)))"
    by (rule triple_ask) (auto simp: since_def intro: assms)
qed (rule triple_ret)

lemma stale_triple:
  assumes "\<And>r l. A l \<Longrightarrow> Q (r = StatErr (Some ENOTCONN)) (EvProbe p r # l)"
  shows "triple (since l0 A) (is_stale p) (ok_then (\<lambda>b. since l0 (Q b)) (\<lambda>e. since l0 (E e)))"
  unfolding is_stale_def
proof (rule triple_andthen)
  show "triple (since l0 A) (ask (\<lambda>H l. h_probe H l p) (EvProbe p))
      (ok_then (\<lambda>r. since l0 (Q (r = StatErr (Some ENOTCONN)))) (\<lambda>e. since l0 (E e)))"
    by (rule triple_ask) (auto simp: since_def intro: assms)
qed (rule triple_ret)

text \<open>A step that only asks keeps what asking keeps.\<close>

lemma asks_keep:
  assumes "behaves question K m" "\<And>new l. A l \<Longrightarrow> list_all question new \<Longrightarrow> A (new @ l)"
    "\<And>l e. A l \<Longrightarrow> K e \<Longrightarrow> E e l"
  shows "triple (since l0 A) m (ok_then (\<lambda>_. since l0 A) (\<lambda>e. since l0 (E e)))"
  by (rule since_keeps [OF assms(1)]) (auto intro: assms(2,3))

section \<open>Waiting for a mount\<close>

lemma await_ready_triple:
  assumes keep: "\<And>new l. A l \<Longrightarrow> list_all question new \<Longrightarrow> A (new @ l)"
    and err: "\<And>l e. A l \<Longrightarrow> \<not> denial e \<Longrightarrow> E e l"
  shows "triple (since l0 A) (await_ready S m) (ok_then (\<lambda>_. since l0 (\<lambda>l. A l \<and> seen_up m l)) (\<lambda>e. since l0 (E e)))"
  unfolding await_ready_def
proof (rule triple_andthen)
  let ?E = "\<lambda>e. since l0 (E e)" and ?Q = "\<lambda>_ :: unit. since l0 (\<lambda>l. A l \<and> seen_up m l)"
  have keep1: "A l \<Longrightarrow> question e \<Longrightarrow> A (e # l)" for e l using keep [of l "[e]"] by simp
  have sup: "is_supervision e \<Longrightarrow> \<not> denial e" for e by (auto simp: is_supervision_def denial_def)
  show "triple (since l0 A) clock_now (ok_then (\<lambda>_. since l0 A) ?E)"
    by (simp add: triple_def clock_now_def)
  fix start
  define B where "B p l = (A l \<and> (\<exists>c. EvCanonicalize (mt_point m) c \<in> set l \<and> p = unwrap_or c (mt_point m)))" for p l
  have B_keep: "B p l \<Longrightarrow> list_all question new \<Longrightarrow> B p (new @ l)" for p l new
    unfolding B_def using keep by (metis Un_iff set_append)
  have B_A: "B p l \<Longrightarrow> A l" for p l by (simp add: B_def)
  have where_to: "triple (since l0 A) (resolved_point m) (ok_then (\<lambda>p. since l0 (B p)) ?E)"
    unfolding resolved_point_def by (rule resolved_triple) (auto simp: B_def keep1)
  show "triple (since l0 A) (andthen (resolved_point m) (\<lambda>point. poll_until
       (andthen live_mounts (\<lambda>es. if is_mounted_at es point then ret (Some ())
          else andthen (unit_status (unit_name m)) (\<lambda>status.
            if status = UFailed
            then andthen (failure_reason (sp_config S) (unit_name m)) (\<lambda>reason. fail (RcloneFailed reason None))
            else ret None)))
       POLL_INTERVAL (start + sp_ready_timeout S)
       (andthen (failure_reason (sp_config S) (unit_name m)) (\<lambda>reason.
          fail (RcloneFailed (trim_end (from_utf8_lossy (mt_point m) @ '' did not start serving within ''
            @ show_nat (sp_ready_timeout S div 1000) @ ''s. '' @ reason)) None)))))
     (ok_then ?Q ?E)"
  proof (rule triple_andthen [OF where_to], rule triple_poll)
    fix point
    have failing: "triple (since l0 (B point)) (andthen (failure_reason (sp_config S) (unit_name m)) (\<lambda>reason.
        fail (RcloneFailed (msg reason) None))) (ok_then Q ?E)" for msg and Q :: "'b \<Rightarrow> sys \<Rightarrow> bool"
      by (rule triple_andthen [OF asks_keep [OF asks_reason]], auto intro: B_keep B_A err sup intro!: triple_fail)
        (auto simp: since_def denial_def is_supervision_def intro!: err dest: B_A)
    show "triple (since l0 (B point)) (andthen (failure_reason (sp_config S) (unit_name m)) (\<lambda>reason.
          fail (RcloneFailed (trim_end (from_utf8_lossy (mt_point m) @ '' did not start serving within ''
            @ show_nat (sp_ready_timeout S div 1000) @ ''s. '' @ reason)) None))) (ok_then ?Q ?E)"
      by (rule failing)
    let ?R = "\<lambda>r s. case r of None \<Rightarrow> since l0 (B point) s | Some a \<Rightarrow> ?Q a s"
    have seen: "triple (since l0 (B point)) live_mounts
        (ok_then (\<lambda>es. since l0 (\<lambda>l. B point l \<and> (is_mounted_at es point \<longrightarrow> seen_up m l))) ?E)"
      by (rule live_triple) (auto simp: B_def keep1 seen_up_def)
    have asked: "triple (since l0 (\<lambda>l. B point l \<and> (is_mounted_at es point \<longrightarrow> seen_up m l)))
        (unit_status (unit_name m)) (ok_then (\<lambda>_. since l0 (B point)) ?E)" for es
      by (rule since_keeps [OF asks_status]) (auto intro: B_keep err [OF B_A sup])
    show "triple (since l0 (B point))
       (andthen live_mounts (\<lambda>es. if is_mounted_at es point then ret (Some ())
          else andthen (unit_status (unit_name m)) (\<lambda>status.
            if status = UFailed
            then andthen (failure_reason (sp_config S) (unit_name m)) (\<lambda>reason. fail (RcloneFailed reason None))
            else ret None))) (ok_then ?R ?E)"
    proof (rule triple_andthen [OF seen], rule triple_if)
      show "is_mounted_at es point \<Longrightarrow> triple (since l0 (\<lambda>l. B point l \<and> (is_mounted_at es point \<longrightarrow> seen_up m l)))
          (ret (Some ())) (ok_then ?R ?E)" for es
        by (rule triple_ret) (auto simp: since_def B_def)
      show "triple (since l0 (\<lambda>l. B point l \<and> (is_mounted_at es point \<longrightarrow> seen_up m l)))
          (andthen (unit_status (unit_name m)) (\<lambda>status. if status = UFailed
            then andthen (failure_reason (sp_config S) (unit_name m)) (\<lambda>reason. fail (RcloneFailed reason None))
            else ret None)) (ok_then ?R ?E)" for es
        by (rule triple_andthen [OF asked], rule triple_if, rule failing, rule triple_ret) auto
    qed
    show "since l0 (B point) s \<Longrightarrow> sy_log t = EvSleep # sy_log s \<Longrightarrow> since l0 (B point) t" for s t
      using since_grow [of l0 "B point" s t "[EvSleep]" "B point"] B_keep [of point _ "[EvSleep]"] by simp
    show "since l0 (B point) s \<Longrightarrow> sy_log t = sy_log s \<Longrightarrow> since l0 (B point) t" for s t
      by (simp add: since_def)
  qed
qed


section \<open>What is at the point already\<close>

definition met :: "mount \<Rightarrow> string \<Rightarrow> bool \<Rightarrow> bool \<Rightarrow> log \<Rightarrow> bool" where
  "met m p up stale l =
     (list_all question l \<and> (\<exists>c. EvCanonicalize (mt_point m) c \<in> set l \<and> p = unwrap_or c (mt_point m))
      \<and> (up \<longrightarrow> seen_up m l) \<and> (stale \<longrightarrow> seen_stale m p l))"

lemma met_questions: "met m p up stale l \<Longrightarrow> list_all question new \<Longrightarrow> met m p up stale (new @ l)"
  unfolding met_def using seen_stale_grows seen_up_grows by (metis Un_iff list_all_append set_append)

lemma met_all: "met m p up stale l \<Longrightarrow> list_all question l"
  by (simp add: met_def)

lemma release_no_denial: "release_error e \<Longrightarrow> \<not> denial e"
  by (auto simp: release_error_def is_supervision_def denial_def)

lemma asks_refusal: "behaves question any_error (refuse_to_take_over c name p)"
  unfolding refuse_to_take_over_def orphan_at_def
  by (intro behave asks_orphans [THEN behaves_weaken]) auto

lemma met_resolved:
  "triple (since l0 (list_all question)) (resolved_point m)
     (ok_then (\<lambda>p. since l0 (met m p False False)) (\<lambda>e. since l0 (mount_error S m e)))"
  unfolding resolved_point_def by (rule resolved_triple) (auto simp: met_def)

lemma met_live:
  "triple (since l0 (met m p False False)) live_mounts
     (ok_then (\<lambda>es. since l0 (met m p (is_mounted_at es p) False)) (\<lambda>e. since l0 (mount_error S m e)))"
  by (rule live_triple) (auto simp: met_def seen_up_def)

lemma met_stale:
  "triple (since l0 (met m p up False)) (is_stale p)
     (ok_then (\<lambda>stale. since l0 (met m p up stale)) (\<lambda>e. since l0 (mount_error S m e)))"
proof (rule stale_triple)
  fix r l assume l: "met m p up False l"
  then have "met m p up False (EvProbe p r # l)" using met_questions [OF l, of "[EvProbe p r]"] by simp
  moreover from l obtain c where "EvCanonicalize (mt_point m) c \<in> set l" "p = unwrap_or c (mt_point m)"
    by (auto simp: met_def)
  ultimately show "met m p up (r = StatErr (Some ENOTCONN)) (EvProbe p r # l)"
    by (auto simp: met_def seen_stale_def)
qed

lemma met_asks:
  "behaves question any_error k \<Longrightarrow> triple (since l0 (met m p up stale)) k
     (ok_then (\<lambda>_. since l0 (met m p up stale)) (\<lambda>e. since l0 (mount_error S m e)))"
  by (rule asks_keep, assumption) (auto intro: met_questions questions_mount_error dest: met_all)

lemma met_release:
  "triple (since l0 (met m p up True)) (release_point p Refuse)
     (ok_then (\<lambda>_. since l0 (mount_inv S m)) (\<lambda>e. since l0 (mount_error S m e)))"
  by (rule release_triple)
    (auto simp: met_def mount_error_def release_no_denial intro: mount_inv_release questions_mount_inv)

lemma clear_the_point_triple:
  "triple (since l0 (list_all question)) (clear_the_point S m)
     (ok_then (\<lambda>ready. since l0 (\<lambda>l. mount_inv S m l \<and> (ready \<longrightarrow> seen_up m l))) (\<lambda>e. since l0 (mount_error S m e)))"
  unfolding clear_the_point_def Let_def
proof (rule triple_andthen [OF met_resolved], rule triple_andthen [OF met_live])
  fix p es
  let ?up = "is_mounted_at es p" and ?c = "sp_config S" and ?E = "\<lambda>e. since l0 (mount_error S m e)"
  let ?Q = "\<lambda>ready. since l0 (\<lambda>l. mount_inv S m l \<and> (ready \<longrightarrow> seen_up m l))"
  have over: "triple (since l0 (met m p ?up stale)) (ret False) (ok_then ?Q ?E)" for stale
    by (rule triple_ret) (auto simp: since_def intro: questions_mount_inv dest: met_all)
  have up: "triple (since l0 (met m p ?up stale)) (ret True) (ok_then ?Q ?E)" if ?up for stale
    using that by (intro triple_ret) (auto simp: since_def met_def intro: questions_mount_inv)
  have no: "triple (since l0 (met m p ?up stale)) (fail e) (ok_then ?Q ?E)" for stale e
    by (rule triple_fail) (auto simp: since_def intro: questions_mount_error dest: met_all)
  have dead: "triple (since l0 (met m p ?up True)) (andthen (refuse_to_take_over ?c (mt_name m) p) (\<lambda>_.
      andthen (release_point p Refuse) (\<lambda>_. ret False))) (ok_then ?Q ?E)"
    by (rule triple_andthen [OF met_asks [OF asks_refusal]], rule triple_andthen [OF met_release], rule triple_ret)
      (auto simp: since_def)
  let ?by = "\<lambda>status. case status of UActive \<Rightarrow> ret True | UActivating \<Rightarrow> ret True
      | UDeactivating \<Rightarrow> andthen (await_unit_gone (unit_name m) (sp_unit_gone_timeout S)) (\<lambda>_. ret False)
      | UFailed \<Rightarrow> ret False | UInactive \<Rightarrow> fail (NotManaged (msg_already (mt_name m) p))"
  have wait: "behaves question any_error (await_unit_gone (unit_name m) (sp_unit_gone_timeout S))"
    by (rule behaves_weaken [OF asks_unit_gone]) auto
  have status_then: "triple (since l0 (met m p ?up False)) (?by status) (ok_then ?Q ?E)" if ?up for status
    by (cases status) (auto intro: up [OF that] over no triple_andthen [OF met_asks [OF wait] over])
  have refusal: "behaves question any_error (if is_serving status then ret () else refuse_to_take_over ?c (mt_name m) p)" for status
    using asks_refusal by (auto intro: behave)
  have alive: "triple (since l0 (met m p ?up False)) (andthen (unit_status (unit_name m)) (\<lambda>status.
      andthen (if is_serving status then ret () else refuse_to_take_over ?c (mt_name m) p) (\<lambda>_. ?by status)))
      (ok_then ?Q ?E)" if ?up
    by (rule triple_andthen [OF met_asks [OF behaves_weaken [OF asks_status]]], simp, simp,
      rule triple_andthen [OF met_asks [OF refusal]], rule status_then [OF that])
  show "triple (since l0 (met m p ?up False))
     (if \<not> ?up then ret False
      else andthen (is_stale p) (\<lambda>stale.
        if stale then andthen (refuse_to_take_over ?c (mt_name m) p) (\<lambda>_. andthen (release_point p Refuse) (\<lambda>_. ret False))
        else andthen (unit_status (unit_name m)) (\<lambda>status.
          andthen (if is_serving status then ret () else refuse_to_take_over ?c (mt_name m) p) (\<lambda>_. ?by status))))
     (ok_then ?Q ?E)"
  proof (rule triple_if, rule over, rule triple_andthen [OF met_stale])
    fix stale
    assume "\<not> \<not> ?up"
    then show "triple (since l0 (met m p ?up stale))
       (if stale then andthen (refuse_to_take_over ?c (mt_name m) p) (\<lambda>_. andthen (release_point p Refuse) (\<lambda>_. ret False))
        else andthen (unit_status (unit_name m)) (\<lambda>status.
          andthen (if is_serving status then ret () else refuse_to_take_over ?c (mt_name m) p) (\<lambda>_. ?by status)))
       (ok_then ?Q ?E)"
      using dead alive by (cases stale) auto
  qed
qed


section \<open>Starting the unit\<close>

definition mounting_step :: "supervisor \<Rightarrow> mount \<Rightarrow> event \<Rightarrow> bool" where
  "mounting_step S m e = (mount_allowed S m e \<and> no_run e)"

definition no_denial :: "supervisor_error \<Rightarrow> bool" where
  "no_denial e = (\<not> denial e)"

lemma supervision_no_denial: "is_supervision e \<Longrightarrow> no_denial e"
  by (auto simp: is_supervision_def denial_def no_denial_def)

lemma no_denial_simps [simp]:
  "no_denial (Supervision c x)" "no_denial (supervision c b)" "no_denial (BadMountPoint p r x)"
  "no_denial (RcloneFailed r x)"
  by (auto simp: denial_def no_denial_def supervision_def)

lemma inv_step:
  "behaves (mounting_step S m) no_denial k \<Longrightarrow> triple (since l0 (mount_inv S m)) k
     (ok_then (\<lambda>_. since l0 (mount_inv S m)) (\<lambda>e. since l0 (mount_error S m e)))"
  by (rule since_keeps, assumption)
    (auto simp: mount_error_def no_denial_def mounting_step_def [abs_def] intro: mount_inv_append)

lemma asks_step: "behaves question is_supervision k \<Longrightarrow> behaves (mounting_step S m) no_denial k"
  by (erule behaves_weaken) (auto simp: mounting_step_def question_allowed supervision_no_denial)

lemma mounting_question: "question e \<Longrightarrow> mounting_step S m e"
  by (simp add: mounting_step_def question_allowed)

lemma point_step: "behaves (mounting_step S m) no_denial (prepare_mount_point (mt_point m))"
  unfolding prepare_mount_point_def Let_def
  by (auto simp: mounting_step_def mount_allowed_def no_run_def intro!: behave split: sum.split io_error.split)

lemma runtime_step: "behaves (mounting_step S m) no_denial (prepare_runtime_dir S)"
  unfolding prepare_runtime_dir_def Let_def
  by (auto simp: mounting_step_def mount_allowed_def no_run_def intro!: behave)

lemma socket_step: "behaves (mounting_step S m) no_denial (remove_socket (rc_socket_path (sp_runtime_dir S) (mt_name m)))"
  unfolding remove_socket_def
  by (auto simp: mounting_step_def mount_allowed_def no_run_def intro!: behave)

lemma manager_step: "behaves (mounting_step S m) no_denial manager"
  by (intro asks_step asks_manager) simp_all

lemma fail_step: "behaves (mounting_step S m) no_denial (ok_or_fail c r)"
  by (intro asks_step asks_ok_or_fail)

lemma reset_step: "behaves (mounting_step S m) no_denial (reset_failed (unit_name m))"
  unfolding reset_failed_def
  by (auto simp: mounting_step_def mount_allowed_def no_run_def intro!: behaves_andthen [OF manager_step]
      behaves_andthen [OF behaves_ask] fail_step behave split: option.split)

lemma hook_step: "behaves (mounting_step S m) no_denial (pre_start_hook S name)"
  unfolding pre_start_hook_def
  by (auto intro!: behave mounting_question split: sum.split)

lemma start_step: "behaves (mounting_step S m) no_denial (start_transient (unit_spec_of S m hook))"
  unfolding start_transient_def
  by (auto simp: mounting_step_def mount_allowed_def no_run_def unit_spec_of_def
      intro!: behaves_andthen [OF manager_step] behaves_andthen [OF behaves_ask] fail_step)

lemma ready_triple:
  "triple (since l0 (mount_inv S m)) (await_ready S m)
     (ok_then (\<lambda>_. since l0 (\<lambda>l. mount_inv S m l \<and> seen_up m l)) (\<lambda>e. since l0 (mount_error S m e)))"
  by (rule await_ready_triple) (auto simp: mount_error_def intro: mount_inv_questions)

lemma start_unit_triple:
  "triple (since l0 (mount_inv S m)) (start_unit S m)
     (ok_then (\<lambda>_. since l0 (\<lambda>l. mount_inv S m l \<and> seen_up m l)) (\<lambda>e. since l0 (mount_error S m e)))"
  unfolding start_unit_def
proof (rule triple_andthen [OF inv_step [OF point_step]], rule triple_andthen [OF inv_step [OF runtime_step]],
    rule triple_andthen [OF inv_step [OF asks_step [OF asks_status]]], rule triple_if, rule ready_triple)
  fix status
  have wait: "behaves (mounting_step S m) no_denial
      (if status = UDeactivating then await_unit_gone (unit_name m) (sp_unit_gone_timeout S) else ret ())"
    by (auto intro: behave asks_step [OF asks_unit_gone])
  show "triple (since l0 (mount_inv S m))
      (andthen (if status = UDeactivating then await_unit_gone (unit_name m) (sp_unit_gone_timeout S) else ret ()) (\<lambda>_.
       andthen (remove_socket (rc_socket_path (sp_runtime_dir S) (mt_name m))) (\<lambda>_.
       andthen (reset_failed (unit_name m)) (\<lambda>_.
       andthen (pre_start_hook S (mt_name m)) (\<lambda>hook.
       andthen (start_transient (unit_spec_of S m hook)) (\<lambda>_. await_ready S m))))))
      (ok_then (\<lambda>_. since l0 (\<lambda>l. mount_inv S m l \<and> seen_up m l)) (\<lambda>e. since l0 (mount_error S m e)))"
    by (rule triple_andthen [OF inv_step [OF wait]], rule triple_andthen [OF inv_step [OF socket_step]],
      rule triple_andthen [OF inv_step [OF reset_step]], rule triple_andthen [OF inv_step [OF hook_step]],
      rule triple_andthen [OF inv_step [OF start_step]], rule ready_triple)
qed


section \<open>Mounting by name\<close>

lemma lock_keeps: "triple (since l0 A) (lock_for name) (ok_then (\<lambda>_. since l0 A) E)"
  by (simp add: triple_def lock_for_def since_def)

lemma early_ask:
  "behaves question any_error k \<Longrightarrow> triple (since l0 (list_all question)) k
     (ok_then (\<lambda>_. since l0 (list_all question)) (\<lambda>e. since l0 (mount_error S m e)))"
  by (rule since_keeps, assumption) (auto intro: questions_mount_error)

lemma sup_mount_triple:
  assumes "mount_config (sp_config S) name = Inr m"
  shows "triple (since l0 (list_all question)) (sup_mount S name)
     (ok_then (\<lambda>_. since l0 (\<lambda>l. mount_inv S m l \<and> seen_up m l)) (\<lambda>e. since l0 (mount_error S m e)))"
  unfolding sup_mount_def Let_def assms sum.case
proof (rule triple_andthen [OF lock_keeps],
    rule triple_andthen [OF early_ask [OF behaves_weaken [OF asks_status]]], simp, simp)
  fix status
  let ?Q = "\<lambda>_. since l0 (\<lambda>l. mount_inv S m l \<and> seen_up m l)" and ?E = "\<lambda>e. since l0 (mount_error S m e)"
  have look: "behaves question any_error (if status = UDeactivating then ret None
      else andthen (orphans (sp_config S)) (\<lambda>os. ret (find (\<lambda>t. tg_unit t = unit_name m) os)))"
    by (auto intro!: behave asks_orphans [THEN behaves_weaken])
  have go: "triple (since l0 (list_all question)) (andthen (clear_the_point S m) (\<lambda>ready.
      if ready then ret () else start_unit S m)) (ok_then ?Q ?E)"
  proof (rule triple_andthen [OF clear_the_point_triple], rule triple_if)
    show "ready \<Longrightarrow> triple (since l0 (\<lambda>l. mount_inv S m l \<and> (ready \<longrightarrow> seen_up m l))) (ret ()) (ok_then ?Q ?E)" for ready
      by (rule triple_ret) (simp add: since_def)
    show "triple (since l0 (\<lambda>l. mount_inv S m l \<and> (ready \<longrightarrow> seen_up m l))) (start_unit S m) (ok_then ?Q ?E)" for ready
      by (rule triple_weaken [OF start_unit_triple]) (auto simp: since_def)
  qed
  have "triple (since l0 (list_all question)) (case moved of
      Some t \<Rightarrow> fail (NotManaged (msg_still_serving name t))
    | None \<Rightarrow> andthen (clear_the_point S m) (\<lambda>ready. if ready then ret () else start_unit S m)) (ok_then ?Q ?E)" for moved
    using go by (cases moved) (auto intro!: triple_fail simp: since_def questions_mount_error)
  then show "triple (since l0 (list_all question))
      (andthen (if status = UDeactivating then ret None
          else andthen (orphans (sp_config S)) (\<lambda>os. ret (find (\<lambda>t. tg_unit t = unit_name m) os))) (\<lambda>moved.
        case moved of Some t \<Rightarrow> fail (NotManaged (msg_still_serving name t))
        | None \<Rightarrow> andthen (clear_the_point S m) (\<lambda>ready. if ready then ret () else start_unit S m))) (ok_then ?Q ?E)"
    by (rule triple_andthen [OF early_ask [OF look]])
qed

lemma sup_mount_unknown:
  assumes "mount_config (sp_config S) name = Inl e" "sup_mount S name H s = (r, s')"
  shows "\<exists>x new. r = Inl x \<and> sy_log s' = new @ sy_log s \<and> list_all question new"
proof -
  let ?c = "sp_config S"
  let ?finish = "\<lambda>os. case find (\<lambda>t. tg_name t = name) os of None \<Rightarrow> fail e
      | Some t \<Rightarrow> fail (NotManaged (msg_leftover name t))"
  have m: "sup_mount S name = andthen (orphans ?c) ?finish"
    unfolding sup_mount_def Let_def assms(1) by simp
  have "behaves question any_error (sup_mount S name)"
    unfolding m by (auto intro!: behave asks_orphans [THEN behaves_weaken])
  moreover have "\<exists>x. r = Inl x"
    using assms(2) unfolding m by (auto simp: andthen_def fail_def split: prod.splits sum.splits option.splits)
  ultimately show ?thesis using assms(2) unfolding behaves_def by (metis snd_conv)
qed

lemma mount_outcome:
  assumes "sup_mount S name H s = (r, s')" "sy_log s' = new @ sy_log s"
  obtains (unknown) x where "r = Inl x" "list_all question new"
  | (run) m where "mount_config (sp_config S) name = Inr m" "mount_inv S m new"
      "r = Inr () \<longrightarrow> seen_up m new" "\<forall>e. r = Inl e \<and> denial e \<longrightarrow> list_all question new"
proof (cases "mount_config (sp_config S) name")
  case (Inl e)
  with sup_mount_unknown [OF Inl assms(1)] assms(2) unknown show ?thesis by auto
next
  case (Inr m)
  from run_of_triple [OF sup_mount_triple [OF Inr] assms] run [OF Inr] show ?thesis
    by (cases r) (auto simp: mount_error_def)
qed

text \<open>
  C7: Mounting takes nothing away: a mount never stops a unit, never detaches, and asks the
  kernel to release a path only after that very path, resolved from the entry's mount point,
  answered as the leftover of a dead daemon. The one unit it starts is its own, with exactly
  the properties its configuration entry spells.
\<close>

theorem mounting_takes_nothing_away:
  assumes "sup_mount S name H s = (r, s')" "sy_log s' = later @ ev # earlier @ sy_log s"
  shows "(\<forall>u res. ev \<noteq> EvStopUnit u res)
    \<and> (\<forall>program args out. ev = EvRun program args out \<longrightarrow>
         (\<exists>m p. mount_config (sp_config S) name = Inr m \<and> args = release_args Refuse p \<and> seen_stale m p earlier))
    \<and> (\<forall>u props res. ev = EvStartUnit u props res \<longrightarrow>
         (\<exists>m hook. mount_config (sp_config S) name = Inr m \<and> u = unit_name m
            \<and> props = unit_properties (unit_spec_of S m hook)))"
proof -
  have "sy_log s' = (later @ ev # earlier) @ sy_log s" using assms(2) by simp
  with assms(1) show ?thesis
  proof (cases rule: mount_outcome)
    case (unknown x)
    then show ?thesis by auto
  next
    case (run m)
    then have ok: "mount_allowed S m ev"
      and g: "\<And>p. guarded (is_release Refuse p) (seen_stale m p) (later @ ev # earlier)"
      by (simp_all add: mount_inv_def)
    have "\<exists>p. args = release_args Refuse p \<and> seen_stale m p earlier" if run_it: "ev = EvRun program args out" for program args out
    proof -
      obtain p where p: "is_release Refuse p ev" using ok unfolding run_it by (auto simp: mount_allowed_def)
      then have "seen_stale m p earlier" using guardedD [OF g] by blast
      with p run_it show ?thesis by (auto simp: is_release_def)
    qed
    with ok run(1) show ?thesis by (auto simp: mount_allowed_def is_release_def)
  qed
qed

text \<open>
  C10: A mount means what it says: when it reports success the kernel's table was read during it
  and showed an rclone mount at the entry's resolved mount point, and when it answers that the
  mount is unknown or not ours it has touched nothing.
\<close>

theorem a_mount_means_what_it_says:
  assumes "sup_mount S name H s = (r, s')" "sy_log s' = new @ sy_log s"
  shows "(r = Inr () \<longrightarrow> (\<exists>m. mount_config (sp_config S) name = Inr m \<and> seen_up m new))
    \<and> (\<forall>x. r = Inl (UnknownMount x) \<or> r = Inl (NotManaged x) \<longrightarrow> list_all question new)"
  using assms
proof (cases rule: mount_outcome)
  case (run m)
  then show ?thesis by (auto simp: denial_def)
qed auto


section \<open>A mount on the simulated machine\<close>

lemma machine_resolved:
  "resolved p (machine up st) s = (Inr p, s\<lparr>sy_log := EvCanonicalize p (Some p) # sy_log s\<rparr>)"
  by (simp add: resolved_def running)

lemma machine_prepare:
  "prepare_mount_point p (machine up st) s = (Inr (), s\<lparr>sy_log := EvMetadata p (Inr True) # sy_log s\<rparr>)"
  "prepare_runtime_dir S (machine up st) s =
     (Inr (), s\<lparr>sy_log := EvChmod (sp_runtime_dir S) 448 None # EvMkdirs (sp_runtime_dir S) None # sy_log s\<rparr>)"
  "remove_socket q (machine up st) s = (Inr (), s\<lparr>sy_log := EvExists q False # sy_log s\<rparr>)"
  "pre_start_hook S name (machine up st) s = (Inr None, s\<lparr>sy_log := EvCurrentExe (Inl IoNotFound) # sy_log s\<rparr>)"
  "start_transient spec (machine up st) s =
     (Inr (), s\<lparr>sy_log := EvStartUnit (us_name spec) (unit_properties spec) None # EvManager None # sy_log s\<rparr>)"
  by (simp_all add: prepare_mount_point_def prepare_runtime_dir_def remove_socket_def pre_start_hook_def
      start_transient_def manager_def ok_or_fail_def running)

lemma machine_ready:
  "machine_point up (sy_log s) \<Longrightarrow> await_ready S sample_mount (machine up st) s =
     (Inr (), s\<lparr>sy_log := EvMountinfo (Inr backup_line) # EvCanonicalize ''/mnt/backup'' (Some ''/mnt/backup'') # sy_log s\<rparr>)"
  unfolding await_ready_def resolved_point_def
  by (simp add: andthen_def clock_now_def machine_resolved, subst poll_until.simps)
    (simp add: sample_mount_def andthen_def machine_live ret_def backup_mounted)

lemma sample_mount_facts:
  "unit_name sample_mount = ''rvt-mount-backup.service''" "mt_point sample_mount = ''/mnt/backup''"
  by code_simp+

lemma backup_started:
  fixes run defines "run \<equiv> sup_mount sample_supervisor ''backup'' (machine False False) power_on"
  shows "fst run = Inr ()"
    "EvStartUnit ''rvt-mount-backup.service'' (unit_properties (unit_spec_of sample_supervisor sample_mount None)) None
       \<in> set (sy_log (snd run))"
  unfolding run_def
  by (simp_all add: sup_mount_def sample_supervisor_fields sample_target lock_for_def power_on_def andthen_def
      machine_status machine_orphans ret_def clear_the_point_def resolved_point_def machine_resolved machine_live
      backup_mounted sample_mount_facts points_after points_after [of _ _ _ "[]", unfolded append_Nil2] Let_def start_unit_def machine_prepare machine_reset machine_ready
      unit_spec_of_def del: append.simps)


theorem mounting_takes_nothing_away_witness:
  "\<exists>m hook. mount_config sample_config ''backup'' = Inr m \<and> unit_name m = ''rvt-mount-backup.service''
     \<and> unit_properties (unit_spec_of sample_supervisor sample_mount None)
       = unit_properties (unit_spec_of sample_supervisor m hook)"
proof -
  let ?run = "sup_mount sample_supervisor ''backup'' (machine False False) power_on"
  obtain later earlier where "sy_log (snd ?run) = later @ EvStartUnit ''rvt-mount-backup.service''
      (unit_properties (unit_spec_of sample_supervisor sample_mount None)) None # earlier @ sy_log power_on"
    using backup_started(2) by (auto simp: power_on_def dest: split_list)
  from mounting_takes_nothing_away [OF prod.collapse [symmetric] this]
  show ?thesis unfolding sample_supervisor_fields by (metis (no_types))
qed

theorem a_mount_means_what_it_says_witness:
  "seen_up sample_mount (sy_log (snd (sup_mount sample_supervisor ''backup'' (machine False False) power_on)))"
proof -
  let ?run = "sup_mount sample_supervisor ''backup'' (machine False False) power_on"
  have "?run = (Inr (), snd ?run)" using backup_started(1) by (metis prod.collapse)
  from a_mount_means_what_it_says [OF this, of "sy_log (snd ?run)"]
  show ?thesis by (auto simp: power_on_def sample_supervisor_fields sample_target)
qed

end
