(* ===== verification/Waits.thy ===== *)
theory Waits
  imports Mounting
begin

text \<open>
  How long the supervisor waits: every loop sleeps only as often as its timeout allows, whatever
  the host answers, so a mount and an unmount end in bounded time.
\<close>

section \<open>Counting sleeps\<close>

definition sleeps :: "log \<Rightarrow> nat" where
  "sleeps l = length (filter (\<lambda>e. e = EvSleep) l)"

lemma sleeps_append [simp]: "sleeps (a @ b) = sleeps a + sleeps b" "sleeps (e # b) = (if e = EvSleep then 1 else 0) + sleeps b"
  "sleeps [] = 0"
  by (simp_all add: sleeps_def)

text \<open>\<open>naps n m\<close>: a run of \<open>m\<close> sleeps at most \<open>n\<close> times.\<close>

definition naps :: "nat \<Rightarrow> 'a prog \<Rightarrow> bool" where
  "naps n m = (\<forall>H s. \<exists>new. sy_log (snd (m H s)) = new @ sy_log s \<and> sleeps new \<le> n)"

abbreviation awake :: "'a prog \<Rightarrow> bool" where
  "awake m \<equiv> behaves (\<lambda>e. e \<noteq> EvSleep) any_error m"

lemma sleeps_awake: "list_all (\<lambda>e. e \<noteq> EvSleep) new \<Longrightarrow> sleeps new = 0"
  by (induction new) auto

lemma naps_awake: "awake m \<Longrightarrow> naps n m"
  unfolding behaves_def naps_def using sleeps_awake by fastforce

lemma naps_mono: "naps n m \<Longrightarrow> n \<le> k \<Longrightarrow> naps k m"
  unfolding naps_def by (meson le_trans)

lemma naps_andthen:
  assumes "naps a m" "\<And>x. naps b (f x)"
  shows "naps (a + b) (andthen m f)"
  unfolding naps_def
proof (intro allI)
  fix H s
  obtain r t where m: "m H s = (r, t)" by force
  obtain new where new: "sy_log t = new @ sy_log s" "sleeps new \<le> a"
    using assms(1) m unfolding naps_def by (metis snd_conv)
  show "\<exists>new. sy_log (snd (andthen m f H s)) = new @ sy_log s \<and> sleeps new \<le> a + b"
  proof (cases r)
    case (Inl e)
    then show ?thesis using m new by (auto simp: andthen_def intro!: exI [of _ new])
  next
    case (Inr x)
    obtain new' where "sy_log (snd (f x H t)) = new' @ sy_log t" "sleeps new' \<le> b"
      using assms(2) unfolding naps_def by blast
    then show ?thesis using m new Inr by (auto simp: andthen_def intro!: exI [of _ "new' @ new"])
  qed
qed

lemma naps_attempt: "naps n m \<Longrightarrow> naps n (attempt m)"
  by (simp add: naps_def attempt_def split_def)

lemmas naps_after = naps_andthen [where a = 0, simplified, OF naps_awake]
lemmas naps_before = naps_andthen [where b = 0, simplified]

text \<open>How many intervals fit before a deadline.\<close>

definition rounds :: "nat \<Rightarrow> nat" where
  "rounds ms = (ms + POLL_INTERVAL - 1) div POLL_INTERVAL"

lemma rounds_step:
  assumes "0 < d" "e \<le> d - POLL_INTERVAL"
  shows "1 + rounds e \<le> rounds d"
proof (cases "d \<le> POLL_INTERVAL")
  case True
  with assms show ?thesis by (simp add: rounds_def POLL_INTERVAL_def)
next
  case False
  with assms have "e + 250 + 249 \<le> d + 249" by (simp add: POLL_INTERVAL_def)
  then have "(e + 249 + 250) div 250 \<le> (d + 249) div 250" by (intro div_le_mono) simp
  moreover have "(e + 249 + 250) div 250 = (e + 249) div 250 + 1" by (rule div_add_self2) simp
  ultimately show ?thesis by (simp add: rounds_def POLL_INTERVAL_def add.commute)
qed

lemma rounds_mono: "a \<le> b \<Longrightarrow> rounds a \<le> rounds b"
  unfolding rounds_def by (rule div_le_mono) (simp add: POLL_INTERVAL_def)

lemma poll_sleeps:
  assumes "awake step" "awake late"
  shows "\<exists>new. sy_log (snd (poll_until step POLL_INTERVAL deadline late H s)) = new @ sy_log s
    \<and> sleeps new \<le> rounds (deadline - sy_clock s)"
  using assms
proof (induction step "POLL_INTERVAL" deadline late H s rule: poll_until.induct)
  case (1 step deadline late H s)
  obtain r t where m: "step H s = (r, t)" by force
  obtain new where new: "sy_log t = new @ sy_log s" "sleeps new = 0"
    using 1(2) m sleeps_awake unfolding behaves_def by (metis snd_conv)
  define now where "now = max (sy_clock s) (sy_clock t)"
  consider (over) "\<exists>e. r = Inl e \<or> (\<exists>a. r = Inr (Some a))" | (late) "r = Inr None" "deadline \<le> now"
    | (again) "r = Inr None" "now < deadline"
    by (metis not_le option.exhaust sum.exhaust)
  then show ?case
  proof cases
    case over
    then have "snd (poll_until step POLL_INTERVAL deadline late H s) = t"
      using m by (subst poll_until.simps) auto
    then show ?thesis using new by simp
  next
    case late
    obtain new' where "sy_log (snd (late H t)) = new' @ sy_log t" "sleeps new' = 0"
      using 1(3) sleeps_awake unfolding behaves_def by metis
    moreover have "poll_until step POLL_INTERVAL deadline late H s = late H t"
      using m late by (subst poll_until.simps) (simp add: now_def [symmetric])
    ultimately show ?thesis using new by (intro exI [of _ "new' @ new"]) simp
  next
    case again
    define u where "u = snd (pause POLL_INTERVAL H (t\<lparr>sy_clock := now\<rparr>))"
    have u: "sy_log u = EvSleep # sy_log t" "now + POLL_INTERVAL \<le> sy_clock u" by (simp_all add: u_def pause_def)
    obtain new' where new': "sy_log (snd (poll_until step POLL_INTERVAL deadline late H u)) = new' @ sy_log u"
        "sleeps new' \<le> rounds (deadline - sy_clock u)"
      using "1.hyps" [OF m [symmetric] again(1) refl now_def] again(2) 1(2,3)
      unfolding u_def now_def by (auto simp: POLL_INTERVAL_def)
    have "deadline - sy_clock u \<le> deadline - sy_clock s - POLL_INTERVAL" using u(2) by (auto simp: now_def)
    then have "1 + rounds (deadline - sy_clock u) \<le> rounds (deadline - sy_clock s)"
      by (rule rounds_step [rotated]) (use again(2) in \<open>simp add: now_def\<close>)
    moreover have "poll_until step POLL_INTERVAL deadline late H s = poll_until step POLL_INTERVAL deadline late H u"
      using m again by (subst poll_until.simps) (simp add: now_def [symmetric] u_def POLL_INTERVAL_def)
    ultimately show ?thesis using new u(1) new' by (intro exI [of _ "new' @ EvSleep # new"]) simp
  qed
qed


section \<open>What never sleeps\<close>

lemma awake_manager: "awake manager" and awake_or_fail: "awake (or_fail c r)" and awake_ok: "awake (ok_or_fail c b)"
  by (auto simp: manager_def or_fail_def ok_or_fail_def intro!: behave)

lemmas awake = behave awake_manager awake_or_fail awake_ok

lemma awake_status: "awake (unit_status u)"
  by (auto simp: unit_status_def intro!: awake)

lemma awake_serving: "awake (serving path)"
  by (auto simp: serving_def intro!: awake split: list.split prod.split)

lemma awake_list_units: "awake (list_units p)"
  by (auto simp: list_units_def loaded_of_def intro!: awake awake_serving)

lemma awake_live: "awake live_mounts"
  by (auto simp: live_mounts_def intro!: awake)

lemma awake_resolved: "awake (resolved p)"
  by (auto simp: resolved_def intro!: awake)

lemma awake_stale: "awake (is_stale p)"
  by (auto simp: is_stale_def intro!: awake)

lemma awake_holds: "awake (configured_unit_holds c p argv)"
  by (induction c p argv rule: configured_unit_holds.induct)
    (auto intro!: awake awake_resolved split: option.split)

lemma awake_configured: "awake (resolve_configured ms)"
  by (auto simp: resolve_configured_def resolved_point_def intro!: awake awake_resolved)

lemma awake_sweep: "awake (sweep ms live argv c us)"
proof (induction us arbitrary: c)
  case (Cons u us)
  then show ?case
    by (auto intro!: awake awake_resolved awake_holds awake_configured split: option.split)
qed (auto intro!: awake)

lemma awake_orphans: "awake (orphans c)"
  by (auto simp: orphans_def intro!: awake awake_list_units awake_live awake_sweep)

lemma awake_target: "awake (unmount_target c name)"
  by (auto simp: unmount_target_def target_of_def resolved_point_def
      intro!: awake awake_orphans awake_resolved awake_status split: sum.split option.split)

lemma awake_reason: "awake (failure_reason c u)"
  by (auto simp: failure_reason_def recent_output_def intro!: awake)

lemma awake_release: "awake (release_point p how)"
  by (auto simp: release_point_def fusermount_def run_program_def intro!: awake split: run_result.split)

lemma awake_reset: "awake (reset_failed u)"
  by (auto simp: reset_failed_def intro!: awake)

lemma awake_stop: "awake (unit_stop u)"
  by (auto simp: unit_stop_def intro!: awake)

lemma awake_check: "awake (check_source t status)"
  by (auto simp: check_source_def argv_point_def
      intro!: awake awake_live awake_list_units awake_resolved split: option.split)

lemma awake_kernel: "awake (ask_the_kernel t md)"
  by (auto simp: ask_the_kernel_def intro!: awake awake_release awake_live split: sum.split)

lemma awake_first: "awake (release_first t force live status)"
  by (auto simp: release_first_def intro!: awake awake_check awake_kernel awake_live)

lemma awake_refusal: "awake (refuse_to_take_over c name p)"
  by (auto simp: refuse_to_take_over_def orphan_at_def intro!: awake awake_orphans)

lemma awake_prepare:
  "awake (prepare_mount_point p)" "awake (prepare_runtime_dir S)" "awake (remove_socket q)"
  "awake (pre_start_hook S name)" "awake (start_transient spec)"
  by (auto simp: prepare_mount_point_def prepare_runtime_dir_def remove_socket_def pre_start_hook_def
      start_transient_def Let_def intro!: awake split: sum.split io_error.split)

lemma awake_locks: "awake (lock_for name)" "awake (drop_lock name)"
  by (auto simp: lock_for_def drop_lock_def behaves_def andthen_def ask_def ret_def Let_def)


section \<open>The waits\<close>

lemma naps_wait:
  assumes "awake step" "awake late"
  shows "naps (rounds ms) (andthen clock_now (\<lambda>start. poll_until step POLL_INTERVAL (start + ms) late))"
  unfolding naps_def
proof (intro allI)
  fix H s
  show "\<exists>new. sy_log (snd (andthen clock_now (\<lambda>start. poll_until step POLL_INTERVAL (start + ms) late) H s)) = new @ sy_log s
      \<and> sleeps new \<le> rounds ms"
    using poll_sleeps [OF assms, of "sy_clock s + ms" H s] by (simp add: andthen_def clock_now_def)
qed

lemma naps_unit_gone: "naps (rounds ms) (await_unit_gone u ms)"
  unfolding await_unit_gone_def by (rule naps_wait) (auto intro!: awake awake_status)

lemma naps_gone: "naps (rounds ms) (await_gone p ms)"
  unfolding await_gone_def by (rule naps_wait) (auto intro!: awake awake_live)

lemma andthen_run: "m H s = (Inr a, t) \<Longrightarrow> andthen m f H s = f a H t"
  by (simp add: andthen_def)

lemma clock_run: "andthen clock_now f H s = f (sy_clock s) H s"
  by (simp add: andthen_def clock_now_def)

lemma naps_ready: "naps (rounds (sp_ready_timeout S)) (await_ready S m)"
  unfolding naps_def
proof (intro allI)
  fix H s
  define step where "step point = andthen live_mounts (\<lambda>es.
            if is_mounted_at es point then ret (Some ())
            else andthen (unit_status (unit_name m)) (\<lambda>status.
              if status = UFailed
              then andthen (failure_reason (sp_config S) (unit_name m)) (\<lambda>reason. fail (RcloneFailed reason None))
              else ret None))" for point
  define late :: "unit prog" where "late = andthen (failure_reason (sp_config S) (unit_name m)) (\<lambda>reason.
            fail (RcloneFailed (trim_end (from_utf8_lossy (mt_point m) @ '' did not start serving within ''
              @ show_nat (sp_ready_timeout S div 1000) @ ''s. '' @ reason)) None))"
  have quiet: "awake (step p)" "awake late" for p
    unfolding step_def late_def by (auto intro!: awake awake_live awake_status awake_reason)
  obtain p t where p: "resolved_point m H s = (Inr p, t)" by (simp add: resolved_point_def resolved_def andthen_def ask_def ret_def Let_def)
  have t: "sy_clock s \<le> sy_clock t" "\<exists>q. sy_log t = q @ sy_log s \<and> sleeps q = 0"
    using p by (auto simp: resolved_point_def resolved_def andthen_def ask_def ret_def Let_def
        intro!: exI [of _ "[_]"])
  have "await_ready S m H s = poll_until (step p) POLL_INTERVAL (sy_clock s + sp_ready_timeout S) late H t"
    unfolding await_ready_def step_def late_def by (simp only: clock_run andthen_run [of "resolved_point m" H s p t, OF p])
  moreover obtain new where "sy_log (snd (poll_until (step p) POLL_INTERVAL (sy_clock s + sp_ready_timeout S) late H t)) = new @ sy_log t"
      "sleeps new \<le> rounds (sy_clock s + sp_ready_timeout S - sy_clock t)"
    using poll_sleeps [OF quiet] by blast
  moreover have "rounds (sy_clock s + sp_ready_timeout S - sy_clock t) \<le> rounds (sp_ready_timeout S)"
    using t(1) by (intro rounds_mono) simp
  ultimately show "\<exists>new. sy_log (snd (await_ready S m H s)) = new @ sy_log s \<and> sleeps new \<le> rounds (sp_ready_timeout S)"
    using t(2) by (metis add.right_neutral append.assoc le_trans sleeps_append(1))
qed

lemma naps_if: "(b \<Longrightarrow> naps n m) \<Longrightarrow> (\<not> b \<Longrightarrow> naps n k) \<Longrightarrow> naps n (if b then m else k)"
  by simp

lemma naps_return: "naps n (ret a)" and naps_failure: "naps n (fail e)"
  by (auto intro!: naps_awake behave)

lemma naps_stop: "naps (rounds (sp_gone_timeout S) + rounds (sp_unit_gone_timeout S)) (stop_unit S t live)"
  unfolding stop_unit_def
proof (rule naps_after [OF awake_stop], rule naps_andthen)
  show "naps (rounds (sp_gone_timeout S)) (if \<not> live then ret True else await_gone (tg_point t) (sp_gone_timeout S))"
    by (simp add: naps_return naps_gone)
  show "naps (rounds (sp_unit_gone_timeout S)) (if \<not> gone then ret False
      else andthen (await_unit_gone (tg_unit t) (sp_unit_gone_timeout S)) (\<lambda>_.
        andthen (reset_failed (tg_unit t)) (\<lambda>_. ret True)))" for gone
    by (rule naps_if, rule naps_return, rule naps_before [OF naps_unit_gone], rule naps_awake)
      (auto intro!: behave awake_reset)
qed

lemma naps_last: "naps (rounds 10000) (last_resort t md)"
proof -
  have wait: "naps (rounds 10000) (andthen (await_gone (tg_point t) 10000) (\<lambda>gone.
      if gone then reset_failed (tg_unit t) else fail (Busy (msg_still_mounted (tg_point t)))))"
    by (rule naps_before [OF naps_gone], rule naps_awake) (auto intro!: behave awake_reset)
  have force: "awake (case r of Inr _ \<Rightarrow> ret () | Inl e \<Rightarrow> if \<not> md then fail (refused (tg_point t) e)
      else release_point (tg_point t) Detach)" for r :: "supervisor_error + unit"
    by (auto intro!: behave awake_release split: sum.split)
  show ?thesis
    unfolding last_resort_def
    by (rule naps_after [OF awake_live], rule naps_if, rule naps_return,
      rule naps_after [OF behaves_attempt [OF awake_release]], rule naps_after [OF force], rule wait)
qed

definition unmount_rounds :: "supervisor \<Rightarrow> nat" where
  "unmount_rounds S = rounds (sp_gone_timeout S) + rounds (sp_unit_gone_timeout S) + rounds 10000"

lemma naps_take_down: "naps (unmount_rounds S) (take_down S t force)"
  unfolding take_down_def Let_def
proof (rule naps_after [OF awake_live], rule naps_after [OF awake_status], rule naps_if, rule naps_failure,
    rule naps_if, rule naps_return)
  fix es status
  show "naps (unmount_rounds S) (release_and_stop S t force (is_mounted_at es (tg_point t)) status)"
    unfolding release_and_stop_def unmount_rounds_def Let_def
    by (rule naps_after [OF awake_first], rule naps_andthen, rule naps_if, rule naps_stop, rule naps_return,
      rule naps_if, rule naps_return, rule naps_last)
qed

lemma naps_unmount: "naps (unmount_rounds S) (sup_unmount S name force)"
proof -
  have early: "naps (unmount_rounds S) (andthen (case e of UnknownMount _ \<Rightarrow> drop_lock name | _ \<Rightarrow> ret ()) (\<lambda>_. fail e))" for e
    by (rule naps_awake) (auto intro!: behave awake_locks split: supervisor_error.split)
  have down: "naps (unmount_rounds S) (andthen (if tg_name t = name then ret ()
       else andthen (lock_for (tg_name t)) (\<lambda>_.
         andthen (ask (\<lambda>H l. h_lock_free H l (tg_name t)) (EvLockWait (tg_name t))) (\<lambda>got.
           if got then ret () else fail (Busy (msg_gave_up name t))))) (\<lambda>_. take_down S t force))" for t
    by (rule naps_after [OF _ naps_take_down]) (auto intro!: behave awake_locks)
  show ?thesis unfolding sup_unmount_def
  proof (rule naps_after [OF awake_locks(1)], rule naps_after [OF behaves_attempt [OF awake_target]])
    fix r
    show "naps (unmount_rounds S) (case r of
        Inl e \<Rightarrow> andthen (case e of UnknownMount _ \<Rightarrow> drop_lock name | _ \<Rightarrow> ret ()) (\<lambda>_. fail e)
      | Inr t \<Rightarrow> andthen (if tg_name t = name then ret ()
          else andthen (lock_for (tg_name t)) (\<lambda>_.
            andthen (ask (\<lambda>H l. h_lock_free H l (tg_name t)) (EvLockWait (tg_name t))) (\<lambda>got.
              if got then ret () else fail (Busy (msg_gave_up name t))))) (\<lambda>_. take_down S t force))"
      by (cases r) (simp_all only: sum.case early down)
  qed
qed


definition mount_rounds :: "supervisor \<Rightarrow> nat" where
  "mount_rounds S = 2 * rounds (sp_unit_gone_timeout S) + rounds (sp_ready_timeout S)"

lemma naps_clear: "naps (rounds (sp_unit_gone_timeout S)) (clear_the_point S m)"
proof -
  let ?n = "rounds (sp_unit_gone_timeout S)"
  have stale: "awake (andthen (refuse_to_take_over c name p) (\<lambda>_. andthen (release_point p Refuse) (\<lambda>_. ret False)))" for c name p
    by (auto intro!: awake awake_refusal awake_release)
  have by_status: "naps ?n (case status of UActive \<Rightarrow> ret True | UActivating \<Rightarrow> ret True
      | UDeactivating \<Rightarrow> andthen (await_unit_gone (unit_name m) (sp_unit_gone_timeout S)) (\<lambda>_. ret False)
      | UFailed \<Rightarrow> ret False | UInactive \<Rightarrow> fail e)" for status e
    by (cases status) (auto intro: naps_return naps_failure naps_before [OF naps_unit_gone behaves_ret [THEN naps_awake]])
  have refusal: "awake (if b then ret () else refuse_to_take_over c name p)" for b c name p
    by (auto intro!: behave awake_refusal)
  show ?thesis
    unfolding clear_the_point_def resolved_point_def Let_def
    by (rule naps_after [OF awake_resolved], rule naps_after [OF awake_live], rule naps_if, rule naps_return,
      rule naps_after [OF awake_stale], rule naps_if, rule naps_awake [OF stale],
      rule naps_after [OF awake_status], rule naps_after [OF refusal], rule by_status)
qed

lemma naps_start: "naps (rounds (sp_unit_gone_timeout S) + rounds (sp_ready_timeout S)) (start_unit S m)"
proof -
  let ?n = "rounds (sp_unit_gone_timeout S)" and ?k = "rounds (sp_ready_timeout S)"
  have wait: "naps ?n (if status = UDeactivating then await_unit_gone (unit_name m) (sp_unit_gone_timeout S) else ret ())" for status
    by (simp add: naps_return naps_unit_gone)
  show ?thesis
    unfolding start_unit_def
    by (rule naps_after [OF awake_prepare(1)], rule naps_after [OF awake_prepare(2)],
      rule naps_after [OF awake_status], rule naps_if, rule naps_mono [OF naps_ready le_add2],
      rule naps_andthen [OF wait], rule naps_after [OF awake_prepare(3)], rule naps_after [OF awake_reset],
      rule naps_after [OF awake_prepare(4)], rule naps_after [OF awake_prepare(5)], rule naps_ready)
qed

lemma naps_mount: "naps (mount_rounds S) (sup_mount S name)"
proof (cases "mount_config (sp_config S) name")
  case (Inl e)
  have "awake (sup_mount S name)"
    unfolding sup_mount_def Let_def Inl sum.case by (auto intro!: behave awake_orphans)
  then show ?thesis by (rule naps_awake)
next
  case (Inr m)
  have go: "naps (mount_rounds S) (andthen (clear_the_point S m) (\<lambda>ready. if ready then ret () else start_unit S m))"
    unfolding mount_rounds_def mult_2 add.assoc
    by (rule naps_andthen [OF naps_clear], rule naps_if, rule naps_return, rule naps_start)
  have look: "awake (if b then ret None else andthen (orphans c) (\<lambda>os. ret (find P os)))" for b c P
    by (auto intro!: behave awake_orphans)
  have "naps (mount_rounds S) (case moved of Some t \<Rightarrow> fail (NotManaged (msg_still_serving name t))
      | None \<Rightarrow> andthen (clear_the_point S m) (\<lambda>ready. if ready then ret () else start_unit S m))" for moved
    by (cases moved) (simp_all only: option.case go naps_failure)
  then show ?thesis
    unfolding sup_mount_def Let_def Inr sum.case
    by (rule naps_after [OF awake_locks(1), OF naps_after [OF awake_status, OF naps_after [OF look]]])
qed

text \<open>
  C13: Every operation comes back: whatever the host answers, and however often it changes its
  mind, an unmount sleeps at most 300 times and a mount at most 460 times a quarter of a second
  with the service's timeouts, and then returns an outcome.
\<close>

theorem no_operation_waits_forever:
  "(\<exists>new. sy_log (snd (sup_unmount (supervisor_new c rclone dir path) name force H s)) = new @ sy_log s
      \<and> length (filter (\<lambda>e. e = EvSleep) new) \<le> 300)
   \<and> (\<exists>new. sy_log (snd (sup_mount (supervisor_new c rclone dir path) name H s)) = new @ sy_log s
      \<and> length (filter (\<lambda>e. e = EvSleep) new) \<le> 460)"
proof -
  let ?S = "supervisor_new c rclone dir path"
  have "unmount_rounds ?S = 300" "mount_rounds ?S = 460"
    by (simp_all add: unmount_rounds_def mount_rounds_def supervisor_new_def rounds_def POLL_INTERVAL_def
        READY_TIMEOUT_def)
  then show ?thesis
    using naps_unmount [of ?S name force] naps_mount [of ?S name] unfolding naps_def sleeps_def by simp
qed

end
