(* ===== verification/Squatter.thy ===== *)
theory Squatter
  imports Mounting
begin


section \<open>A mount point somebody else holds\<close>

text \<open>
  A host on which the entry's unit has failed, or is not loaded, while another rclone serves the
  entry's mount point.
\<close>

definition squatted :: "bool \<Rightarrow> host" where
  "squatted failed = (machine failed False)\<lparr>h_active_state := \<lambda>_ _. Inr ''failed'', h_mountinfo := \<lambda>_. Inr backup_line\<rparr>"

definition failed_events :: log where
  "failed_events = [EvActiveState ''/u'' (Inr ''failed''), EvUnitOpen ''/u'' None, EvUnitPath ''/u'' None,
     EvGetUnit ''rvt-mount-backup.service'' (Inr ''/u''), EvManager None]"

lemma squatted_live:
  "live_mounts (squatted b) s = (Inr [backup_entry], s\<lparr>sy_log := EvMountinfo (Inr backup_line) # sy_log s\<rparr>)"
  by (simp add: live_mounts_def running squatted_def backup_line_parsed)

lemma squatted_status:
  "machine_unit b (sy_log s) \<Longrightarrow> unit_status ''rvt-mount-backup.service'' (squatted b) s
     = (Inr UFailed, s\<lparr>sy_log := failed_events @ sy_log s\<rparr>)"
  "\<not> machine_unit b (sy_log s) \<Longrightarrow> unit_status u (squatted b) s
     = (Inr UInactive, s\<lparr>sy_log := status_events False u @ sy_log s\<rparr>)"
  using no_such_unit_read
  by (simp_all add: unit_status_def manager_def running ok_or_fail_def or_fail_def squatted_def failed_events_def
      status_events_def unit_status_of_def)

lemma squatted_orphans:
  "orphans c (squatted b) s = (Inr [],
     s\<lparr>sy_log := EvMountinfo (Inr backup_line) # EvListUnits (UNIT_PREFIX @ ''*'') (Inr []) # EvManager None # sy_log s\<rparr>)"
proof -
  have "list_units UNIT_PREFIX (squatted b) s =
      (Inr [], s\<lparr>sy_log := EvListUnits (UNIT_PREFIX @ ''*'') (Inr []) # EvManager None # sy_log s\<rparr>)"
    by (simp add: list_units_def manager_def squatted_def running ok_or_fail_def or_fail_def)
  then show ?thesis by (simp add: orphans_def andthen_def squatted_live ret_def)
qed

lemma squatted_steps:
  "resolved p (squatted b) s = (Inr p, s\<lparr>sy_log := EvCanonicalize p (Some p) # sy_log s\<rparr>)"
  "is_stale p (squatted b) s = (Inr False, s\<lparr>sy_log := EvProbe p StatOk # sy_log s\<rparr>)"
  "prepare_mount_point p (squatted b) s = (Inr (), s\<lparr>sy_log := EvMetadata p (Inr True) # sy_log s\<rparr>)"
  "prepare_runtime_dir S (squatted b) s =
     (Inr (), s\<lparr>sy_log := EvChmod (sp_runtime_dir S) 448 None # EvMkdirs (sp_runtime_dir S) None # sy_log s\<rparr>)"
  "remove_socket q (squatted b) s = (Inr (), s\<lparr>sy_log := EvExists q False # sy_log s\<rparr>)"
  "pre_start_hook S name (squatted b) s = (Inr None, s\<lparr>sy_log := EvCurrentExe (Inl IoNotFound) # sy_log s\<rparr>)"
  "start_transient spec (squatted b) s =
     (Inr (), s\<lparr>sy_log := EvStartUnit (us_name spec) (unit_properties spec) None # EvManager None # sy_log s\<rparr>)"
  "reset_failed u (squatted b) s = (Inr (), s\<lparr>sy_log := EvResetFailed u None # EvManager None # sy_log s\<rparr>)"
  by (simp_all add: resolved_def is_stale_def prepare_mount_point_def prepare_runtime_dir_def remove_socket_def
      pre_start_hook_def start_transient_def reset_failed_def manager_def ok_or_fail_def squatted_def running)
    (simp add: machine_def)

lemma squatted_ready:
  "await_ready S sample_mount (squatted b) s =
     (Inr (), s\<lparr>sy_log := EvMountinfo (Inr backup_line) # EvCanonicalize ''/mnt/backup'' (Some ''/mnt/backup'') # sy_log s\<rparr>)"
  unfolding await_ready_def resolved_point_def
  by (simp add: andthen_def clock_now_def squatted_steps, subst poll_until.simps)
    (simp add: sample_mount_def andthen_def squatted_live ret_def backup_mounted)

lemma squatted_refusal:
  "refuse_to_take_over c name p (squatted b) s = (Inr (), snd (orphans c (squatted b) s))"
  by (simp add: refuse_to_take_over_def orphan_at_def andthen_def squatted_orphans ret_def)

lemma units_after [simp]:
  "machine_unit b (failed_events @ l) = machine_unit b l" "machine_unit b failed_events = b"
  "machine_unit b (status_events c u) = b"
  by (simp_all add: failed_events_def status_events_def)

text \<open>
  An entry whose unit has failed is mounted over whatever rclone already serves its mount
  point: the unit is started across the foreign mount and success is reported on seeing that
  same mount, though the unit was never seen in any state but failed. The same point under a
  unit that is not loaded is refused as not ours.
\<close>

theorem a_failed_unit_is_started_over_a_foreign_mount:
  "fst (sup_mount sample_supervisor ''backup'' (squatted True) power_on) = Inr ()
   \<and> (\<exists>props. EvStartUnit ''rvt-mount-backup.service'' props None
        \<in> set (sy_log (snd (sup_mount sample_supervisor ''backup'' (squatted True) power_on))))
   \<and> (\<exists>x. fst (sup_mount sample_supervisor ''backup'' (squatted False) power_on) = Inl (NotManaged x))"
  by (simp add: sup_mount_def sample_supervisor_fields sample_target lock_for_def power_on_def andthen_def
      squatted_status squatted_orphans ret_def fail_def clear_the_point_def resolved_point_def squatted_steps squatted_live
      backup_mounted sample_mount_facts Let_def squatted_refusal start_unit_def squatted_ready unit_spec_of_def
      del: append.simps) auto

end
