(* ===== verification/Registry.thy ===== *)
theory Registry
  imports Ipc
begin

text \<open>
  What the service believes about its mounts (crates/service/src/registry.rs), and the changes
  it publishes so that a client which only ever hears changes holds the same picture.
\<close>

section \<open>The registry\<close>

datatype change =
    MountChange mount_view
  | Removed string
  | TransferChange transfer_view
  | CapabilityTier

record registry =
  rg_mounts :: "mount_view btree"
  rg_transfers :: "transfer_view btree"
  rg_tier :: "tier option"

definition registry_default :: registry where
  "registry_default = \<lparr>rg_mounts = [], rg_transfers = [], rg_tier = None\<rparr>"

definition pollable_view :: "mount_view \<Rightarrow> bool" where
  "pollable_view v = (mv_state v = state_name Mounted)"

definition why_not_polled :: "mount_view \<Rightarrow> string" where
  "why_not_polled m =
     (case state_from_name (mv_state m) (mv_reason m) of
        Some Foreign \<Rightarrow> ''started outside this service, so its rc socket is unknown''
      | Some Orphaned \<Rightarrow> ''no configuration describes this mount any more''
      | Some Mounted \<Rightarrow> ''not polled yet''
      | _ \<Rightarrow> ''the mount is not serving'')"

definition nothing_to_say :: "mount_view \<Rightarrow> transfer_view" where
  "nothing_to_say m = transfer_view_of (unmonitored (mv_name m) (why_not_polled m))"

definition not_swept_yet :: "string \<Rightarrow> transfer_view" where
  "not_swept_yet name =
     transfer_view_of (unmonitored name ''no sweep has reported on this mount yet'')"

text \<open>One row of a sweep: the readings kept, the rows seen, the changes so far.\<close>

definition sweep_row ::
  "mount_view btree \<Rightarrow> transfer_view btree \<times> mount_view btree \<times> change list \<Rightarrow> mount_view
     \<Rightarrow> transfer_view btree \<times> mount_view btree \<times> change list"
where
  "sweep_row mounts acc view =
     (case acc of (transfers, seen, changes) \<Rightarrow>
      (let changed = (bt_get (mv_name view) mounts \<noteq> Some view);
           dropped = (\<not> pollable_view view \<and> bt_get (mv_name view) transfers \<noteq> None) in
       (if \<not> pollable_view view then bt_remove (mv_name view) transfers else transfers,
        bt_insert (mv_name view) view seen,
        changes @ (if dropped then [TransferChange (nothing_to_say view)] else [])
          @ (if changed then [MountChange view] else []))))"

text \<open>A name the sweep no longer has.\<close>

definition sweep_gone ::
  "mount_view btree \<Rightarrow> transfer_view btree \<times> change list \<Rightarrow> string \<Rightarrow> transfer_view btree \<times> change list"
where
  "sweep_gone seen acc name =
     (case acc of (transfers, changes) \<Rightarrow>
       if bt_get name seen = None then (bt_remove name transfers, changes @ [Removed name])
       else (transfers, changes))"

definition observe_mounts :: "mount_view list \<Rightarrow> registry \<Rightarrow> registry \<times> change list" where
  "observe_mounts found r =
     (case foldl (sweep_row (rg_mounts r)) (rg_transfers r, [], []) found of
        (transfers, seen, changes) \<Rightarrow>
          (case foldl (sweep_gone seen) (transfers, changes) (bt_keys (rg_mounts r)) of
             (transfers, changes) \<Rightarrow>
               (r\<lparr>rg_mounts := seen, rg_transfers := transfers\<rparr>, changes)))"

definition observe_transfer :: "transfer_view \<Rightarrow> registry \<Rightarrow> registry \<times> change option" where
  "observe_transfer view r =
     (if bt_get (tv_mount view) (rg_transfers r) = Some view then (r, None)
      else (r\<lparr>rg_transfers := bt_insert (tv_mount view) view (rg_transfers r)\<rparr>,
            Some (TransferChange view)))"

definition note_tier :: "tier \<Rightarrow> registry \<Rightarrow> registry \<times> change option" where
  "note_tier t r =
     (let best = Some (case rg_tier r of None \<Rightarrow> t | Some seen \<Rightarrow> min seen t) in
      if best = rg_tier r then (r, None) else (r\<lparr>rg_tier := best\<rparr>, Some CapabilityTier))"

definition reg_mounts :: "registry \<Rightarrow> mount_view list" where
  "reg_mounts r = bt_values (rg_mounts r)"

definition reg_mount :: "string \<Rightarrow> registry \<Rightarrow> mount_view option" where
  "reg_mount name r = bt_get name (rg_mounts r)"

definition reg_tier :: "registry \<Rightarrow> tier option" where
  "reg_tier r = rg_tier r"

definition reg_transfer :: "string \<Rightarrow> registry \<Rightarrow> transfer_view option" where
  "reg_transfer name r = bt_get name (rg_transfers r)"

definition pollable :: "registry \<Rightarrow> string list" where
  "pollable r = map mv_name (filter pollable_view (bt_values (rg_mounts r)))"

section \<open>A feed of changes\<close>

text \<open>
  A source that keeps a state and publishes changes, and a follower that applies them: if one
  observation keeps the two related, a whole run does, however the changes are batched.
\<close>

locale change_feed =
  fixes observe :: "'i \<Rightarrow> 'r \<Rightarrow> 'r \<times> 'c list"
    and follow :: "'m \<Rightarrow> 'c \<Rightarrow> 'm"
    and rel :: "'r \<Rightarrow> 'm \<Rightarrow> bool"
    and ok :: "'i \<Rightarrow> bool"
  assumes observe_rel: "rel r m \<Longrightarrow> ok i \<Longrightarrow> observe i r = (r', cs) \<Longrightarrow> rel r' (foldl follow m cs)"
begin

fun run :: "'i list \<Rightarrow> 'r \<Rightarrow> 'r \<times> 'c list" where
  "run [] r = (r, [])"
| "run (i # is) r =
     (case observe i r of (r1, cs) \<Rightarrow> case run is r1 of (r2, ds) \<Rightarrow> (r2, cs @ ds))"

lemma run_rel: "rel r m \<Longrightarrow> list_all ok is \<Longrightarrow> run is r = (r', cs) \<Longrightarrow> rel r' (foldl follow m cs)"
proof (induction "is" arbitrary: r m cs)
  case (Cons i "is")
  obtain r1 c1 where 1: "observe i r = (r1, c1)" by fastforce
  then obtain c2 where 2: "run is r1 = (r', c2)" "cs = c1 @ c2"
    using Cons.prems(3) by (auto split: prod.splits)
  have "rel r1 (foldl follow m c1)" using observe_rel [OF Cons.prems(1) _ 1] Cons.prems(2) by simp
  from Cons.IH [OF this _ 2(1)] Cons.prems(2) 2(2) show ?case by simp
qed simp

end

text \<open>What reaches the registry: a sweep, a reading, a tier a mount resolved.\<close>

datatype observation = Sweep "mount_view list" | Reading transfer_view | TierSeen tier

definition opt_list :: "'a option \<Rightarrow> 'a list" where
  "opt_list x = (case x of None \<Rightarrow> [] | Some a \<Rightarrow> [a])"

definition observe :: "observation \<Rightarrow> registry \<Rightarrow> registry \<times> change list" where
  "observe i r =
     (case i of
        Sweep found \<Rightarrow> observe_mounts found r
      | Reading view \<Rightarrow> map_prod id opt_list (observe_transfer view r)
      | TierSeen t \<Rightarrow> map_prod id opt_list (note_tier t r))"

text \<open>Rows of one sweep that share a name are the same row.\<close>

definition rows_agree :: "observation \<Rightarrow> bool" where
  "rows_agree i =
     (case i of
        Sweep found \<Rightarrow> list_all (\<lambda>v. list_all (\<lambda>w. mv_name v = mv_name w \<longrightarrow> v = w) found) found
      | _ \<Rightarrow> True)"

text \<open>The plainest follower: a table of rows and a table of readings.\<close>

record follower =
  fo_mounts :: "mount_view btree"
  fo_transfers :: "transfer_view btree"

definition follow :: "follower \<Rightarrow> change \<Rightarrow> follower" where
  "follow m c =
     (case c of
        MountChange v \<Rightarrow> m\<lparr>fo_mounts := bt_insert (mv_name v) v (fo_mounts m)\<rparr>
      | Removed n \<Rightarrow> m\<lparr>fo_mounts := bt_remove n (fo_mounts m),
                     fo_transfers := bt_remove n (fo_transfers m)\<rparr>
      | TransferChange v \<Rightarrow> m\<lparr>fo_transfers := bt_insert (tv_mount v) v (fo_transfers m)\<rparr>
      | CapabilityTier \<Rightarrow> m)"

text \<open>
  The follower has every row, every reading the registry holds, and where the registry holds
  none at most one that says it knows nothing.
\<close>

definition readings_agree :: "transfer_view btree \<Rightarrow> transfer_view btree \<Rightarrow> bool" where
  "readings_agree ts fs =
     ((\<forall>n v. bt_get n ts = Some v \<longrightarrow> bt_get n fs = Some v)
      \<and> (\<forall>n v. bt_get n ts = None \<longrightarrow> bt_get n fs = Some v \<longrightarrow> \<not> tv_outstanding_known v))"

definition in_step :: "registry \<Rightarrow> follower \<Rightarrow> bool" where
  "in_step r m =
     (bt_wf (rg_mounts r) \<and> bt_wf (fo_mounts m) \<and> rg_mounts r = fo_mounts m
      \<and> readings_agree (rg_transfers r) (fo_transfers m))"

lemma follow_simps [simp]:
  "follow m (MountChange v) = m\<lparr>fo_mounts := bt_insert (mv_name v) v (fo_mounts m)\<rparr>"
  "follow m (Removed n) = m\<lparr>fo_mounts := bt_remove n (fo_mounts m),
     fo_transfers := bt_remove n (fo_transfers m)\<rparr>"
  "follow m (TransferChange w) = m\<lparr>fo_transfers := bt_insert (tv_mount w) w (fo_transfers m)\<rparr>"
  "follow m CapabilityTier = m"
  by (simp_all add: follow_def)

lemma nothing_to_say_simps [simp]:
  "tv_mount (nothing_to_say v) = mv_name v" "\<not> tv_outstanding_known (nothing_to_say v)"
  by (simp_all add: nothing_to_say_def transfer_view_of_def unmonitored_def ts_empty_def)

lemma readings_agree_put:
  "readings_agree ts fs \<Longrightarrow> readings_agree (bt_insert n v ts) (bt_insert n v fs)"
  by (auto simp: readings_agree_def bt_simps)

lemma readings_agree_del:
  "readings_agree ts fs \<Longrightarrow> readings_agree (bt_remove n ts) (bt_remove n fs)"
  by (auto simp: readings_agree_def bt_simps)

lemma readings_agree_blank:
  "readings_agree ts fs \<Longrightarrow> \<not> tv_outstanding_known v
     \<Longrightarrow> readings_agree (bt_remove n ts) (bt_insert n v fs)"
  by (auto simp: readings_agree_def bt_simps)

lemma bt_remove_absent: "bt_get n ts = None \<Longrightarrow> bt_remove n ts = ts"
  by (force simp: bt_get_None bt_remove_def filter_id_conv)

text \<open>Where the first pass leaves the follower: the rows seen so far, over those it had.\<close>

definition half_swept ::
  "mount_view btree \<Rightarrow> mount_view set \<Rightarrow> transfer_view btree \<Rightarrow> mount_view btree \<Rightarrow> follower \<Rightarrow> bool"
where
  "half_swept M F transfers seen m =
     (bt_wf seen \<and> bt_wf (fo_mounts m) \<and> readings_agree transfers (fo_transfers m)
      \<and> (\<forall>n v. bt_get n seen = Some v \<longrightarrow> v \<in> F \<and> mv_name v = n \<and> bt_get n (fo_mounts m) = Some v)
      \<and> (\<forall>n. bt_get n seen = None \<longrightarrow> bt_get n (fo_mounts m) = bt_get n M))"

lemma half_swept_row:
  assumes "half_swept M F transfers seen (foldl follow m0 changes)" "view \<in> F"
    and "\<And>v w. v \<in> F \<Longrightarrow> w \<in> F \<Longrightarrow> mv_name v = mv_name w \<Longrightarrow> v = w"
    and "sweep_row M (transfers, seen, changes) view = (transfers', seen', changes')"
  shows "half_swept M F transfers' seen' (foldl follow m0 changes')"
proof -
  let ?n = "mv_name view"
  define m where "m = foldl follow m0 changes"
  define m1 where "m1 = (if \<not> pollable_view view \<and> bt_get ?n transfers \<noteq> None
    then follow m (TransferChange (nothing_to_say view)) else m)"
  have h: "half_swept M F transfers seen m" using assms(1) by (simp add: m_def)
  have t': "transfers' = (if \<not> pollable_view view then bt_remove ?n transfers else transfers)"
    and s': "seen' = bt_insert ?n view seen"
    and m': "foldl follow m0 changes'
      = (if bt_get ?n M \<noteq> Some view then follow m1 (MountChange view) else m1)"
    using assms(4) by (auto simp: sweep_row_def Let_def m_def m1_def)
  have same: "fo_mounts m1 = fo_mounts m" by (simp add: m1_def)
  have "readings_agree transfers' (fo_transfers m1)"
    using h by (auto simp: half_swept_def t' m1_def bt_remove_absent
        intro: readings_agree_blank)
  moreover have "fo_transfers (foldl follow m0 changes') = fo_transfers m1" by (simp add: m')
  ultimately have agree: "readings_agree transfers' (fo_transfers (foldl follow m0 changes'))" by simp
  have "bt_get ?n (fo_mounts m) = Some view" if "bt_get ?n M = Some view"
    using that h assms(2,3) by (cases "bt_get ?n seen") (auto simp: half_swept_def)
  then have get: "bt_get n (fo_mounts (foldl follow m0 changes'))
      = (if n = ?n then Some view else bt_get n (fo_mounts m))" for n
    by (simp add: m' same bt_simps)
  have wf: "bt_wf (fo_mounts (foldl follow m0 changes'))"
    using h by (simp add: m' same bt_simps half_swept_def)
  have "v \<in> F \<and> mv_name v = n \<and> bt_get n (fo_mounts (foldl follow m0 changes')) = Some v"
    if "bt_get n seen' = Some v" for n v
    using that h assms(2) unfolding get s' half_swept_def by (simp only: bt_simps split: if_splits) blast+
  moreover have "bt_get n (fo_mounts (foldl follow m0 changes')) = bt_get n M"
    if "bt_get n seen' = None" for n
    using that h unfolding get s' half_swept_def by (auto simp only: bt_simps split: if_splits)
  moreover have "bt_wf seen'" using h by (simp only: s' half_swept_def bt_simps)
  ultimately show ?thesis unfolding half_swept_def using agree wf by blast
qed

lemma half_swept_rows:
  "half_swept M F transfers seen (foldl follow m0 changes) \<Longrightarrow> set found \<subseteq> F
     \<Longrightarrow> (\<And>v w. v \<in> F \<Longrightarrow> w \<in> F \<Longrightarrow> mv_name v = mv_name w \<Longrightarrow> v = w)
     \<Longrightarrow> foldl (sweep_row M) (transfers, seen, changes) found = (transfers', seen', changes')
     \<Longrightarrow> half_swept M F transfers' seen' (foldl follow m0 changes')"
proof (induction found arbitrary: transfers seen changes)
  case (Cons view found)
  obtain t1 s1 c1 where 1: "sweep_row M (transfers, seen, changes) view = (t1, s1, c1)"
    by (metis prod_cases3)
  have "half_swept M F t1 s1 (foldl follow m0 c1)"
    using Cons.prems(2) by (intro half_swept_row [OF Cons.prems(1) _ Cons.prems(3) 1]) simp_all
  then show ?case
    using Cons.prems(2,4) 1 by (intro Cons.IH [OF _ _ Cons.prems(3)]) simp_all
qed simp

text \<open>The second pass: what was not seen goes, name by name.\<close>

definition nearly_swept ::
  "string list \<Rightarrow> transfer_view btree \<Rightarrow> mount_view btree \<Rightarrow> follower \<Rightarrow> bool"
where
  "nearly_swept ks transfers seen m =
     (bt_wf seen \<and> bt_wf (fo_mounts m) \<and> readings_agree transfers (fo_transfers m)
      \<and> (\<forall>n v. bt_get n seen = Some v \<longrightarrow> bt_get n (fo_mounts m) = Some v)
      \<and> (\<forall>n. bt_get n seen = None \<longrightarrow> bt_get n (fo_mounts m) = None \<or> n \<in> set ks))"

lemma nearly_swept_gone:
  "nearly_swept ks transfers seen (foldl follow m0 changes)
     \<Longrightarrow> foldl (sweep_gone seen) (transfers, changes) ks = (transfers', changes')
     \<Longrightarrow> nearly_swept [] transfers' seen (foldl follow m0 changes')"
proof (induction ks arbitrary: transfers changes)
  case (Cons k ks)
  obtain t1 c1 where 1: "sweep_gone seen (transfers, changes) k = (t1, c1)" by fastforce
  have "nearly_swept ks t1 seen (foldl follow m0 c1)"
    using Cons.prems(1) 1
    by (auto simp: nearly_swept_def sweep_gone_def bt_simps
        split: if_splits intro: readings_agree_del) (metis option.distinct(1))+
  from Cons.IH [OF this] Cons.prems(2) 1 show ?case by simp
qed simp

lemma observe_mounts_in_step:
  assumes "in_step r m" "rows_agree (Sweep found)" "observe_mounts found r = (r', cs)"
  shows "in_step r' (foldl follow m cs)"
proof -
  have agree: "\<And>v w. v \<in> set found \<Longrightarrow> w \<in> set found \<Longrightarrow> mv_name v = mv_name w \<Longrightarrow> v = w"
    using assms(2) by (auto simp: rows_agree_def list_all_iff)
  obtain t1 seen c1 where 1: "foldl (sweep_row (rg_mounts r)) (rg_transfers r, [], []) found = (t1, seen, c1)"
    by (metis prod_cases3)
  have "half_swept (rg_mounts r) (set found) (rg_transfers r) [] (foldl follow m [])"
    using assms(1) by (simp add: half_swept_def in_step_def)
  from half_swept_rows [OF this subset_refl agree 1]
  have h: "half_swept (rg_mounts r) (set found) t1 seen (foldl follow m c1)" .
  obtain t2 where 2: "foldl (sweep_gone seen) (t1, c1) (bt_keys (rg_mounts r)) = (t2, cs)"
    and r': "r' = r\<lparr>rg_mounts := seen, rg_transfers := t2\<rparr>"
    using assms(3) 1 by (auto simp: observe_mounts_def split: prod.splits)
  have "nearly_swept (bt_keys (rg_mounts r)) t1 seen (foldl follow m c1)"
    using h by (auto simp: half_swept_def nearly_swept_def bt_keys_get)
  from nearly_swept_gone [OF this 2] have n: "nearly_swept [] t2 seen (foldl follow m cs)" .
  then have "bt_get k seen = bt_get k (fo_mounts (foldl follow m cs))" for k
    by (cases "bt_get k seen") (auto simp: nearly_swept_def)
  with n show ?thesis by (auto simp: in_step_def r' nearly_swept_def intro: bt_ext)
qed

interpretation feed: change_feed observe follow in_step rows_agree
proof
  fix r m i r' cs
  assume "in_step r m" "rows_agree i" "observe i r = (r', cs)"
  then show "in_step r' (foldl follow m cs)"
  proof (cases i)
    case (Sweep found)
    with \<open>in_step r m\<close> \<open>rows_agree i\<close> \<open>observe i r = (r', cs)\<close> show ?thesis
      by (simp add: observe_def observe_mounts_in_step)
  next
    case (Reading v)
    with \<open>in_step r m\<close> \<open>observe i r = (r', cs)\<close> show ?thesis
      by (auto simp: observe_def observe_transfer_def opt_list_def in_step_def
          split: if_splits intro: readings_agree_put)
  next
    case (TierSeen t)
    with \<open>in_step r m\<close> \<open>observe i r = (r', cs)\<close> show ?thesis
      by (auto simp: observe_def note_tier_def opt_list_def in_step_def Let_def
          split: if_splits)
  qed
qed

section \<open>Properties\<close>

text \<open>What a client in step can tell.\<close>

lemma in_step_shows:
  assumes "in_step r f"
  shows "fo_mounts f = rg_mounts r
    \<and> (\<forall>n v. reg_transfer n r = Some v \<longrightarrow> bt_get n (fo_transfers f) = Some v)
    \<and> (\<forall>n v. bt_get n (fo_transfers f) = Some v
          \<longrightarrow> safe_to_unmount (transfer_of_view v) \<longrightarrow> reg_transfer n r = Some v)"
proof -
  have eq: "fo_mounts f = rg_mounts r" and ag: "readings_agree (rg_transfers r) (fo_transfers f)"
    using assms by (simp_all add: in_step_def)
  have "reg_transfer n r = Some v"
    if "bt_get n (fo_transfers f) = Some v" "safe_to_unmount (transfer_of_view v)" for n v
  proof -
    have "tv_outstanding_known v"
      using that(2) by (simp add: safe_to_unmount_def is_idle_def transfer_of_view_def)
    then show ?thesis using ag that(1) unfolding readings_agree_def reg_transfer_def
      by (metis option.exhaust option.inject)
  qed
  moreover have "bt_get n (fo_transfers f) = Some v" if "reg_transfer n r = Some v" for n v
    using ag that by (simp add: readings_agree_def reg_transfer_def)
  ultimately show ?thesis using eq by blast
qed

text \<open>
  A client that starts in step and applies every change the registry publishes stays in
  step through any run of sweeps, readings and resolved tiers: it has exactly the registry's
  rows and every reading it holds, and anything more it remembers says that it does not know
  what is outstanding, so no stale figure can be read as "safe to unmount".
\<close>

theorem followers_stay_in_step:
  assumes "in_step r m" "list_all rows_agree is" "feed.run is r = (r', cs)"
  shows "fo_mounts (foldl follow m cs) = rg_mounts r'
    \<and> (\<forall>n v. reg_transfer n r' = Some v \<longrightarrow> bt_get n (fo_transfers (foldl follow m cs)) = Some v)
    \<and> (\<forall>n v. bt_get n (fo_transfers (foldl follow m cs)) = Some v
          \<longrightarrow> safe_to_unmount (transfer_of_view v) \<longrightarrow> reg_transfer n r' = Some v)"
  by (rule in_step_shows [OF feed.run_rel [OF assms]])

definition sample_row :: "mount_state \<Rightarrow> mount_view" where
  "sample_row st = mount_view_of (discovered ''m'' st)"

definition sample_run :: "observation list" where
  "sample_run =
     [Sweep [sample_row Mounted], Reading (transfer_view_of (from_queue ''m'' sample_queue)),
      TierSeen T1, Sweep [sample_row Unmounted]]"

theorem followers_stay_in_step_witness:
  "fo_mounts (foldl follow \<lparr>fo_mounts = [], fo_transfers = []\<rparr> (snd (feed.run sample_run registry_default)))
     = rg_mounts (fst (feed.run sample_run registry_default))"
proof -
  have "in_step registry_default \<lparr>fo_mounts = [], fo_transfers = []\<rparr>"
    by (simp add: in_step_def registry_default_def readings_agree_def)
  moreover have "list_all rows_agree sample_run"
    by (simp add: sample_run_def rows_agree_def)
  ultimately show ?thesis
    using followers_stay_in_step [OF _ _ prod.collapse [symmetric]] by simp
qed

definition rows_of :: "mount_view list \<Rightarrow> mount_view btree" where
  "rows_of found = foldl (\<lambda>acc v. bt_insert (mv_name v) v acc) [] found"

lemma sweep_rows_seen:
  "foldl (sweep_row M) (transfers, seen, changes) found = (transfers', seen', changes')
     \<Longrightarrow> seen' = foldl (\<lambda>acc v. bt_insert (mv_name v) v acc) seen found"
proof (induction found arbitrary: transfers seen changes)
  case (Cons v found)
  obtain t1 s1 c1 where 1: "sweep_row M (transfers, seen, changes) v = (t1, s1, c1)"
    by (metis prod_cases3)
  then have "s1 = bt_insert (mv_name v) v seen" by (simp add: sweep_row_def Let_def)
  with Cons.IH [of t1 s1 c1] Cons.prems 1 show ?case by simp
qed simp

lemma sweep_rows_transfers:
  "foldl (sweep_row M) (transfers, seen, changes) found = (transfers', seen', changes')
     \<Longrightarrow> (bt_get n transfers = None \<or> (\<exists>v \<in> set found. mv_name v = n \<and> \<not> pollable_view v))
     \<Longrightarrow> bt_get n transfers' = None"
proof (induction found arbitrary: transfers seen changes)
  case (Cons v found)
  obtain t1 s1 c1 where 1: "sweep_row M (transfers, seen, changes) v = (t1, s1, c1)"
    by (metis prod_cases3)
  then have "t1 = (if \<not> pollable_view v then bt_remove (mv_name v) transfers else transfers)"
    by (simp add: sweep_row_def Let_def)
  with Cons.prems(2) have
    "bt_get n t1 = None \<or> (\<exists>v \<in> set found. mv_name v = n \<and> \<not> pollable_view v)"
    by (auto simp: bt_simps)
  with Cons.IH [of t1 s1 c1] Cons.prems(1) 1 show ?case by simp
qed simp

lemma sweep_gone_transfers:
  "foldl (sweep_gone seen) (transfers, changes) ks = (transfers', changes')
     \<Longrightarrow> bt_get n transfers = None \<Longrightarrow> bt_get n transfers' = None"
proof (induction ks arbitrary: transfers changes)
  case (Cons k ks)
  obtain t1 c1 where 1: "sweep_gone seen (transfers, changes) k = (t1, c1)" by fastforce
  then have "bt_get n t1 = None"
    using Cons.prems(2) by (auto simp: sweep_gone_def bt_simps split: if_splits)
  with Cons.IH [of t1 c1] Cons.prems(1) 1 show ?case by simp
qed simp

lemma sweep_rows_settled:
  "\<forall>v \<in> set found. bt_get (mv_name v) M = Some v
       \<and> (\<not> pollable_view v \<longrightarrow> bt_get (mv_name v) transfers = None)
     \<Longrightarrow> foldl (sweep_row M) (transfers, seen, changes) found
       = (transfers, foldl (\<lambda>acc v. bt_insert (mv_name v) v acc) seen found, changes)"
  by (induction found arbitrary: seen) (simp_all add: sweep_row_def Let_def bt_remove_absent)

lemma sweep_gone_settled:
  "\<forall>k \<in> set ks. bt_get k seen \<noteq> None \<Longrightarrow> foldl (sweep_gone seen) (transfers, changes) ks = (transfers, changes)"
  by (induction ks) (auto simp: sweep_gone_def)

lemma find_SomeD: "find P xs = Some x \<Longrightarrow> P x \<and> x \<in> set xs"
  by (induction xs) (auto split: if_splits)

lemma rows_of_get:
  assumes "rows_agree (Sweep found)"
  shows "bt_get n (rows_of found) = Some v \<longleftrightarrow> v \<in> set found \<and> mv_name v = n"
proof -
  have agree: "w = v" if "v \<in> set found" "w \<in> set found" "mv_name v = mv_name w" for v w
    using assms that by (auto simp: rows_agree_def list_all_iff)
  show ?thesis
  proof (cases "find (\<lambda>x. mv_name x = n) (rev found)")
    case None
    then have "bt_get n (rows_of found) = None" by (simp add: rows_of_def bt.get_foldl_put)
    moreover have "\<forall>x \<in> set found. mv_name x \<noteq> n" using None by (auto simp: find_None_iff)
    ultimately show ?thesis by auto
  next
    case (Some x)
    then have "bt_get n (rows_of found) = Some x" by (simp add: rows_of_def bt.get_foldl_put)
    moreover have "x \<in> set found" "mv_name x = n" using find_SomeD [OF Some] by simp_all
    ultimately show ?thesis using agree by (metis option.inject)
  qed
qed

lemma observe_mounts_rows:
  "observe_mounts found r = (r', cs) \<Longrightarrow> rg_mounts r' = rows_of found
     \<and> (\<forall>v \<in> set found. \<not> pollable_view v \<longrightarrow> bt_get (mv_name v) (rg_transfers r') = None)"
proof -
  assume o: "observe_mounts found r = (r', cs)"
  obtain t1 seen c1 where 1: "foldl (sweep_row (rg_mounts r)) (rg_transfers r, [], []) found = (t1, seen, c1)"
    by (metis prod_cases3)
  obtain t2 where 2: "foldl (sweep_gone seen) (t1, c1) (bt_keys (rg_mounts r)) = (t2, cs)"
    and r': "r' = r\<lparr>rg_mounts := seen, rg_transfers := t2\<rparr>"
    using o 1 by (auto simp: observe_mounts_def split: prod.splits)
  have "bt_get (mv_name v) t2 = None" if "v \<in> set found" "\<not> pollable_view v" for v
    using that sweep_gone_transfers [OF 2] sweep_rows_transfers [OF 1] by blast
  then show ?thesis using sweep_rows_seen [OF 1] by (simp add: r' rows_of_def)
qed

text \<open>
  A sweep is the whole truth about which mounts exist: afterwards the registry lists exactly
  the rows found, by name, keeps no reading for a row that is not polled, and the same sweep
  again changes nothing and publishes nothing.
\<close>

theorem sweep_is_the_truth:
  assumes "rows_agree (Sweep found)" "observe_mounts found r = (r', cs)"
  shows "set (reg_mounts r') = set found
    \<and> (\<forall>n v. reg_mount n r' = Some v \<longleftrightarrow> v \<in> set found \<and> mv_name v = n)
    \<and> (\<forall>v. v \<in> set found \<longrightarrow> \<not> pollable_view v \<longrightarrow> reg_transfer (mv_name v) r' = None)
    \<and> observe_mounts found r' = (r', [])"
proof -
  note rows = observe_mounts_rows [OF assms(2)] and get = rows_of_get [OF assms(1)]
  have wf: "bt_wf (rows_of found)"
    unfolding rows_of_def by (rule bt.wf_foldl_put) simp
  have vals: "v \<in> set (bt_values (rows_of found)) \<longleftrightarrow> v \<in> set found" for v
  proof
    assume "v \<in> set (bt_values (rows_of found))"
    then obtain k where "bt_get k (rows_of found) = Some v" using bt_values_get [OF wf] by blast
    then show "v \<in> set found" by (simp only: get)
  next
    assume "v \<in> set found"
    then have "bt_get (mv_name v) (rows_of found) = Some v" by (simp only: get)
    then show "v \<in> set (bt_values (rows_of found))" by (rule bt_get_values)
  qed
  have rows_settled: "foldl (sweep_row (rg_mounts r')) (rg_transfers r', [], []) found
      = (rg_transfers r', rows_of found, [])"
  proof -
    have "\<forall>v \<in> set found. bt_get (mv_name v) (rg_mounts r') = Some v
        \<and> (\<not> pollable_view v \<longrightarrow> bt_get (mv_name v) (rg_transfers r') = None)"
      using rows [THEN conjunct2] get [THEN iffD2] rows [THEN conjunct1] by auto
    then show ?thesis unfolding rows_of_def by (rule sweep_rows_settled)
  qed
  have "foldl (sweep_gone (rows_of found)) (rg_transfers r', []) (bt_keys (rg_mounts r'))
      = (rg_transfers r', [])"
    using rows by (intro sweep_gone_settled) (simp add: bt_keys_get)
  then have "observe_mounts found r' = (r', [])"
    using rows_settled rows by (simp add: observe_mounts_def)
  moreover have "set (reg_mounts r') = set found" using rows vals by (auto simp: reg_mounts_def)
  moreover have "reg_mount n r' = Some v \<longleftrightarrow> v \<in> set found \<and> mv_name v = n" for n v
    unfolding reg_mount_def using rows get by simp
  moreover have "reg_transfer (mv_name v) r' = None" if "v \<in> set found" "\<not> pollable_view v" for v
    unfolding reg_transfer_def using rows that by blast
  ultimately show ?thesis by blast
qed

theorem sweep_is_the_truth_witness:
  "set (reg_mounts (fst (observe_mounts [sample_row Mounted] registry_default))) = {sample_row Mounted}"
  using sweep_is_the_truth [of "[sample_row Mounted]", OF _ prod.collapse [symmetric]]
  by (simp add: rows_agree_def)

end
