(* ===== verification/Link.thy ===== *)
theory Link
  imports Ipc
begin

text \<open>
  Reaching the service from the tray and telling the ways that fail apart
  (crates/tray/src/link.rs): the errors with their sentences and exit codes, the handshake, and
  the back-off. What the bus answers is a parameter; the text of a bus failure is its own.
\<close>

section \<open>Failures\<close>

definition UNIT :: string where "UNIT = ''rclone-vfsmount-trayd''"
definition START_HINT :: string where
  "START_HINT = ''systemctl --user start rclone-vfsmount-trayd''"
definition MIN_INTERFACE :: "32 word" where "MIN_INTERFACE = 1"

datatype link_error =
    NoSessionBus zbus_error
  | NotRunning
  | Incompatible
  | TooOld "32 word" "32 word"
  | Refused ipc_error
  | Silent
  | Transport zbus_error

fun exit_code :: "link_error \<Rightarrow> nat" where
  "exit_code (Refused _) = 1"
| "exit_code NotRunning = 3"
| "exit_code Incompatible = 4"
| "exit_code (TooOld _ _) = 4"
| "exit_code (NoSessionBus _) = 5"
| "exit_code (Transport _) = 5"
| "exit_code Silent = 5"

fun zbus_text :: "zbus_error \<Rightarrow> string" where
  "zbus_text (MethodError _ t) = t"
| "zbus_text (Fdo _ t) = t"
| "zbus_text (OtherZbus t) = t"

text \<open>The description a D-Bus error carries; a transport failure has none of its own.\<close>

fun description :: "ipc_error \<Rightarrow> string option" where
  "description (ZBus _) = None"
| "description (IpcUnknownMount t) = Some t"
| "description (IpcBadMountPoint t) = Some t"
| "description (IpcRcloneFailed t) = Some t"
| "description (IpcPendingUploads t) = Some t"
| "description (IpcBusy t) = Some t"
| "description (IpcSupervision t) = Some t"
| "description (IpcNotManaged t) = Some t"

fun message :: "link_error \<Rightarrow> string" where
  "message (NoSessionBus e) =
     ''No session bus to reach ('' @ zbus_text e @ ''). This runs inside a desktop session; ''
       @ ''over SSH, point DBUS_SESSION_BUS_ADDRESS at the user bus.''"
| "message NotRunning =
     ''The rclone-vfsmount-tray service is not running. Start it with:'' @ [newline] @ ''    ''
       @ START_HINT @ [newline]
       @ ''This says nothing about your mounts: any that were up are still up.''"
| "message Incompatible =
     ''The service on this bus does not answer '' @ INTERFACE_NAME
       @ ''. It is a different, incompatible version of the interface; update the client and ''
       @ ''service to match.''"
| "message (TooOld needed found) =
     ''This command needs interface version '' @ show_nat (unat needed)
       @ '', but the service provides '' @ show_nat (unat found)
       @ ''. Update rclone-vfsmount-trayd.''"
| "message (Refused e) = unwrap_or (description e) ''the service refused the request''"
| "message Silent = ''The service did not answer. It may still be working on it.''"
| "message (Transport e) = ''The service could not be reached: '' @ zbus_text e"

declare message.simps [simp del]

datatype wire_kind = WireNotRunning | WireIncompatible | WireSilent | WireTransport

definition classify_error_name :: "string \<Rightarrow> wire_kind" where
  "classify_error_name name =
     (if name = ''org.freedesktop.DBus.Error.ServiceUnknown''
         \<or> name = ''org.freedesktop.DBus.Error.NameHasNoOwner'' then WireNotRunning
      else if name = ''org.freedesktop.DBus.Error.UnknownInterface''
         \<or> name = ''org.freedesktop.DBus.Error.UnknownObject''
         \<or> name = ''org.freedesktop.DBus.Error.UnknownMethod''
         \<or> name = ''org.freedesktop.DBus.Error.UnknownProperty'' then WireIncompatible
      else if name = ''org.freedesktop.DBus.Error.NoReply'' then WireSilent
      else WireTransport)"

fun dbus_error_name :: "zbus_error \<Rightarrow> string option" where
  "dbus_error_name (MethodError name _) = Some name"
| "dbus_error_name (Fdo name _) = Some name"
| "dbus_error_name (OtherZbus _) = None"

definition classify :: "zbus_error \<Rightarrow> wire_kind" where
  "classify e =
     (case dbus_error_name e of Some name \<Rightarrow> classify_error_name name | None \<Rightarrow> WireTransport)"

definition from_zbus :: "zbus_error \<Rightarrow> link_error" where
  "from_zbus e =
     (case classify e of
        WireNotRunning \<Rightarrow> NotRunning
      | WireIncompatible \<Rightarrow> Incompatible
      | WireSilent \<Rightarrow> Silent
      | WireTransport \<Rightarrow> Transport e)"

definition from_ipc :: "ipc_error \<Rightarrow> link_error" where
  "from_ipc e = (case e of ZBus z \<Rightarrow> from_zbus z | other \<Rightarrow> Refused other)"

section \<open>The handshake\<close>

text \<open>
  \<open>ba_on_bus\<close>: whether the connection has a unique name, so a daemon to ask. The rest is what
  each step of the handshake answers; an owner is a unique name.
\<close>

record bus_answers =
  ba_on_bus :: bool
  ba_dbus :: "zbus_error + unit"
  ba_owner :: "zbus_error + string"
  ba_destination :: "zbus_error + unit"
  ba_build :: "zbus_error + unit"
  ba_version :: "ipc_error + 32 word"

definition name_has_no_owner :: "zbus_error \<Rightarrow> bool" where
  "name_has_no_owner e =
     (case e of Fdo name _ \<Rightarrow> name = ''org.freedesktop.DBus.Error.NameHasNoOwner'' | _ \<Rightarrow> False)"

definition owner_on :: "bus_answers \<Rightarrow> link_error + string option" where
  "owner_on a =
     (if \<not> ba_on_bus a then Inr None
      else (case ba_dbus a of
              Inl e \<Rightarrow> Inl (from_zbus e)
            | Inr _ \<Rightarrow>
                (case ba_owner a of
                   Inr owner \<Rightarrow> Inr (Some owner)
                 | Inl e \<Rightarrow> if name_has_no_owner e then Inl NotRunning else Inl (from_zbus e))))"

text \<open>A proxy, known by whom its calls are addressed to: one connection, or the service's name.\<close>

definition build :: "bus_answers \<Rightarrow> string option \<Rightarrow> link_error + string option" where
  "build a dest =
     (case ba_build a of
        Inl e \<Rightarrow> Inl (from_zbus e)
      | Inr _ \<Rightarrow>
          (case ba_version a of
             Inl e \<Rightarrow> Inl (from_ipc e)
           | Inr version \<Rightarrow>
               if version < MIN_INTERFACE then Inl (TooOld MIN_INTERFACE version) else Inr dest))"

definition open_owner :: "bus_answers \<Rightarrow> string \<Rightarrow> link_error + string option" where
  "open_owner a owner =
     (case ba_destination a of Inl e \<Rightarrow> Inl (from_zbus e) | Inr _ \<Rightarrow> build a (Some owner))"

definition open_link :: "bus_answers \<Rightarrow> link_error + string option" where
  "open_link a =
     (case owner_on a of
        Inl e \<Rightarrow> Inl e
      | Inr (Some owner) \<Rightarrow> open_owner a owner
      | Inr None \<Rightarrow> build a None)"

section \<open>The back-off\<close>

text \<open>Seconds.\<close>

record backoff =
  bo_next :: nat

definition FIRST :: nat where "FIRST = 1"
definition CEILING :: nat where "CEILING = 60"

definition backoff_new :: backoff where "backoff_new = \<lparr>bo_next = FIRST\<rparr>"

definition backoff_take :: "backoff \<Rightarrow> nat \<times> backoff" where
  "backoff_take b = (let now = bo_next b in (now, b\<lparr>bo_next := min (now * 2) CEILING\<rparr>))"

definition backoff_reset :: "backoff \<Rightarrow> backoff" where
  "backoff_reset b = b\<lparr>bo_next := FIRST\<rparr>"

section \<open>Properties\<close>

text \<open>
  A refusal is the service's own answer and nothing else is: a call's failure is reported
  as refused exactly when the service answered with an error of its own, in that error's words
  and with exit code 1; a stopped service is told apart from every other failure, by its own
  exit code; and no failure of the bus is ever shown as a refusal.
\<close>

theorem refusals_are_answers:
  "(exit_code (from_ipc e) = 1 \<longleftrightarrow> (\<forall>z. e \<noteq> ZBus z))
    \<and> (exit_code (from_ipc e) = 1 \<longleftrightarrow> from_ipc e = Refused e)
    \<and> (exit_code (from_ipc e) = 1 \<longleftrightarrow> description e = Some (message (from_ipc e)))
    \<and> (exit_code (from_zbus z) = 3 \<longleftrightarrow>
         dbus_error_name z \<in> {Some ''org.freedesktop.DBus.Error.ServiceUnknown'',
                              Some ''org.freedesktop.DBus.Error.NameHasNoOwner''})
    \<and> (\<forall>r. from_zbus z \<noteq> Refused r)"
  by (cases e)
    (auto simp: from_ipc_def from_zbus_def classify_def classify_error_name_def message.simps
      split: wire_kind.splits option.splits if_splits)

text \<open>
  A link is only ever opened to a service that speaks this build's vocabulary, and on a bus
  only to the connection that owned the name when it was asked, never to the name itself, so no
  call of the client can start a service that has stopped.
\<close>

theorem open_checks_version_and_owner:
  assumes "open_link a = Inr dest"
  shows "(\<exists>v. ba_version a = Inr v \<and> MIN_INTERFACE \<le> v)
    \<and> (ba_on_bus a \<longrightarrow> (\<exists>owner. dest = Some owner \<and> ba_owner a = Inr owner))
    \<and> (\<not> ba_on_bus a \<longrightarrow> dest = None)"
  using assms
  by (auto simp: open_link_def owner_on_def open_owner_def build_def not_less
      split: sum.splits option.splits if_splits)

definition sample_bus :: bus_answers where
  "sample_bus =
     \<lparr>ba_on_bus = True, ba_dbus = Inr (), ba_owner = Inr '':1.5'', ba_destination = Inr (),
      ba_build = Inr (), ba_version = Inr 2\<rparr>"

theorem open_checks_version_and_owner_witness:
  "open_link sample_bus = Inr (Some '':1.5'') \<and> MIN_INTERFACE \<le> 2"
proof -
  have "open_link sample_bus = Inr (Some '':1.5'')"
    by (simp add: sample_bus_def open_link_def owner_on_def open_owner_def build_def MIN_INTERFACE_def)
  with open_checks_version_and_owner [OF this] show ?thesis by (simp add: sample_bus_def)
qed

fun waits :: "nat \<Rightarrow> backoff \<Rightarrow> nat list" where
  "waits 0 b = []"
| "waits (Suc n) b = (case backoff_take b of (w, b') \<Rightarrow> w # waits n b')"

lemma capped_doubling: "min (min (x * 2) c * 2 ^ j) c = min (x * 2 ^ Suc j) (c :: nat)"
proof (cases "x * 2 \<le> c")
  case False
  have "(1 :: nat) \<le> 2 ^ j" by simp
  then have "c \<le> c * 2 ^ j" "x * 2 \<le> x * 2 * 2 ^ j" by (metis mult_le_mono2 mult.right_neutral)+
  moreover from this False have "c \<le> x * 2 * 2 ^ j" by linarith
  moreover have "x * 2 * 2 ^ j = x * 2 ^ Suc j" by simp
  moreover have "min (x * 2) c = c" using False by simp
  ultimately show ?thesis by (simp only: min_absorb2)
qed (simp add: min_absorb1 mult.assoc)

lemma waits_nth: "i < n \<Longrightarrow> bo_next b \<le> CEILING \<Longrightarrow> waits n b ! i = min (bo_next b * 2 ^ i) CEILING"
proof (induction n arbitrary: b i)
  case (Suc n)
  show ?case
  proof (cases i)
    case (Suc j)
    with Suc.prems Suc.IH [of j "b\<lparr>bo_next := min (bo_next b * 2) CEILING\<rparr>"] show ?thesis
      by (simp only: waits.simps backoff_take_def Let_def prod.case nth_Cons_Suc)
        (simp add: capped_doubling)
  qed (use Suc.prems in \<open>simp add: backoff_take_def Let_def\<close>)
qed simp

text \<open>
  Retries back off to a ceiling: the \<open>i\<close>-th wait after a connection that worked is
  \<open>2 ^ i\<close> seconds, and never more than a minute however often it is taken.
\<close>

theorem backoff_doubles_to_a_minute:
  assumes "i < n"
  shows "waits n (backoff_reset b) ! i = min (2 ^ i) 60 \<and> 1 \<le> waits n (backoff_reset b) ! i"
  using waits_nth [OF assms, of "backoff_reset b"]
  by (simp add: backoff_reset_def FIRST_def CEILING_def)

theorem backoff_doubles_to_a_minute_witness: "waits 8 (backoff_reset backoff_new) ! 7 = 60"
  using backoff_doubles_to_a_minute [of 7 8 backoff_new] by simp

end
