(* ===== verification/TrayModel.thy ===== *)
theory TrayModel
  imports Registry Link
begin

text \<open>
  What the tray knows and the readings it takes from that (crates/tray/src/model.rs): the link,
  the rows and readings, the notice, the actions a user asks for, the summary over all mounts
  and the state the icon shows. Menu text is in the theory of phrases.
\<close>

section \<open>Actions, link and notice\<close>

datatype action =
    ActMount string
  | ActUnmount string
  | Open string
  | StartService
  | StopService
  | Refresh
  | Quit

record down =
  dn_headline :: string
  dn_offer_start :: bool

record service_info =
  si_service_version :: string
  si_interface_version :: "32 word"
  si_rclone_version :: string
  si_capability_tier :: string

datatype link = Connecting | Down down | Up service_info

definition down_from_error :: "link_error \<Rightarrow> down" where
  "down_from_error e =
     (case (case e of
          NotRunning \<Rightarrow> (''The service is not running'', True)
        | NoSessionBus _ \<Rightarrow> (''No session bus to reach'', False)
        | Incompatible \<Rightarrow>
            (''The service speaks a different interface '' @ em_dash @ '' update both halves'', False)
        | TooOld needed found \<Rightarrow>
            (''The service is too old: it offers interface '' @ show_nat (unat found)
               @ '', this needs '' @ show_nat (unat needed), False)
        | _ \<Rightarrow> (message e, False)) of
      (headline, offer_start) \<Rightarrow> \<lparr>dn_headline = headline, dn_offer_start = offer_start\<rparr>)"

record notice =
  no_mount :: "string option"
  no_text :: string
  no_answered_by :: "bool option"

fun target :: "action \<Rightarrow> string option \<times> bool option" where
  "target (ActMount name) = (Some name, Some True)"
| "target (ActUnmount name) = (Some name, Some False)"
| "target _ = (None, None)"

fun reports_back :: "action \<Rightarrow> bool" where
  "reports_back Refresh = False"
| "reports_back Quit = False"
| "reports_back _ = True"

definition supersedes :: "action \<Rightarrow> notice option \<Rightarrow> bool" where
  "supersedes a showing =
     (case showing of
        None \<Rightarrow> False
      | Some n \<Rightarrow>
          (case no_answered_by n of
             None \<Rightarrow> reports_back a
           | Some _ \<Rightarrow> (let about = fst (target a) in about \<noteq> None \<and> about = no_mount n)))"

datatype tray_state =
    StConnecting | Disconnected | Attention | Degraded | Syncing | Offline | Idle

fun icon_name :: "tray_state \<Rightarrow> string" where
  "icon_name StConnecting = ''image-loading''"
| "icon_name Disconnected = ''network-error''"
| "icon_name Attention = ''dialog-warning''"
| "icon_name Degraded = ''dialog-question''"
| "icon_name Syncing = ''sync-synchronizing''"
| "icon_name Offline = ''network-offline''"
| "icon_name Idle = ''folder-remote''"

fun needs_attention :: "tray_state \<Rightarrow> bool" where
  "needs_attention Attention = True"
| "needs_attention _ = False"

fun label :: "tray_state \<Rightarrow> string" where
  "label StConnecting = ''Connecting'' @ ellipsis"
| "label Disconnected = ''Service unreachable''"
| "label Attention = ''Needs attention''"
| "label Degraded = ''State partly unknown''"
| "label Syncing = ''Uploading''"
| "label Offline = ''Nothing mounted''"
| "label Idle = ''Up to date''"

section \<open>The model\<close>

text \<open>\<open>tm_sent\<close> is the queue of actions; \<open>tm_closed\<close> says its receiver has gone.\<close>

record tray_model =
  tm_link :: link
  tm_mounts :: "mount_view btree"
  tm_transfers :: "transfer_state btree"
  tm_notice :: "notice option"
  tm_sent :: "action list"
  tm_closed :: bool

definition tray_new :: "action list \<Rightarrow> bool \<Rightarrow> tray_model" where
  "tray_new sent gone =
     \<lparr>tm_link = Connecting, tm_mounts = [], tm_transfers = [], tm_notice = None,
      tm_sent = sent, tm_closed = gone\<rparr>"

definition act :: "action \<Rightarrow> tray_model \<Rightarrow> tray_model" where
  "act a m =
     (let m = (if supersedes a (tm_notice m) then m\<lparr>tm_notice := None\<rparr> else m) in
      if tm_closed m then m else m\<lparr>tm_sent := tm_sent m @ [a]\<rparr>)"

definition set_notice :: "string option \<Rightarrow> string \<Rightarrow> bool option \<Rightarrow> tray_model \<Rightarrow> tray_model" where
  "set_notice mount text answered_by m =
     m\<lparr>tm_notice := Some \<lparr>no_mount = mount, no_text = text, no_answered_by = answered_by\<rparr>\<rparr>"

definition go_down :: "link_error \<Rightarrow> tray_model \<Rightarrow> tray_model" where
  "go_down e m =
     m\<lparr>tm_link := Down (down_from_error e), tm_mounts := [], tm_transfers := [], tm_notice := None\<rparr>"

definition collect_mounts :: "mount_view list \<Rightarrow> mount_view btree" where
  "collect_mounts vs = foldl (\<lambda>acc v. bt_insert (mv_name v) v acc) [] vs"

definition go_up :: "service_info \<Rightarrow> mount_view list \<Rightarrow> tray_model \<Rightarrow> tray_model" where
  "go_up info mounts m =
     m\<lparr>tm_link := Up info, tm_mounts := collect_mounts mounts, tm_transfers := [], tm_notice := None\<rparr>"

definition go_connecting :: "tray_model \<Rightarrow> tray_model" where
  "go_connecting m =
     m\<lparr>tm_link := Connecting, tm_mounts := [], tm_transfers := [], tm_notice := None\<rparr>"

definition restate :: "service_info \<Rightarrow> tray_model \<Rightarrow> tray_model" where
  "restate info m = (case tm_link m of Up _ \<Rightarrow> m\<lparr>tm_link := Up info\<rparr> | _ \<Rightarrow> m)"

definition resync :: "service_info \<Rightarrow> mount_view list \<Rightarrow> tray_model \<Rightarrow> tray_model" where
  "resync info mounts m =
     m\<lparr>tm_link := Up info, tm_mounts := collect_mounts mounts, tm_transfers := []\<rparr>"

definition upsert_mount :: "mount_view \<Rightarrow> tray_model \<Rightarrow> tray_model" where
  "upsert_mount v m =
     (let m = (if is_some_and (tm_notice m)
                 (\<lambda>n. no_mount n = Some (mv_name v) \<and> no_answered_by n = Some (mv_live v))
               then m\<lparr>tm_notice := None\<rparr> else m) in
      m\<lparr>tm_mounts := bt_insert (mv_name v) v (tm_mounts m)\<rparr>)"

definition remove_mount :: "string \<Rightarrow> tray_model \<Rightarrow> tray_model" where
  "remove_mount name m =
     (let m = (if (case tm_notice m of None \<Rightarrow> None | Some n \<Rightarrow> no_mount n) = Some name
               then m\<lparr>tm_notice := None\<rparr> else m) in
      m\<lparr>tm_mounts := bt_remove name (tm_mounts m),
        tm_transfers := bt_remove name (tm_transfers m)\<rparr>)"

definition upsert_transfer :: "transfer_view \<Rightarrow> tray_model \<Rightarrow> tray_model" where
  "upsert_transfer v m =
     m\<lparr>tm_transfers := bt_insert (tv_mount v) (transfer_of_view v) (tm_transfers m)\<rparr>"

definition tm_mount_list :: "tray_model \<Rightarrow> mount_view list" where
  "tm_mount_list m = bt_values (tm_mounts m)"

definition tm_transfer :: "string \<Rightarrow> tray_model \<Rightarrow> transfer_state option" where
  "tm_transfer name m = bt_get name (tm_transfers m)"

section \<open>The summary\<close>

record summary =
  su_total :: nat
  su_live :: nat
  su_failed :: nat
  su_unobservable :: nat
  su_unmanaged :: nat
  su_files :: u64
  su_bytes :: u64
  su_unknown_size_files :: u64
  su_errored :: u64
  su_out_of_space :: bool
  su_rate :: "u64 option"
  su_remaining :: "u64 option"
  su_dirty_on_disk_only :: bool

definition summary_default :: summary where
  "summary_default =
     \<lparr>su_total = 0, su_live = 0, su_failed = 0, su_unobservable = 0, su_unmanaged = 0,
      su_files = 0, su_bytes = 0, su_unknown_size_files = 0, su_errored = 0,
      su_out_of_space = False, su_rate = None, su_remaining = None,
      su_dirty_on_disk_only = False\<rparr>"

definition vouched :: "transfer_state \<Rightarrow> bool" where
  "vouched t =
     (has_byte_total t \<and> ts_outstanding_known t \<and> pd_unknown_size_files (ts_pending t) = 0)"

text \<open>
  What one live mount of ours with a reading adds. While the pass runs, \<open>su_rate\<close> and
  \<open>su_remaining\<close> hold the running figures.
\<close>

definition add_reading :: "transfer_state \<Rightarrow> summary \<Rightarrow> summary" where
  "add_reading t s =
     s\<lparr>su_unobservable := su_unobservable s
         + (if ts_degraded_reason t \<noteq> None \<or> \<not> ts_outstanding_known t then 1 else 0),
       su_files := sat_add (su_files s) (pd_files (ts_pending t)),
       su_bytes := sat_add (su_bytes s) (pd_known_bytes (ts_pending t)),
       su_unknown_size_files :=
         sat_add (su_unknown_size_files s) (pd_unknown_size_files (ts_pending t)),
       su_errored := sat_add (su_errored s) (unwrap_or (ts_errored_files t) 0),
       su_out_of_space := su_out_of_space s \<or> unwrap_or (ts_out_of_space t) False,
       su_rate := (case ts_rate t of
           Some r \<Rightarrow> Some (sat_add (unwrap_or (su_rate s) 0) r) | None \<Rightarrow> su_rate s),
       su_remaining :=
         (if 0 < pd_files (ts_pending t) then
            (case (su_remaining s, vouched t) of
               (Some acc, True) \<Rightarrow> Some (sat_add acc (remaining_bytes t)) | _ \<Rightarrow> None)
          else su_remaining s),
       su_dirty_on_disk_only := su_dirty_on_disk_only s \<or> ts_fidelity t = Some T4\<rparr>"

definition summary_row :: "transfer_state btree \<Rightarrow> summary \<Rightarrow> mount_view \<Rightarrow> summary" where
  "summary_row transfers s v =
     (let s = s\<lparr>su_failed := su_failed s + (if mv_state v = ''failed'' then 1 else 0)\<rparr> in
      if \<not> mv_live v then s
      else (let s = s\<lparr>su_live := su_live s + 1\<rparr> in
        if \<not> mv_managed v then s\<lparr>su_unmanaged := su_unmanaged s + 1\<rparr>
        else (case bt_get (mv_name v) transfers of
                None \<Rightarrow> s\<lparr>su_unobservable := su_unobservable s + 1\<rparr>
              | Some t \<Rightarrow> add_reading t s)))"

definition summary_of :: "tray_model \<Rightarrow> summary" where
  "summary_of m =
     (let s = foldl (summary_row (tm_transfers m))
                (summary_default\<lparr>su_total := length (tm_mounts m), su_remaining := Some 0\<rparr>)
                (tm_mount_list m) in
      s\<lparr>su_remaining := option_filter (\<lambda>_. su_unobservable s = 0) (su_remaining s)\<rparr>)"

definition state_of :: "tray_model \<Rightarrow> tray_state" where
  "state_of m =
     (case tm_link m of
        Connecting \<Rightarrow> StConnecting
      | Down _ \<Rightarrow> Disconnected
      | Up _ \<Rightarrow>
          (let s = summary_of m in
           if 0 < su_failed s \<or> 0 < su_errored s \<or> su_out_of_space s then Attention
           else if 0 < su_unobservable s then Degraded
           else if 0 < su_files s then Syncing
           else if su_live s = su_unmanaged s then Offline
           else Idle))"

definition headline :: "tray_model \<Rightarrow> string" where
  "headline m =
     (let st = state_of m in
      if su_unmanaged (summary_of m) = 0 then label st
      else (case st of
              Idle \<Rightarrow> ''Managed mounts up to date''
            | Offline \<Rightarrow> ''No managed mounts up''
            | other \<Rightarrow> label other))"

section \<open>What the summary stands for\<close>

text \<open>The rows it reads from: live and ours.\<close>

definition ours :: "mount_view \<Rightarrow> bool" where
  "ours v = (mv_live v \<and> mv_managed v)"

definition clear_reading :: "transfer_state option \<Rightarrow> bool" where
  "clear_reading r = (\<exists>t. r = Some t \<and> ts_outstanding_known t \<and> ts_degraded_reason t = None)"

lemma sat_add_eq_0_iff: "sat_add a b = 0 \<longleftrightarrow> a = 0 \<and> b = 0"
  by simp

text \<open>The running figures only ever grow, and each zero at the end is a zero all along.\<close>

lemma summary_rows_zero:
  fixes ts :: "transfer_state btree"
  defines "after s vs \<equiv> foldl (summary_row ts) s vs"
  shows "su_unobservable (after s vs) = 0 \<longleftrightarrow> su_unobservable s = 0
      \<and> (\<forall>v \<in> set vs. ours v \<longrightarrow> clear_reading (bt_get (mv_name v) ts))"
    and "su_failed (after s vs) = 0 \<longleftrightarrow> su_failed s = 0 \<and> (\<forall>v \<in> set vs. mv_state v \<noteq> ''failed'')"
    and "su_files (after s vs) = 0 \<longleftrightarrow> su_files s = 0
      \<and> (\<forall>v \<in> set vs. ours v \<longrightarrow>
          (\<forall>t. bt_get (mv_name v) ts = Some t \<longrightarrow> pd_files (ts_pending t) = 0))"
    and "su_errored (after s vs) = 0 \<longleftrightarrow> su_errored s = 0
      \<and> (\<forall>v \<in> set vs. ours v \<longrightarrow>
          (\<forall>t. bt_get (mv_name v) ts = Some t \<longrightarrow> unwrap_or (ts_errored_files t) 0 = 0))"
    and "su_out_of_space (after s vs) \<longleftrightarrow> su_out_of_space s
      \<or> (\<exists>v \<in> set vs. ours v \<and>
          (\<exists>t. bt_get (mv_name v) ts = Some t \<and> unwrap_or (ts_out_of_space t) False))"
    and "su_live (after s vs) = su_live s + length (filter mv_live vs)"
    and "su_unmanaged (after s vs) = su_unmanaged s + length (filter (\<lambda>v. mv_live v \<and> \<not> mv_managed v) vs)"
  unfolding after_def
  by (induction vs arbitrary: s)
    (auto simp: summary_row_def add_reading_def ours_def clear_reading_def Let_def split: option.splits)

lemma summary_rows_remaining:
  "su_remaining (foldl (summary_row ts) s vs) = Some r \<Longrightarrow>
     su_remaining s \<noteq> None \<and> (\<forall>v \<in> set vs. ours v \<longrightarrow>
       (\<forall>t. bt_get (mv_name v) ts = Some t \<longrightarrow> 0 < pd_files (ts_pending t) \<longrightarrow> vouched t))"
proof (induction vs arbitrary: s)
  case (Cons v vs)
  from Cons.IH [of "summary_row ts s v"] Cons.prems show ?case
    by (auto simp: summary_row_def add_reading_def ours_def Let_def
        split: option.splits if_splits bool.splits prod.splits)
qed simp

lemma length_filter_ours:
  "length (filter mv_live vs) = length (filter (\<lambda>v. mv_live v \<and> \<not> mv_managed v) vs)
     \<longleftrightarrow> (\<forall>v \<in> set vs. \<not> ours v)"
proof -
  have "length (filter mv_live vs)
      = length (filter (\<lambda>v. mv_live v \<and> \<not> mv_managed v) vs) + length (filter ours vs)"
    by (induction vs) (auto simp: ours_def)
  then show ?thesis by (auto simp: filter_empty_conv)
qed

lemma summary_of_fields:
  fixes m defines "s \<equiv> foldl (summary_row (tm_transfers m))
    (summary_default\<lparr>su_total := length (tm_mounts m), su_remaining := Some 0\<rparr>) (tm_mount_list m)"
  shows "su_unobservable (summary_of m) = su_unobservable s" "su_failed (summary_of m) = su_failed s"
    "su_files (summary_of m) = su_files s" "su_errored (summary_of m) = su_errored s"
    "su_out_of_space (summary_of m) = su_out_of_space s" "su_live (summary_of m) = su_live s"
    "su_unmanaged (summary_of m) = su_unmanaged s"
    "su_remaining (summary_of m) = option_filter (\<lambda>_. su_unobservable s = 0) (su_remaining s)"
  by (simp_all add: summary_of_def s_def Let_def)

lemmas summary_zero = summary_of_fields summary_rows_zero summary_default_def

section \<open>Properties\<close>

definition reading_of :: "tray_model \<Rightarrow> mount_view \<Rightarrow> transfer_state option" where
  "reading_of m v = tm_transfer (mv_name v) m"

definition all_well :: "transfer_state option \<Rightarrow> bool" where
  "all_well r = (\<exists>t. r = Some t \<and> safe_to_unmount t \<and> ts_degraded_reason t = None
     \<and> unwrap_or (ts_errored_files t) 0 = 0 \<and> \<not> unwrap_or (ts_out_of_space t) False)"

lemma all_well_parts:
  "all_well r \<longleftrightarrow> clear_reading r \<and> (\<forall>t. r = Some t \<longrightarrow> pd_files (ts_pending t) = 0)
     \<and> (\<forall>t. r = Some t \<longrightarrow> unwrap_or (ts_errored_files t) 0 = 0)
     \<and> \<not> (\<exists>t. r = Some t \<and> unwrap_or (ts_out_of_space t) False)"
  by (cases r) (auto simp: all_well_def clear_reading_def safe_to_unmount_def is_idle_def)

text \<open>
  The icon says "up to date" exactly when it has been earned: the link is up, at least one
  mount of the service's own is serving, no listed mount has failed, and for every serving
  mount of its own there is a reading, undegraded, that knows nothing is outstanding, counts no
  errored file and reports no full cache.
\<close>

theorem idle_is_earned:
  "state_of m = Idle \<longleftrightarrow>
     (\<exists>i. tm_link m = Up i) \<and> (\<exists>v. v \<in> set (tm_mount_list m) \<and> ours v)
     \<and> (\<forall>v \<in> set (tm_mount_list m). mv_state v \<noteq> ''failed'' \<and>
          (ours v \<longrightarrow> (\<exists>t. reading_of m v = Some t \<and> safe_to_unmount t \<and> ts_degraded_reason t = None
             \<and> unwrap_or (ts_errored_files t) 0 = 0 \<and> \<not> unwrap_or (ts_out_of_space t) False)))"
proof -
  have "state_of m = Idle \<longleftrightarrow> (\<exists>i. tm_link m = Up i) \<and> su_failed (summary_of m) = 0
      \<and> su_errored (summary_of m) = 0 \<and> \<not> su_out_of_space (summary_of m)
      \<and> su_unobservable (summary_of m) = 0 \<and> su_files (summary_of m) = 0
      \<and> su_live (summary_of m) \<noteq> su_unmanaged (summary_of m)"
    by (auto simp: state_of_def Let_def word_gt_0 split: link.splits)
  also have "\<dots> \<longleftrightarrow> (\<exists>i. tm_link m = Up i) \<and> (\<exists>v \<in> set (tm_mount_list m). ours v)
      \<and> (\<forall>v \<in> set (tm_mount_list m). mv_state v \<noteq> ''failed''
           \<and> (ours v \<longrightarrow> all_well (reading_of m v)))"
    unfolding summary_of_fields summary_rows_zero all_well_parts reading_of_def tm_transfer_def
    by (simp add: summary_default_def length_filter_ours) blast
  finally show ?thesis by (auto simp: all_well_def)
qed

definition sample_info :: service_info where
  "sample_info =
     \<lparr>si_service_version = ''0.1.0'', si_interface_version = 1, si_rclone_version = ''1.75.0'',
      si_capability_tier = ''T1''\<rparr>"

definition tray_after :: "transfer_state \<Rightarrow> tray_model" where
  "tray_after t =
     upsert_transfer (transfer_view_of t) (go_up sample_info [sample_row Mounted] (tray_new [] False))"

lemma tv_mount_view: "tv_mount (transfer_view_of t) = ts_mount t"
  by (simp add: transfer_view_of_def)

lemma tray_after_parts:
  "ts_mount t = ''m'' \<Longrightarrow> tm_mount_list (tray_after t) = [sample_row Mounted]
     \<and> reading_of (tray_after t) (sample_row Mounted) = Some t \<and> tm_link (tray_after t) = Up sample_info"
  by (simp add: tray_after_def upsert_transfer_def go_up_def collect_mounts_def tm_mount_list_def
      bt_values_def reading_of_def tm_transfer_def tv_mount_view bt_get_def tray_new_def
      sample_row_def mount_view_of_def discovered_def)

theorem idle_is_earned_witness:
  "state_of (tray_after (from_queue ''m'' \<lparr>vq_queue = Some []\<rparr>)) = Idle"
proof -
  define t where "t = from_queue ''m'' \<lparr>vq_queue = Some []\<rparr>"
  have t: "ts_mount t = ''m''" "safe_to_unmount t" "ts_degraded_reason t = None"
      "ts_errored_files t = None" "ts_out_of_space t = None"
    by (simp_all add: t_def from_queue_def reported_queue_def ts_empty_def pending_of_def items_def
        pending_default_def pending_new_def safe_to_unmount_def is_idle_def)
  have "ours (sample_row Mounted)" "mv_state (sample_row Mounted) \<noteq> ''failed''"
    by (simp_all add: ours_def sample_row_def mount_view_of_def discovered_def)
  with t tray_after_parts [OF t(1)] show ?thesis
    unfolding idle_is_earned t_def [symmetric] by simp
qed

text \<open>
  An estimate of what is left is given only when every serving mount of the service's own
  has an undegraded reading that knows what is outstanding, and every one of them with files
  pending has a byte total with no file of unknown size in it.
\<close>

theorem remaining_is_vouched:
  assumes "su_remaining (summary_of m) = Some r" "v \<in> set (tm_mount_list m)" "ours v"
  shows "\<exists>t. reading_of m v = Some t \<and> ts_outstanding_known t \<and> ts_degraded_reason t = None
    \<and> (pd_files (ts_pending t) = 0 \<or> has_byte_total t \<and> pd_unknown_size_files (ts_pending t) = 0)"
proof -
  define s where "s = foldl (summary_row (tm_transfers m))
    (summary_default\<lparr>su_total := length (tm_mounts m), su_remaining := Some 0\<rparr>) (tm_mount_list m)"
  have "su_remaining s = Some r" "su_unobservable s = 0"
    using assms(1) by (auto simp: summary_of_fields s_def option_filter_Some_iff)
  then obtain t where t: "bt_get (mv_name v) (tm_transfers m) = Some t" "ts_outstanding_known t"
      "ts_degraded_reason t = None"
    using assms(2,3) by (auto simp: s_def summary_rows_zero clear_reading_def)
  moreover have "0 < pd_files (ts_pending t) \<longrightarrow> vouched t"
    using summary_rows_remaining [OF \<open>su_remaining s = Some r\<close> [unfolded s_def]] assms(2,3) t by blast
  ultimately show ?thesis by (auto simp: reading_of_def tm_transfer_def vouched_def word_gt_0)
qed

definition pending_reading :: transfer_state where
  "pending_reading = from_queue ''m'' \<lparr>vq_queue = Some [sample_item ''a'' 100 False]\<rparr>"

lemma pending_reading:
  "ts_mount pending_reading = ''m''" "ts_outstanding_known pending_reading"
  "ts_degraded_reason pending_reading = None" "pd_files (ts_pending pending_reading) = 1"
  "pd_unknown_size_files (ts_pending pending_reading) = 0" "has_byte_total pending_reading"
  by (simp_all add: pending_reading_def from_queue_def reported_queue_def ts_empty_def
      pending_of_def items_def pending_default_def pending_new_def add_item_def sample_item_def
      u64_try_from_def Let_def has_byte_total_def)

lemma sample_remaining:
  "su_remaining (summary_of (tray_after pending_reading)) = Some (remaining_bytes pending_reading)"
proof -
  have rows: "tm_mount_list (tray_after pending_reading) = [sample_row Mounted]"
      "bt_get (mv_name (sample_row Mounted)) (tm_transfers (tray_after pending_reading)) = Some pending_reading"
    using tray_after_parts [OF pending_reading(1)] by (simp_all add: reading_of_def tm_transfer_def)
  have "mv_live (sample_row Mounted)" "mv_managed (sample_row Mounted)"
    by (simp_all add: sample_row_def mount_view_of_def discovered_def)
  with rows show ?thesis
    by (simp add: summary_of_fields summary_row_def add_reading_def vouched_def summary_default_def
        pending_reading Let_def)
qed

theorem remaining_is_vouched_witness:
  "su_remaining (summary_of (tray_after pending_reading)) \<noteq> None
    \<and> (\<exists>t. reading_of (tray_after pending_reading) (sample_row Mounted) = Some t \<and> ts_outstanding_known t)"
proof -
  have "ours (sample_row Mounted)"
    by (simp add: ours_def sample_row_def mount_view_of_def discovered_def)
  moreover have "sample_row Mounted \<in> set (tm_mount_list (tray_after pending_reading))"
    using tray_after_parts [OF pending_reading(1)] by simp
  ultimately show ?thesis
    using remaining_is_vouched [OF sample_remaining] sample_remaining by blast
qed

text \<open>
  A link that is down says nothing of the mounts: it leaves no row, no reading and no
  notice behind, and no state that describes mounts is shown unless the link is up.
\<close>

theorem a_lost_link_claims_nothing:
  "tm_mount_list (go_down e m) = [] \<and> tm_mount_list (go_connecting m) = []
    \<and> (\<forall>n. tm_transfer n (go_down e m) = None) \<and> (\<forall>n. tm_transfer n (go_connecting m) = None)
    \<and> state_of (go_down e m) = Disconnected \<and> state_of (go_connecting m) = StConnecting
    \<and> (state_of m \<in> {StConnecting, Disconnected} \<longleftrightarrow> (\<forall>i. tm_link m \<noteq> Up i))"
  by (cases "tm_link m")
    (auto simp: go_down_def go_connecting_def tm_mount_list_def bt_values_def tm_transfer_def
      state_of_def Let_def)

text \<open>
  A refusal stays on screen until it is answered: a published state retires the notice
  only if it is about that mount and reaches where the request was sending it, a row's removal
  only if the notice is about that row, and asking for something only if it is about the same
  mount again or the notice can have no answer.
\<close>

theorem notices_wait_for_their_answer:
  assumes "tm_notice m = Some n"
  shows "(tm_notice (upsert_mount v m) = None \<longleftrightarrow>
        no_mount n = Some (mv_name v) \<and> no_answered_by n = Some (mv_live v))
    \<and> (tm_notice (upsert_mount v m) \<noteq> None \<longrightarrow> tm_notice (upsert_mount v m) = Some n)
    \<and> (tm_notice (remove_mount name m) = None \<longleftrightarrow> no_mount n = Some name)
    \<and> (tm_notice (act a m) = None \<longleftrightarrow>
        (if no_answered_by n = None then reports_back a
         else no_mount n \<noteq> None \<and> fst (target a) = no_mount n))
    \<and> tm_notice (upsert_transfer w m) = Some n \<and> tm_notice (resync i vs m) = Some n"
  using assms
  by (cases "no_mount n")
    (auto simp: upsert_mount_def remove_mount_def act_def supersedes_def upsert_transfer_def
      resync_def Let_def split: option.splits)

definition refused_tray :: tray_model where
  "refused_tray = set_notice (Some ''m'') ''busy'' (Some False) (tray_new [] False)"

theorem notices_wait_for_their_answer_witness:
  "tm_notice (upsert_mount (sample_row Unmounted) refused_tray) = None
    \<and> tm_notice (upsert_mount (sample_row Mounted) refused_tray) \<noteq> None"
proof -
  have "tm_notice refused_tray
      = Some \<lparr>no_mount = Some ''m'', no_text = ''busy'', no_answered_by = Some False\<rparr>"
    by (simp add: refused_tray_def set_notice_def)
  from notices_wait_for_their_answer [OF this, of "sample_row Unmounted"]
    notices_wait_for_their_answer [OF this, of "sample_row Mounted"]
  show ?thesis by (simp add: sample_row_def mount_view_of_def discovered_def)
qed

section \<open>The tray as a follower of the registry\<close>

text \<open>What the tray does with each published change; a new capability tier leaves the rows alone.\<close>

definition tray_follow :: "tray_model \<Rightarrow> change \<Rightarrow> tray_model" where
  "tray_follow m c =
     (case c of
        MountChange v \<Rightarrow> upsert_mount v m
      | Removed n \<Rightarrow> remove_mount n m
      | TransferChange v \<Rightarrow> upsert_transfer v m
      | CapabilityTier \<Rightarrow> m)"

text \<open>The tray holds readings in their own type; as a table of views it is a plain follower.\<close>

definition tray_is :: "tray_model \<Rightarrow> follower \<Rightarrow> bool" where
  "tray_is m f =
     (tm_mounts m = fo_mounts f \<and> tm_transfers m = map (map_prod id transfer_of_view) (fo_transfers f))"

definition tray_in_step :: "registry \<Rightarrow> tray_model \<Rightarrow> bool" where
  "tray_in_step r m = (\<exists>f. tray_is m f \<and> in_step r f)"

lemma bt_insert_map:
  "bt_insert k (g v) (map (map_prod id g) m) = map (map_prod id g) (bt_insert k v m)"
  by (induction k v m rule: bt_insert.induct) auto

lemma bt_remove_map: "bt_remove k (map (map_prod id g) m) = map (map_prod id g) (bt_remove k m)"
  by (induction m) (auto simp: bt_remove_def)

lemma bt_get_map: "bt_get k (map (map_prod id g) m) = map_option g (bt_get k m)"
  by (induction m) (auto simp: bt_get_def)

lemma tray_is_follow: "tray_is m f \<Longrightarrow> tray_is (tray_follow m c) (follow f c)"
  by (cases c)
    (auto simp: tray_is_def tray_follow_def upsert_mount_def remove_mount_def upsert_transfer_def
      bt_insert_map bt_remove_map Let_def)

lemma tray_is_foldl: "tray_is m f \<Longrightarrow> tray_is (foldl tray_follow m cs) (foldl follow f cs)"
  by (induction cs arbitrary: m f) (auto intro: tray_is_follow)

interpretation tray_feed: change_feed observe tray_follow tray_in_step rows_agree
proof
  fix r m i r' cs
  assume "tray_in_step r m" "rows_agree i" "observe i r = (r', cs)"
  then show "tray_in_step r' (foldl tray_follow m cs)"
    using feed.observe_rel tray_is_foldl unfolding tray_in_step_def by blast
qed

text \<open>
  From the service's registry to the icon: a tray that starts in step and applies whatever
  the registry publishes over any run of sweeps, readings and tiers shows exactly the
  registry's rows, and any reading of its that would call a mount safe to unmount is the one
  the registry holds now.
\<close>

theorem tray_stays_in_step:
  assumes "tray_in_step r m" "list_all rows_agree is" "tray_feed.run is r = (r', cs)"
  shows "tm_mount_list (foldl tray_follow m cs) = reg_mounts r'
    \<and> (\<forall>n t. tm_transfer n (foldl tray_follow m cs) = Some t \<longrightarrow> safe_to_unmount t
         \<longrightarrow> (\<exists>v. reg_transfer n r' = Some v \<and> t = transfer_of_view v))"
proof -
  have "tray_in_step r' (foldl tray_follow m cs)" by (rule tray_feed.run_rel [OF assms])
  then obtain f where f: "tray_is (foldl tray_follow m cs) f" "in_step r' f"
    unfolding tray_in_step_def by blast
  then have "tm_mount_list (foldl tray_follow m cs) = reg_mounts r'"
    by (simp add: tray_is_def in_step_def tm_mount_list_def reg_mounts_def)
  moreover have "\<exists>v. reg_transfer n r' = Some v \<and> t = transfer_of_view v"
    if "tm_transfer n (foldl tray_follow m cs) = Some t" "safe_to_unmount t" for n t
  proof -
    note held = that(1)
    obtain v where v: "bt_get n (fo_transfers f) = Some v" "t = transfer_of_view v"
      using held f(1) by (auto simp: tray_is_def tm_transfer_def bt_get_map)
    have "tv_outstanding_known v"
      using that(2) v(2) by (simp add: safe_to_unmount_def is_idle_def transfer_of_view_def)
    then have "reg_transfer n r' = Some v"
      using f(2) v(1) unfolding in_step_def readings_agree_def reg_transfer_def
      by (metis option.exhaust option.inject)
    with v(2) show ?thesis by blast
  qed
  ultimately show ?thesis by blast
qed

theorem tray_stays_in_step_witness:
  "tm_mount_list (foldl tray_follow (go_up sample_info [] (tray_new [] False))
      (snd (tray_feed.run sample_run registry_default)))
     = reg_mounts (fst (tray_feed.run sample_run registry_default))"
proof -
  have "tray_in_step registry_default (go_up sample_info [] (tray_new [] False))"
    unfolding tray_in_step_def
    by (rule exI [of _ "\<lparr>fo_mounts = [], fo_transfers = []\<rparr>"])
      (simp add: tray_is_def in_step_def go_up_def collect_mounts_def registry_default_def readings_agree_def)
  moreover have "list_all rows_agree sample_run"
    by (simp add: sample_run_def rows_agree_def)
  ultimately show ?thesis using tray_stays_in_step [OF _ _ prod.collapse [symmetric]] by blast
qed

end
