(* ===== verification/Phrases.thy ===== *)
theory Phrases
  imports TrayModel
begin

text \<open>
  The sentences of the tray's menu (the text half of crates/tray/src/model.rs): byte counts,
  estimates, the summary's lines, and breaking a sentence across rows of a panel that does not
  wrap.
\<close>

section \<open>Figures\<close>

text \<open>
  The division by 1024 is exact on doubles, so only the conversion rounds; one decimal is
  printed from the exact value, ties to even.
\<close>

definition show_decimal1 :: "f64 \<Rightarrow> string" where
  "show_decimal1 v =
     (let t = nat (round_even (v * 10)) in show_nat (t div 10) @ ''.'' @ show_nat (t mod 10))"

fun scale_bytes :: "string list \<Rightarrow> f64 \<Rightarrow> string \<Rightarrow> f64 \<times> string" where
  "scale_bytes [] v u = (v, u)"
| "scale_bytes (n # us) v u = (if v < 1024 then (v, u) else scale_bytes us (v / 1024) n)"

definition human_bytes :: "u64 \<Rightarrow> string" where
  "human_bytes n =
     (if n < 1024 then show_u64 n @ '' B''
      else (case scale_bytes [''MiB'', ''GiB'', ''TiB'', ''PiB'', ''EiB''] (f64_of_u64 n / 1024) ''KiB'' of
              (v, u) \<Rightarrow>
                (let rendered = show_decimal1 v in
                 unwrap_or (strip_suffix ''.0'' rendered) rendered @ '' '' @ u)))"

definition eta_phrase :: "u64 \<Rightarrow> string" where
  "eta_phrase secs =
     (if secs < 5 then ''a few seconds''
      else if secs < 60 then ''about '' @ show_u64 secs @ ''s''
      else if secs < 3600 then ''about '' @ show_u64 (secs div 60) @ ''m''
      else if secs < 86400 then
        (let h = secs div 3600; m = (secs mod 3600) div 60 in
         if m = 0 then ''about '' @ show_u64 h @ ''h''
         else ''about '' @ show_u64 h @ ''h '' @ show_u64 m @ ''m'')
      else ''over a day'')"

definition files_and_bytes :: "u64 \<Rightarrow> u64 \<Rightarrow> string" where
  "files_and_bytes files bytes =
     (let plural = (if files = 1 then ''file'' else ''files'') in
      if bytes = 0 then show_u64 files @ '' '' @ plural
      else show_u64 files @ '' '' @ plural @ '', '' @ human_bytes bytes)"

definition pending_phrase :: "u64 \<Rightarrow> u64 \<Rightarrow> u64 \<Rightarrow> string" where
  "pending_phrase files bytes unknown =
     files_and_bytes files bytes @ '' pending''
       @ (if 0 < unknown then '' ('' @ show_u64 unknown @ '' of unknown size)'' else [])"

section \<open>The summary's lines\<close>

definition mounted_line :: "summary \<Rightarrow> string" where
  "mounted_line s =
     (if su_total s = 0 then ''No mounts configured''
      else show_nat (su_live s) @ '' of '' @ show_nat (su_total s) @ '' mounted''
        @ (if 0 < su_unmanaged s
           then '' '' @ middle_dot @ '' '' @ show_nat (su_unmanaged s) @ '' not managed'' else []))"

definition pending_line :: "summary \<Rightarrow> string option" where
  "pending_line s =
     (if su_live s = su_unmanaged s then None
      else if su_files s = 0 then
        Some (if 0 < su_unobservable s then
                ''Pending: unknown on '' @ show_nat (su_unobservable s) @ '' of ''
                  @ show_nat (su_live s - su_unmanaged s) @ '' mounts''
              else ''All synced'')
      else Some (pending_phrase (su_files s) (su_bytes s) (su_unknown_size_files s)
             @ (if 0 < su_unobservable s then '', and possibly more'' else [])))"

definition rate_line :: "summary \<Rightarrow> string option" where
  "rate_line s =
     (case option_filter (\<lambda>r. 0 < r) (su_rate s) of
        None \<Rightarrow> None
      | Some rate \<Rightarrow>
          Some (human_bytes rate @ ''/s''
            @ (case option_filter (\<lambda>_. 0 < su_files s) (su_remaining s) of
                 None \<Rightarrow> []
               | Some left \<Rightarrow> '' '' @ middle_dot @ '' '' @ eta_phrase (left div rate) @ '' left'')))"

section \<open>Breaking a sentence across rows\<close>

text \<open>The piece being filled, and the pieces done; a code point at a time.\<close>

fun split_loop :: "nat \<Rightarrow> string list \<Rightarrow> string \<Rightarrow> string list" where
  "split_loop width [] piece = (if piece = [] then [] else [piece])"
| "split_loop width (c # cs) piece =
     (if char_count piece = width then piece # split_loop width cs c
      else split_loop width cs (piece @ c))"

definition split_to_width :: "string \<Rightarrow> nat \<Rightarrow> string list" where
  "split_to_width s width =
     (if char_count s \<le> width then [s] else split_loop width (chars s) [])"

definition fits :: "nat \<Rightarrow> string \<Rightarrow> string \<Rightarrow> bool" where
  "fits width line word = (char_count line + 1 + char_count word \<le> width)"

text \<open>One piece: it joins the last row if the row continues this source line and has room.\<close>

definition place :: "nat \<Rightarrow> string list \<times> bool \<Rightarrow> string \<Rightarrow> string list \<times> bool" where
  "place width acc piece =
     (case acc of (rows, continuing) \<Rightarrow>
       if continuing \<and> rows \<noteq> [] \<and> fits width (last rows) piece
       then (butlast rows @ [last rows @ '' '' @ piece], True)
       else (rows @ [piece], True))"

definition wrap_line :: "nat \<Rightarrow> string list \<Rightarrow> string \<Rightarrow> string list" where
  "wrap_line width rows source =
     fst (foldl (place width) (rows, False)
       (concat (map (\<lambda>w. split_to_width w width) (split_whitespace source))))"

definition wrap :: "string \<Rightarrow> nat \<Rightarrow> nat \<Rightarrow> string list" where
  "wrap text width0 max_lines =
     (let width = max width0 1;
          rows = foldl (wrap_line width) [] (lines text) in
      if max_lines < length rows then
        (let kept = take max_lines rows in
         if kept = [] then [] else butlast kept @ [last kept @ '' '' @ ellipsis])
      else rows)"

lemma char_count_append: "char_count (a @ b) \<le> char_count a + char_count b"
proof (induction a rule: chars.induct)
  case 1
  then show ?case by (simp add: char_count_def)
next
  case (2 c s)
  show ?case
  proof (cases "dropWhile is_cont s")
    case Nil
    then have "\<forall>x \<in> set s. is_cont x" by (simp add: dropWhile_eq_Nil_conv)
    then have "dropWhile is_cont (s @ b) = dropWhile is_cont b" "chars s = chars s"
      by (simp_all add: dropWhile_append2)
    moreover have "char_count (dropWhile is_cont b) \<le> char_count b"
      by (cases b) (auto simp: char_count_def)
    ultimately show ?thesis using Nil by (simp add: char_count_def)
  next
    case (Cons d ds)
    then have "dropWhile is_cont (s @ b) = dropWhile is_cont s @ b"
      by (metis dropWhile_append1 dropWhile_eq_Nil_conv list.distinct(1))
    with 2 show ?thesis by (simp add: char_count_def)
  qed
qed

lemma char_count_unit: "u \<in> set (chars s) \<Longrightarrow> char_count u \<le> 1"
proof (induction s rule: chars.induct)
  case (2 c s)
  have "dropWhile is_cont (takeWhile is_cont s) = []"
    by (simp add: dropWhile_eq_Nil_conv) (meson set_takeWhileD)
  then have "char_count (c # takeWhile is_cont s) = 1" by (simp only: char_count_def chars.simps) simp
  moreover have "u = c # takeWhile is_cont s \<or> u \<in> set (chars (dropWhile is_cont s))"
    using "2.prems" by simp
  ultimately show ?case using "2.IH" by (metis order_refl)
qed simp

lemma split_loop_bound:
  "\<forall>u \<in> set cs. char_count u \<le> 1 \<Longrightarrow> char_count piece \<le> width \<Longrightarrow> 1 \<le> width
     \<Longrightarrow> p \<in> set (split_loop width cs piece) \<Longrightarrow> char_count p \<le> width"
proof (induction cs arbitrary: piece)
  case (Cons c cs)
  show ?case
  proof (cases "char_count piece = width")
    case True
    with Cons.prems have "p = piece \<or> p \<in> set (split_loop width cs c)" "char_count c \<le> width" by auto
    with Cons.IH [of c] Cons.prems True show ?thesis by auto
  next
    case False
    with Cons.prems have "char_count (piece @ c) \<le> width"
      using char_count_append [of piece c] by simp
    with Cons False show ?thesis by auto
  qed
qed (auto split: if_splits)

lemma split_loop_concat: "concat (split_loop width cs piece) = piece @ concat cs"
  by (induction cs arbitrary: piece) auto

lemma split_to_width_bound: "1 \<le> width \<Longrightarrow> p \<in> set (split_to_width s width) \<Longrightarrow> char_count p \<le> width"
  using split_loop_bound [of "chars s" "[]" width p] char_count_unit [of _ s]
  by (auto simp: split_to_width_def char_count_def split: if_splits)

lemma split_to_width_concat: "concat (split_to_width s width) = s"
  by (simp add: split_to_width_def split_loop_concat)

lemma foldl_place_bound:
  "\<forall>r \<in> set (fst acc). char_count r \<le> width \<Longrightarrow> \<forall>p \<in> set ps. char_count p \<le> width
     \<Longrightarrow> \<forall>r \<in> set (fst (foldl (place width) acc ps)). char_count r \<le> width"
proof (induction ps arbitrary: acc)
  case (Cons p ps)
  obtain rows continuing where acc: "acc = (rows, continuing)" by fastforce
  have "char_count '' '' = 1" by code_simp
  then have join: "char_count (last rows @ '' '' @ p) \<le> width" if "fits width (last rows) p"
    using that char_count_append [of "last rows" "'' '' @ p"] char_count_append [of "'' ''" p]
    by (simp add: fits_def)
  have "\<forall>r \<in> set (fst (place width acc p)). char_count r \<le> width"
    using Cons.prems join by (auto simp: place_def acc dest: in_set_butlastD)
  with Cons show ?case by simp
qed simp

lemma wrap_rows_bound:
  "1 \<le> width \<Longrightarrow> \<forall>r \<in> set rows. char_count r \<le> width
     \<Longrightarrow> \<forall>r \<in> set (foldl (wrap_line width) rows ls). char_count r \<le> width"
proof (induction ls arbitrary: rows)
  case (Cons l ls)
  have "\<forall>r \<in> set (wrap_line width rows l). char_count r \<le> width"
    unfolding wrap_line_def using Cons.prems split_to_width_bound
    by (intro foldl_place_bound) auto
  with Cons show ?case by simp
qed simp

section \<open>Properties\<close>

text \<open>
  A wrapped sentence fits its panel: never more rows than asked for, and no row wider than
  the width, in characters, except that the last row of one cut short says so with an ellipsis
  after it; a word too wide for a row is broken without losing any of it.
\<close>

theorem wrap_fits:
  "length (wrap text width max_lines) \<le> max_lines
    \<and> (\<forall>r \<in> set (wrap text width max_lines). char_count r \<le> max width 1 + 2)
    \<and> (\<forall>r \<in> set (butlast (wrap text width max_lines)). char_count r \<le> max width 1)
    \<and> concat (split_to_width word width) = word"
proof -
  define w rows where "w = max width 1" and "rows = foldl (wrap_line w) [] (lines text)"
  have rows: "\<forall>r \<in> set rows. char_count r \<le> w"
    unfolding rows_def by (rule wrap_rows_bound) (simp_all add: w_def)
  define kept where "kept = take max_lines rows"
  have out: "wrap text width max_lines = (if max_lines < length rows then
      if kept = [] then [] else butlast kept @ [last kept @ '' '' @ ellipsis] else rows)"
    by (simp add: wrap_def Let_def w_def rows_def kept_def)
  have kept: "\<forall>r \<in> set kept. char_count r \<le> w" "length kept \<le> max_lines"
    using rows by (auto simp: kept_def dest: in_set_takeD)
  have "char_count ('' '' @ ellipsis) = 2" by code_simp
  then have marked: "char_count (last kept @ '' '' @ ellipsis) \<le> w + 2" if "kept \<noteq> []"
  proof -
    have "char_count (last kept) \<le> w" using that kept(1) by simp
    with \<open>char_count ('' '' @ ellipsis) = 2\<close> show ?thesis
      using char_count_append [of "last kept" "'' '' @ ellipsis"] by linarith
  qed
  have "length (wrap text width max_lines) \<le> max_lines" using kept(2) by (auto simp: out)
  moreover have "\<forall>r \<in> set (wrap text width max_lines). char_count r \<le> w + 2"
  proof -
    have "\<forall>r \<in> set rows. char_count r \<le> w + 2" "\<forall>r \<in> set kept. char_count r \<le> w + 2"
      using rows kept(1) trans_le_add1 by blast+
    then show ?thesis using marked by (auto simp only: out set_append split: if_splits dest: in_set_butlastD)
        (auto simp: out)
  qed
  moreover have "\<forall>r \<in> set (butlast (wrap text width max_lines)). char_count r \<le> w"
    using rows kept(1) by (auto simp: out dest: in_set_butlastD)
  ultimately show ?thesis by (simp add: w_def split_to_width_concat)
qed

theorem wrap_fits_witness:
  "length (wrap ''the mount is busy: still in use by an editor'' 10 2) \<le> 2"
  using wrap_fits [of "''the mount is busy: still in use by an editor''" 10 2 "[]"] by blast

lemma show_u64_hd: "show_u64 n @ t \<noteq> CHR ''A'' # u"
proof
  assume "show_u64 n @ t = CHR ''A'' # u"
  then have "hd (show_base 10 (unat n)) = CHR ''A''"
    unfolding show_u64_def show_nat_def by (metis hd_append2 list.sel(1) show_base_nonempty)
  then obtain d :: nat where "d < 10" "digit_char d = CHR ''A''"
    using hd_show_base [of 10 "unat n"] by auto
  then show False using digit_value_digit_char [of d 36] by (simp add: digit_value_def Let_def)
qed

text \<open>
  The menu says "All synced" exactly when something of the service's own is serving and
  every such mount has an undegraded reading that knows nothing is outstanding; with nothing of
  its own serving it says nothing about uploads at all.
\<close>

theorem all_synced_is_earned:
  "(pending_line (summary_of m) = Some ''All synced'' \<longleftrightarrow>
      (\<exists>v. v \<in> set (tm_mount_list m) \<and> ours v)
      \<and> (\<forall>v \<in> set (tm_mount_list m). ours v \<longrightarrow>
           (\<exists>t. reading_of m v = Some t \<and> safe_to_unmount t \<and> ts_degraded_reason t = None)))
    \<and> (pending_line (summary_of m) = None \<longleftrightarrow> (\<forall>v \<in> set (tm_mount_list m). \<not> ours v))"
proof -
  define s where "s = summary_of m"
  have "pending_line s = Some ''All synced'' \<longleftrightarrow>
      su_live s \<noteq> su_unmanaged s \<and> su_files s = 0 \<and> su_unobservable s = 0"
    using show_u64_hd
    by (auto simp: pending_line_def pending_phrase_def files_and_bytes_def Let_def)
  moreover have "pending_line s = None \<longleftrightarrow> su_live s = su_unmanaged s"
    by (simp add: pending_line_def)
  moreover have "su_live s = su_unmanaged s \<longleftrightarrow> (\<forall>v \<in> set (tm_mount_list m). \<not> ours v)"
    by (simp add: s_def summary_of_fields summary_rows_zero) (simp add: summary_default_def length_filter_ours)
  moreover have "su_files s = 0 \<and> su_unobservable s = 0 \<longleftrightarrow>
      (\<forall>v \<in> set (tm_mount_list m). ours v \<longrightarrow>
         clear_reading (reading_of m v) \<and> (\<forall>t. reading_of m v = Some t \<longrightarrow> pd_files (ts_pending t) = 0))"
    unfolding s_def summary_of_fields summary_rows_zero reading_of_def tm_transfer_def
    by (simp add: summary_default_def) blast
  moreover have "clear_reading r \<and> (\<forall>t. r = Some t \<longrightarrow> pd_files (ts_pending t) = 0)
      \<longleftrightarrow> (\<exists>t. r = Some t \<and> safe_to_unmount t \<and> ts_degraded_reason t = None)" for r
    by (cases r) (auto simp: clear_reading_def safe_to_unmount_def is_idle_def)
  ultimately show ?thesis unfolding s_def [symmetric] by (simp only:) blast
qed

theorem all_synced_is_earned_witness:
  "pending_line (summary_of (tray_new [] False)) = None"
  using all_synced_is_earned [of "tray_new [] False"]
  by (simp add: tray_new_def tm_mount_list_def bt_values_def)

end
