(* ===== verification/Menu.thy ===== *)
theory Menu
  imports Phrases
begin

text \<open>
  The menu the panel shows (crates/tray/src/menu.rs): built fresh from the model each time, of
  items whose callbacks look at the model again when they are clicked.
\<close>

section \<open>Items\<close>

definition FILE_CAP :: nat where "FILE_CAP = 10"
definition ROW_WIDTH :: nat where "ROW_WIDTH = 64"
definition ROW_LINES :: nat where "ROW_LINES = 8"
definition REASON_ROWS :: nat where "REASON_ROWS = 8"
definition DEGRADED_ROWS :: nat where "DEGRADED_ROWS = 3"
definition NOTICE_ROWS :: nat where "NOTICE_ROWS = 8"
definition QUIT_LABEL :: string where "QUIT_LABEL = ''Quit (mounts stay up)''"

text \<open>The package's version, a constant of the build.\<close>

definition PKG_VERSION :: string where "PKG_VERSION = ''0.1.0''"

datatype verb = VMount | VUnmount

text \<open>What a click runs: the values its closure holds.\<close>

datatype callback = NoCall | Send action | Ask string verb | Bulk bool

datatype item =
    Separator
  | Standard string bool bool callback
  | SubMenu string "item list"

definition escape :: "string \<Rightarrow> string" where
  "escape s = concat (map (\<lambda>c. if c = CHR ''_'' then ''__'' else [c]) s)"

definition clip :: "string \<Rightarrow> string" where
  "clip s = (if ROW_WIDTH < char_count s then concat (take ROW_WIDTH (chars s)) @ ellipsis else s)"

definition hidden :: item where
  "hidden = Standard [] True False NoCall"

definition one_row :: "string \<Rightarrow> item" where
  "one_row l = Standard (escape (clip l)) False True NoCall"

definition row_or_gap :: "string option \<Rightarrow> item" where
  "row_or_gap l = (case l of Some l \<Rightarrow> one_row l | None \<Rightarrow> hidden)"

definition resize_with :: "nat \<Rightarrow> 'a \<Rightarrow> 'a list \<Rightarrow> 'a list" where
  "resize_with n x xs = take n xs @ replicate (n - length xs) x"

definition block :: "string option \<Rightarrow> nat \<Rightarrow> item list" where
  "block l rows =
     resize_with rows hidden (case l of Some l \<Rightarrow> map one_row (wrap l ROW_WIDTH rows) | None \<Rightarrow> [])"

definition text_rows :: "string \<Rightarrow> item list" where
  "text_rows l = map (\<lambda>line. Standard (escape line) False True NoCall) (wrap l ROW_WIDTH ROW_LINES)"

definition action_item :: "string \<Rightarrow> action \<Rightarrow> item" where
  "action_item l a = Standard (escape l) True True (Send a)"

definition disabled_action :: "string \<Rightarrow> item" where
  "disabled_action l = Standard (escape l) False True NoCall"

definition submenu :: "string \<Rightarrow> item list \<Rightarrow> item" where
  "submenu l rows = SubMenu (escape (clip l)) rows"

definition quit :: item where
  "quit = action_item QUIT_LABEL Quit"

definition notice_lines :: "notice option \<Rightarrow> item list" where
  "notice_lines n = block (map_option no_text n) NOTICE_ROWS @ [if n \<noteq> None then Separator else hidden]"

section \<open>Clicks\<close>

definition settled :: "mount_view \<Rightarrow> bool" where
  "settled v = (mv_state v \<noteq> ''mounting'' \<and> mv_state v \<noteq> ''unmounting'')"

definition verb_item :: "string \<Rightarrow> verb \<Rightarrow> bool \<Rightarrow> item" where
  "verb_item name v on =
     Standard (escape (case v of VMount \<Rightarrow> ''Mount'' | VUnmount \<Rightarrow> ''Unmount'')) on True (Ask name v)"

definition bulk_item :: "string \<Rightarrow> bool \<Rightarrow> bool \<Rightarrow> item" where
  "bulk_item l up on = Standard (escape l) on True (Bulk up)"

fun click :: "callback \<Rightarrow> tray_model \<Rightarrow> tray_model" where
  "click NoCall m = m"
| "click (Send a) m = act a m"
| "click (Ask name v) m =
     (case find (\<lambda>r. mv_name r = name) (tm_mount_list m) of
        None \<Rightarrow> m
      | Some r \<Rightarrow>
          if \<not> settled r then m
          else (case v of
                  VMount \<Rightarrow> if \<not> mv_live r then act (ActMount name) m else m
                | VUnmount \<Rightarrow> if mv_live r then act (ActUnmount name) m else m))"
| "click (Bulk up) m =
     foldl (\<lambda>m name. act (if up then ActMount name else ActUnmount name) m) m
       (map mv_name (filter (\<lambda>r. mv_managed r \<and> settled r \<and> mv_live r \<noteq> up) (tm_mount_list m)))"

section \<open>What a mount still has to upload\<close>

definition pending_headline :: "transfer_state \<Rightarrow> string" where
  "pending_headline t =
     (let p = ts_pending t;
          phrase = pending_phrase (pd_files p) (pd_known_bytes p) (pd_unknown_size_files p) in
      if ts_outstanding_known t then (if pd_files p = 0 then ''All synced'' else phrase)
      else (if pd_files p = 0 then ''Pending: unknown'' else phrase @ '', and possibly more''))"

definition dash :: string where "dash = '' '' @ em_dash @ '' ''"

definition file_line :: "transfer_file \<Rightarrow> bool \<Rightarrow> string" where
  "file_line f has_progress =
     xf_name f
     @ (case xf_size f of Some s \<Rightarrow> dash @ human_bytes s | None \<Rightarrow> [])
     @ (if xf_in_flight f = Some True then '' (uploading)'' else [])
     @ (if has_progress then
          (case (xf_bytes_sent f, xf_size f) of
             (Some sent, Some s) \<Rightarrow> if 0 < s then dash @ human_bytes sent @ '' sent'' else []
           | _ \<Rightarrow> [])
        else [])"

definition file_slot :: "transfer_state option \<Rightarrow> nat \<Rightarrow> item" where
  "file_slot t i =
     row_or_gap (case t of None \<Rightarrow> None
       | Some t \<Rightarrow> if i < length (ts_files t) then Some (file_line (ts_files t ! i) (ts_has_progress t)) else None)"

definition transfer_lines :: "transfer_state option \<Rightarrow> item list" where
  "transfer_lines t =
     [one_row (case t of None \<Rightarrow> ''No upload information yet'' | Some t \<Rightarrow> pending_headline t)]
     @ map (file_slot t) [0..<FILE_CAP]
     @ [row_or_gap (Option.bind t (\<lambda>t. if FILE_CAP < length (ts_files t)
          then Some (''and '' @ show_nat (length (ts_files t) - FILE_CAP) @ '' more'' @ ellipsis) else None)),
        row_or_gap (Option.bind t (\<lambda>t. map_option (\<lambda>n. show_u64 n @ '' file(s) failed to upload'')
          (option_filter (\<lambda>n. 0 < n) (ts_errored_files t)))),
        row_or_gap (map_option (\<lambda>_. ''The cache is out of space'')
          (option_filter (\<lambda>t. ts_out_of_space t = Some True) t)),
        row_or_gap (map_option (\<lambda>_. ''Showing files on disk, not live upload progress.'')
          (option_filter (\<lambda>t. ts_fidelity t = Some T4) t))]
     @ block (Option.bind t ts_degraded_reason) DEGRADED_ROWS"

section \<open>The menu\<close>

definition mount_item :: "tray_model \<Rightarrow> mount_view \<Rightarrow> item" where
  "mount_item m v =
     submenu (mv_name v @ dash @ mv_state v)
       ([one_row (unwrap_or (mv_point v) ''no mount point recorded''), row_or_gap (mv_remote v)]
        @ block (map_option (\<lambda>r. ''Failed: '' @ r) (mv_reason v)) REASON_ROWS
        @ [Separator,
           (case mv_point v of
              Some p \<Rightarrow> if mv_live v then action_item ''Open'' (Open p) else disabled_action ''Open''
            | None \<Rightarrow> disabled_action ''Open'')]
        @ (if mv_managed v
           then [verb_item (mv_name v) VMount (settled v \<and> \<not> mv_live v),
                 verb_item (mv_name v) VUnmount (settled v \<and> mv_live v)]
           else [one_row ''Not managed by this service'', hidden])
        @ [Separator] @ transfer_lines (tm_transfer (mv_name v) m))"

definition about :: "service_info \<Rightarrow> item" where
  "about info =
     submenu ''About''
       (text_rows (''Tray '' @ PKG_VERSION)
        @ text_rows (''Service '' @ si_service_version info)
        @ text_rows (''Interface '' @ show_nat (unat (si_interface_version info)) @ '' (this client speaks ''
            @ show_nat (unat INTERFACE_VERSION) @ '')'')
        @ text_rows (''rclone '' @ si_rclone_version info)
        @ text_rows (''Capability tier '' @ si_capability_tier info))"

definition stop_service :: item where
  "stop_service =
     submenu ''Stop service''
       (text_rows ''Mounts stay up unless the service is configured to unmount when it stops.''
        @ text_rows ''The tray will show the service as unreachable.''
        @ [Separator, action_item ''Yes, stop the service'' StopService])"

definition unaffected :: string where
  "unaffected = ''Mounts already up are unaffected '' @ em_dash @ '' this is only the tray''
     @ [CHR 0x27] @ ''s link.''"

definition unreachable_service :: "down \<Rightarrow> notice option \<Rightarrow> item list" where
  "unreachable_service d n =
     notice_lines n @ text_rows (dn_headline d) @ text_rows unaffected @ [Separator]
     @ (if dn_offer_start d then [action_item ''Start service'' StartService] else [])
     @ [action_item ''Retry now'' Refresh, Separator, quit]"

definition summary_rows :: "summary \<Rightarrow> item list" where
  "summary_rows s =
     [one_row (mounted_line s), row_or_gap (pending_line s), row_or_gap (rate_line s),
      row_or_gap (if su_dirty_on_disk_only s
        then Some ''Some figures are files on disk, not live upload progress.'' else None)]"

definition connected :: "tray_model \<Rightarrow> service_info \<Rightarrow> item list" where
  "connected m info =
     (let managed = filter mv_managed (tm_mount_list m);
          foreign = filter (\<lambda>v. \<not> mv_managed v) (tm_mount_list m) in
      notice_lines (tm_notice m) @ summary_rows (summary_of m)
      @ (if managed \<noteq> [] then Separator # map (mount_item m) managed else [])
      @ (if foreign \<noteq> [] then Separator # text_rows ''Started outside this service'' @ map (mount_item m) foreign else [])
      @ (if managed \<noteq> []
         then [Separator, bulk_item ''Mount all'' True (list_ex (\<lambda>v. settled v \<and> \<not> mv_live v) managed),
               bulk_item ''Unmount all'' False (list_ex (\<lambda>v. settled v \<and> mv_live v) managed)]
         else [])
      @ [Separator, action_item ''Refresh'' Refresh, about info, stop_service, quit])"

definition build :: "tray_model \<Rightarrow> item list" where
  "build m =
     (case tm_link m of
        Connecting \<Rightarrow>
          notice_lines (tm_notice m) @ text_rows (''Connecting to the service'' @ ellipsis)
          @ text_rows unaffected @ [Separator, quit]
      | Down d \<Rightarrow> unreachable_service d (tm_notice m)
      | Up info \<Rightarrow> connected m info)"

section \<open>The shape of a menu\<close>

text \<open>
  What the panel's ids depend on: how many items there are, and inside which. Whether an item is
  drawn, what it says and whether it is a separator are properties of it.
\<close>

datatype shape = Shape "shape list"

fun item_shape :: "item \<Rightarrow> shape" where
  "item_shape (SubMenu _ rows) = Shape (map item_shape rows)"
| "item_shape _ = Shape []"

definition leaf :: "item \<Rightarrow> bool" where
  "leaf i = (item_shape i = Shape [])"

lemma leaf_simps [simp]:
  "item_shape hidden = Shape []" "item_shape (one_row l) = Shape []" "item_shape (row_or_gap g) = Shape []"
  "item_shape (action_item l a) = Shape []" "item_shape (disabled_action l) = Shape []"
  "item_shape (verb_item n v on) = Shape []" "item_shape (bulk_item l up on) = Shape []"
  by (auto simp: hidden_def one_row_def row_or_gap_def action_item_def disabled_action_def verb_item_def
      bulk_item_def split: option.split)

lemma resize_shape: "list_all leaf xs \<Longrightarrow> map item_shape (resize_with n hidden xs) = replicate n (Shape [])"
  by (rule nth_equalityI)
    (auto simp: resize_with_def nth_append leaf_def list_all_length)

lemma block_shape [simp]: "map item_shape (block l rows) = replicate rows (Shape [])"
  unfolding block_def by (rule resize_shape) (auto simp: leaf_def list_all_iff split: option.split)

lemma notice_shape [simp]: "map item_shape (notice_lines n) = replicate (Suc NOTICE_ROWS) (Shape [])"
  by (cases n) (simp_all add: notice_lines_def NOTICE_ROWS_def eval_nat_numeral)

lemma summary_shape [simp]: "map item_shape (summary_rows s) = replicate 4 (Shape [])"
  by (simp add: summary_rows_def eval_nat_numeral)

lemma transfer_shape: "map item_shape (transfer_lines t) = replicate (5 + FILE_CAP + DEGRADED_ROWS) (Shape [])"
proof -
  have "map item_shape (map (file_slot t) [0..<FILE_CAP]) = replicate FILE_CAP (Shape [])"
    by (auto simp: file_slot_def map_replicate_const comp_def)
  then show ?thesis
    by (simp add: transfer_lines_def DEGRADED_ROWS_def FILE_CAP_def eval_nat_numeral)
qed

definition mount_shape :: shape where
  "mount_shape = Shape (replicate (2 + REASON_ROWS + 4 + 1 + 5 + FILE_CAP + DEGRADED_ROWS) (Shape []))"

lemma mount_item_shape [simp]: "item_shape (mount_item m v) = mount_shape"
proof -
  have open_leaf: "item_shape (case p of Some p \<Rightarrow> if b then action_item ''Open'' (Open p) else disabled_action ''Open''
      | None \<Rightarrow> disabled_action ''Open'') = Shape []" for p b
    by (simp split: option.split)
  have "map item_shape (if mv_managed v
      then [verb_item (mv_name v) VMount (settled v \<and> \<not> mv_live v), verb_item (mv_name v) VUnmount (settled v \<and> mv_live v)]
      else [one_row ''Not managed by this service'', hidden]) = [Shape [], Shape []]"
    by simp
  then show ?thesis
    using transfer_shape [of "tm_transfer (mv_name v) m"]
    by (simp add: mount_item_def submenu_def open_leaf mount_shape_def REASON_ROWS_def FILE_CAP_def
        DEGRADED_ROWS_def eval_nat_numeral)
qed


lemma counts_of_flags:
  assumes "map mv_managed vs = map mv_managed ws"
  shows "length (filter mv_managed vs) = length (filter mv_managed ws)"
    "length (filter (\<lambda>v. \<not> mv_managed v) vs) = length (filter (\<lambda>v. \<not> mv_managed v) ws)"
proof -
  have "length (filter id (map mv_managed vs)) = length (filter id (map mv_managed ws))"
    "length (filter Not (map mv_managed vs)) = length (filter Not (map mv_managed ws))"
    using assms by simp_all
  then show "length (filter mv_managed vs) = length (filter mv_managed ws)"
    "length (filter (\<lambda>v. \<not> mv_managed v) vs) = length (filter (\<lambda>v. \<not> mv_managed v) ws)"
    by (simp_all add: filter_map comp_def)
qed

lemma items_shape: "map item_shape (map (mount_item m) vs) = replicate (length vs) mount_shape"
  by (auto simp: map_replicate_const comp_def)

text \<open>
  The menu keeps its shape while things happen: as long as the link is the same and the same
  mounts are listed as ours or not, nothing that changes about them - states, reasons, mount
  points, remotes, readings, notices - adds or removes an item anywhere, so the ids of the
  menu the panel has drawn stay good.
\<close>

theorem the_menu_keeps_its_shape:
  assumes "tm_link m' = tm_link m"
    "map mv_managed (tm_mount_list m') = map mv_managed (tm_mount_list m)"
  shows "map item_shape (build m') = map item_shape (build m)"
proof (cases "tm_link m")
  case (Up info)
  note counts = counts_of_flags [OF assms(2)]
  have nonempty: "filter mv_managed (tm_mount_list m') = [] \<longleftrightarrow> filter mv_managed (tm_mount_list m) = []"
    "filter (\<lambda>v. \<not> mv_managed v) (tm_mount_list m') = [] \<longleftrightarrow> filter (\<lambda>v. \<not> mv_managed v) (tm_mount_list m) = []"
    using counts by (metis length_0_conv)+
  have "map item_shape (connected m' info) = map item_shape (connected m info)"
    unfolding connected_def Let_def
    by (simp add: nonempty items_shape [unfolded map_map] counts comp_def map_replicate_const)
  then show ?thesis using Up assms(1) by (simp add: build_def)
qed (simp_all add: build_def unreachable_service_def assms(1))

section \<open>What a click asks for\<close>

fun callbacks :: "item \<Rightarrow> callback list" where
  "callbacks Separator = []"
| "callbacks (Standard _ _ _ c) = [c]"
| "callbacks (SubMenu _ rows) = concat (map callbacks rows)"

fun says :: "callback \<Rightarrow> action \<Rightarrow> bool" where
  "says NoCall a = False"
| "says (Send b) a = (a = b)"
| "says (Ask n VMount) a = (a = ActMount n)"
| "says (Ask n VUnmount) a = (a = ActUnmount n)"
| "says (Bulk up) a = (\<exists>n. a = (if up then ActMount n else ActUnmount n))"

text \<open>The request makes sense for the rows as they are at the click.\<close>

definition sensible :: "tray_model \<Rightarrow> action \<Rightarrow> bool" where
  "sensible m a =
     (\<forall>n. (a = ActMount n \<longrightarrow> (\<exists>v \<in> set (tm_mount_list m). mv_name v = n \<and> settled v \<and> \<not> mv_live v))
       \<and> (a = ActUnmount n \<longrightarrow> (\<exists>v \<in> set (tm_mount_list m). mv_name v = n \<and> settled v \<and> mv_live v)))"

definition ours_in :: "tray_model \<Rightarrow> string \<Rightarrow> bool" where
  "ours_in m n = (\<exists>v \<in> set (tm_mount_list m). mv_name v = n \<and> mv_managed v)"

definition names_ours :: "tray_model \<Rightarrow> callback \<Rightarrow> bool" where
  "names_ours m c =
     (case c of
        Ask n v \<Rightarrow> ours_in m n
      | Send a \<Rightarrow> fst (target a) = None
      | _ \<Rightarrow> True)"

lemma act_sent:
  "tm_sent (act a m) = tm_sent m @ (if tm_closed m then [] else [a])"
  "tm_closed (act a m) = tm_closed m" "tm_mounts (act a m) = tm_mounts m"
  by (simp_all add: act_def Let_def)

lemma acts_sent:
  "tm_sent (foldl (\<lambda>m n. act (f n) m) m ns) = tm_sent m @ (if tm_closed m then [] else map f ns)"
  by (induction ns arbitrary: m) (auto simp: act_sent)

lemma find_row: "find (\<lambda>r. mv_name r = n) vs = Some v \<Longrightarrow> v \<in> set vs \<and> mv_name v = n"
  by (auto simp: find_Some_iff)

lemma click_sends:
  "\<exists>as. tm_sent (click c m) = tm_sent m @ (if tm_closed m then [] else as)
     \<and> (\<forall>a \<in> set as. says c a \<and> (names_ours m0 c \<longrightarrow> sensible m a
          \<and> (\<forall>n. fst (target a) = Some n \<longrightarrow> ours_in m0 n \<or> ours_in m n)))"
proof (cases c)
  case NoCall
  then show ?thesis by (intro exI [of _ "[]"]) simp
next
  case (Send a)
  then show ?thesis
    by (intro exI [of _ "[a]"]) (cases a; simp add: act_sent names_ours_def sensible_def)
next
  case (Bulk up)
  let ?rows = "filter (\<lambda>r. mv_managed r \<and> settled r \<and> mv_live r \<noteq> up) (tm_mount_list m)"
  let ?as = "map (\<lambda>n. if up then ActMount n else ActUnmount n) (map mv_name ?rows)"
  have "tm_sent (click c m) = tm_sent m @ (if tm_closed m then [] else ?as)"
    unfolding Bulk click.simps by (rule acts_sent)
  moreover have "says c a \<and> sensible m a \<and> (\<forall>n. fst (target a) = Some n \<longrightarrow> ours_in m n)" if "a \<in> set ?as" for a
    using that unfolding Bulk by (auto simp: sensible_def ours_in_def split: if_splits)
  ultimately show ?thesis by blast
next
  case (Ask n v)
  show ?thesis
  proof (cases "tm_sent (click c m) = tm_sent m")
    case True
    then show ?thesis by (intro exI [of _ "[]"]) simp
  next
    case False
    then obtain r where r: "find (\<lambda>r. mv_name r = n) (tm_mount_list m) = Some r" "settled r" "mv_live r = (v = VUnmount)"
      unfolding Ask by (auto split: option.splits verb.splits if_splits)
    let ?a = "case v of VMount \<Rightarrow> ActMount n | VUnmount \<Rightarrow> ActUnmount n"
    have "tm_sent (click c m) = tm_sent m @ (if tm_closed m then [] else [?a])"
      using r unfolding Ask by (cases v) (simp_all add: act_sent)
    moreover have "says c ?a" unfolding Ask by (cases v) simp_all
    moreover have "sensible m ?a" using r find_row [OF r(1)] by (cases v) (auto simp: sensible_def)
    moreover have "names_ours m0 c \<longrightarrow> (\<forall>k. fst (target ?a) = Some k \<longrightarrow> ours_in m0 k)"
      unfolding Ask by (cases v) (auto simp: names_ours_def)
    ultimately show ?thesis by (intro exI [of _ "[?a]"]) auto
  qed
qed


lemma no_calls [simp]:
  "callbacks hidden = [NoCall]" "callbacks (one_row l) = [NoCall]" "callbacks (row_or_gap g) = [NoCall]"
  "callbacks (action_item l a) = [Send a]" "callbacks (disabled_action l) = [NoCall]"
  "callbacks (verb_item n v on) = [Ask n v]" "callbacks (bulk_item l up on) = [Bulk up]"
  "callbacks (submenu l rows) = concat (map callbacks rows)"
  by (auto simp: hidden_def one_row_def row_or_gap_def action_item_def disabled_action_def verb_item_def
      bulk_item_def submenu_def split: option.split)

definition harmless :: "tray_model \<Rightarrow> item \<Rightarrow> bool" where
  "harmless m i = list_all (names_ours m) (callbacks i)"

lemma harmless_simps [simp]:
  "harmless m Separator" "harmless m hidden" "harmless m (one_row l)" "harmless m (row_or_gap g)"
  "harmless m (disabled_action l)" "harmless m (bulk_item l up on)"
  "harmless m (action_item l a) \<longleftrightarrow> fst (target a) = None"
  "harmless m (verb_item n v on) \<longleftrightarrow> ours_in m n"
  "harmless m (submenu l rows) \<longleftrightarrow> list_all (harmless m) rows"
  by (simp_all add: harmless_def names_ours_def list_all_iff split: option.split)

lemma harmless_rows [simp]:
  "list_all (harmless m) (block l rows)" "list_all (harmless m) (text_rows s)"
  "list_all (harmless m) (notice_lines n)" "list_all (harmless m) (summary_rows u)"
proof -
  show b: "list_all (harmless m) (block l rows)" for l rows
    by (auto simp: block_def resize_with_def list_all_iff dest!: in_set_takeD split: option.split)
  show "list_all (harmless m) (text_rows s)"
    by (auto simp: text_rows_def list_all_iff harmless_def names_ours_def)
  show "list_all (harmless m) (notice_lines n)" by (simp add: notice_lines_def b)
  show "list_all (harmless m) (summary_rows u)" by (simp add: summary_rows_def)
qed

lemma harmless_transfer [simp]: "list_all (harmless m) (transfer_lines t)"
  by (simp add: transfer_lines_def file_slot_def list_all_iff [of _ "map f xs" for f xs])

lemma harmless_mount: "v \<in> set (tm_mount_list m) \<Longrightarrow> harmless m (mount_item m v)"
  by (auto simp: mount_item_def ours_in_def split: option.split)

lemma harmless_build: "list_all (harmless m) (build m)"
proof (cases "tm_link m")
  case (Up info)
  have "list_all (harmless m) (map (mount_item m) (filter P (tm_mount_list m)))" for P
    by (auto simp: list_all_iff intro: harmless_mount)
  then show ?thesis
    by (simp add: Up build_def connected_def Let_def about_def stop_service_def quit_def)
qed (simp_all add: build_def unreachable_service_def quit_def)

text \<open>
  A click asks for what the item says and no more. Whatever the model has become since the
  menu was drawn, clicking an item of it adds to the requests only ones the item stands for,
  each asked once and sensible for the rows as they are now - a mount is asked for only where
  nothing is up and nothing under way, an unmount only where something is - about a mount this
  service manages, then or now; once the queue's reader has gone, nothing is added.
\<close>

theorem a_click_asks_for_what_it_says:
  assumes "c \<in> set (concat (map callbacks (build m0)))"
  shows "\<exists>as. tm_sent (click c m) = tm_sent m @ (if tm_closed m then [] else as)
     \<and> (\<forall>a \<in> set as. says c a \<and> sensible m a
          \<and> (\<forall>n. fst (target a) = Some n \<longrightarrow> ours_in m0 n \<or> ours_in m n))"
proof -
  have "names_ours m0 c"
    using assms harmless_build [of m0] by (auto simp: harmless_def list_all_iff)
  then show ?thesis using click_sends [of c m m0] by simp
qed


section \<open>Labels\<close>

fun labels :: "item \<Rightarrow> string list" where
  "labels Separator = []"
| "labels (Standard l _ _ _) = [l]"
| "labels (SubMenu l rows) = l # concat (map labels rows)"

text \<open>The panel draws the text before the escaping, on a row of its width.\<close>

definition drawable :: "string \<Rightarrow> bool" where
  "drawable l = (\<exists>s. l = escape s \<and> char_count s \<le> ROW_WIDTH + 2)"

definition fits_row :: "item \<Rightarrow> bool" where
  "fits_row i = list_all drawable (labels i)"

lemma char_count_concat: "\<forall>u \<in> set us. char_count u \<le> 1 \<Longrightarrow> char_count (concat us) \<le> length us"
proof (induction us)
  case (Cons u us)
  then show ?case using char_count_append [of u "concat us"] by simp
qed (simp add: char_count_def)

lemma clip_fits: "char_count (clip s) \<le> ROW_WIDTH + 1"
proof (cases "ROW_WIDTH < char_count s")
  case True
  have "char_count (concat (take ROW_WIDTH (chars s))) \<le> ROW_WIDTH"
    using char_count_concat [of "take ROW_WIDTH (chars s)"] by (force dest: in_set_takeD char_count_unit)
  moreover have "char_count ellipsis = 1" by (simp add: char_count_def is_cont_def)
  ultimately show ?thesis
    using True char_count_append [of "concat (take ROW_WIDTH (chars s))" ellipsis] by (simp add: clip_def)
qed (simp add: clip_def)

lemma drawable_clip: "drawable (escape (clip s))"
  unfolding drawable_def using clip_fits [of s] by (intro exI [of _ "clip s"]) simp

lemma drawable_wrap: "\<forall>l \<in> set (wrap s ROW_WIDTH n). drawable (escape l)"
  using wrap_fits [of s ROW_WIDTH n "[]"] by (auto simp: drawable_def ROW_WIDTH_def)

lemma drawable_short: "length s \<le> ROW_WIDTH + 2 \<Longrightarrow> drawable (escape s)"
proof -
  have "char_count s \<le> length s" for s
    by (induction s rule: chars.induct) (auto simp: char_count_def intro: le_trans [OF _ length_dropWhile_le])
  then show "length s \<le> ROW_WIDTH + 2 \<Longrightarrow> drawable (escape s)"
    unfolding drawable_def using le_trans by blast
qed

lemma fits_simps [simp]:
  "fits_row Separator" "fits_row hidden" "fits_row (one_row l)" "fits_row (row_or_gap g)"
  "length l \<le> ROW_WIDTH + 2 \<Longrightarrow> fits_row (action_item l a)"
  "length l \<le> ROW_WIDTH + 2 \<Longrightarrow> fits_row (disabled_action l)"
  "length l \<le> ROW_WIDTH + 2 \<Longrightarrow> fits_row (bulk_item l up on)"
  "fits_row (verb_item n v on)"
  "fits_row (submenu l rows) \<longleftrightarrow> list_all fits_row rows"
proof -
  have e: "drawable []" using drawable_short [of "[]"] by (simp add: escape_def)
  show "fits_row Separator" "fits_row hidden" "fits_row (one_row l)"
    by (simp_all add: fits_row_def hidden_def one_row_def e drawable_clip)
  then show "fits_row (row_or_gap g)"
    by (simp add: fits_row_def row_or_gap_def one_row_def drawable_clip hidden_def e split: option.split)
  show "fits_row (verb_item n v on)"
    by (cases v) (simp_all add: fits_row_def verb_item_def drawable_short ROW_WIDTH_def)
  show "fits_row (submenu l rows) \<longleftrightarrow> list_all fits_row rows"
    by (auto simp: fits_row_def submenu_def drawable_clip list_all_iff)
qed (simp_all add: fits_row_def action_item_def disabled_action_def bulk_item_def drawable_short)

lemma fits_rows [simp]:
  "list_all fits_row (block l rows)" "list_all fits_row (text_rows s)"
  "list_all fits_row (notice_lines n)" "list_all fits_row (summary_rows u)"
  "list_all fits_row (transfer_lines t)"
proof -
  have w: "fits_row (one_row s)" for s by simp
  show b: "list_all fits_row (block l rows)" for l rows
    by (auto simp: block_def resize_with_def list_all_iff dest!: in_set_takeD split: option.split)
  show "list_all fits_row (text_rows s)"
    using drawable_wrap [of s ROW_LINES] by (auto simp: text_rows_def list_all_iff fits_row_def)
  show "list_all fits_row (notice_lines n)" by (simp add: notice_lines_def b)
  show "list_all fits_row (summary_rows u)" by (simp add: summary_rows_def)
  show "list_all fits_row (transfer_lines t)"
    by (simp add: transfer_lines_def file_slot_def b list_all_iff [of _ "map f xs" for f xs])
qed

lemma fits_mount [simp]: "fits_row (mount_item m v)"
  by (simp add: mount_item_def ROW_WIDTH_def split: option.split)

text \<open>
  Every row of the menu fits the panel, whatever names, reasons, paths or versions the
  service sent: each label is a text of at most the row's width and its ellipsis, in
  characters, with every underscore doubled so that none of it is taken for a mnemonic.
\<close>

theorem rows_fit_the_panel: "list_all drawable (concat (map labels (build m)))"
proof -
  have "list_all fits_row (map (mount_item m) vs)" for vs
    by (simp add: list_all_iff)
  then have "list_all fits_row (build m)"
    by (simp add: build_def connected_def Let_def unreachable_service_def about_def stop_service_def
        quit_def QUIT_LABEL_def ROW_WIDTH_def split: link.split)
  then show ?thesis by (induction "build m") (auto simp: list_all_iff fits_row_def)
qed


definition films_row :: "bool \<Rightarrow> mount_view" where
  "films_row up = \<lparr>mv_name = ''films'', mv_state = (if up then ''mounted'' else ''unmounted''), mv_live = up,
     mv_managed = True, mv_reason = None, mv_point = Some ''/mnt/films'', mv_remote = Some ''gdrive:films''\<rparr>"

definition films_tray :: tray_model where
  "films_tray = go_up sample_info [films_row True] (tray_new [] False)"

lemma films_tray:
  "tm_link films_tray = Up sample_info" "tm_mount_list films_tray = [films_row True]"
  "tm_sent films_tray = []" "tm_closed films_tray = False"
  by (simp_all add: films_tray_def go_up_def tray_new_def tm_mount_list_def collect_mounts_def films_row_def bt_values_def)

lemma films_gone: 
  "tm_link (upsert_mount (films_row False) films_tray) = Up sample_info"
  "tm_mount_list (upsert_mount (films_row False) films_tray) = [films_row False]"
  by (simp_all add: films_tray_def go_up_def tray_new_def tm_mount_list_def collect_mounts_def films_row_def bt_values_def
      upsert_mount_def)

theorem the_menu_keeps_its_shape_witness:
  "map item_shape (build (upsert_mount (films_row False) films_tray)) = map item_shape (build films_tray)"
  by (rule the_menu_keeps_its_shape) (simp_all only: films_tray films_gone, simp add: films_row_def)

theorem a_click_asks_for_what_it_says_witness:
  "\<exists>as. tm_sent (click (Ask ''films'' VUnmount) films_tray) = tm_sent films_tray @ as \<and> as = [ActUnmount ''films'']"
proof -
  have c: "Ask ''films'' VUnmount \<in> set (concat (map callbacks (build films_tray)))"
    by (simp add: build_def connected_def films_tray films_row_def mount_item_def)
  have sent: "tm_sent (click (Ask ''films'' VUnmount) films_tray) = [ActUnmount ''films'']"
    by (simp add: films_tray films_row_def settled_def act_sent)
  obtain as where "tm_sent (click (Ask ''films'' VUnmount) films_tray) = tm_sent films_tray @ as"
    using a_click_asks_for_what_it_says [OF c, of films_tray] films_tray by auto
  then show ?thesis using sent films_tray by simp
qed


section \<open>Where a click lands\<close>

text \<open>
  The panel sends the index it drew; the tray runs what sits there now. What an index means is the
  callback that sits there.
\<close>

datatype 'c meaning = Means 'c | Within "'c meaning list"

fun item_meaning :: "item \<Rightarrow> callback meaning" where
  "item_meaning Separator = Means NoCall"
| "item_meaning (Standard _ _ _ c) = Means c"
| "item_meaning (SubMenu _ rows) = Within (map item_meaning rows)"

text \<open>What the Open row of a name runs: nothing, or to open the point that is listed for that name.\<close>

definition opens :: "tray_model \<Rightarrow> string \<Rightarrow> callback \<Rightarrow> bool" where
  "opens m n c =
     (case c of
        NoCall \<Rightarrow> True
      | Send (Open p) \<Rightarrow> list_ex (\<lambda>v. mv_name v = n \<and> mv_live v \<and> mv_point v = Some p) (tm_mount_list m)
      | _ \<Rightarrow> False)"

definition same_click :: "tray_model \<Rightarrow> tray_model \<Rightarrow> callback \<Rightarrow> callback \<Rightarrow> bool" where
  "same_click m' m c d = (c = d \<or> (\<exists>n. opens m' n c \<and> opens m n d))"

abbreviation same_clicks :: "tray_model \<Rightarrow> tray_model \<Rightarrow> item list \<Rightarrow> item list \<Rightarrow> bool" where
  "same_clicks m' m xs ys \<equiv>
     list_all2 (rel_meaning (same_click m' m)) (map item_meaning xs) (map item_meaning ys)"

lemma meaning_simps [simp]:
  "item_meaning hidden = Means NoCall" "item_meaning (one_row l) = Means NoCall"
  "item_meaning (row_or_gap g) = Means NoCall" "item_meaning (disabled_action l) = Means NoCall"
  "item_meaning (action_item l a) = Means (Send a)"
  "item_meaning (verb_item n v on) = Means (Ask n v)" "item_meaning (bulk_item l up on) = Means (Bulk up)"
  "item_meaning (submenu l rows) = Within (map item_meaning rows)"
  by (auto simp: hidden_def one_row_def row_or_gap_def action_item_def disabled_action_def verb_item_def
      bulk_item_def submenu_def split: option.split)

lemma block_meaning [simp]: "map item_meaning (block l rows) = replicate rows (Means NoCall)"
  by (rule nth_equalityI) (auto simp: block_def resize_with_def nth_append split: option.split)

lemma meaning_rows [simp]:
  "map item_meaning (notice_lines n) = replicate (Suc NOTICE_ROWS) (Means NoCall)"
  "map item_meaning (summary_rows u) = replicate 4 (Means NoCall)"
  by (cases n; simp add: notice_lines_def NOTICE_ROWS_def eval_nat_numeral)
    (simp add: summary_rows_def eval_nat_numeral)

lemma transfer_meaning:
  "map item_meaning (transfer_lines t) = replicate (5 + FILE_CAP + DEGRADED_ROWS) (Means NoCall)"
proof -
  have "map item_meaning (map (file_slot t) [0..<FILE_CAP]) = replicate FILE_CAP (Means NoCall)"
    by (auto simp: file_slot_def map_replicate_const comp_def)
  then show ?thesis
    by (simp add: transfer_lines_def DEGRADED_ROWS_def FILE_CAP_def eval_nat_numeral)
qed

lemma same_clicks_refl: "map item_meaning xs = map item_meaning ys \<Longrightarrow> same_clicks m' m xs ys"
  by (simp only:) (intro list.rel_refl meaning.rel_refl, simp add: same_click_def)

lemma same_clicks_append: "same_clicks m' m xs ys \<Longrightarrow> same_clicks m' m us vs \<Longrightarrow> same_clicks m' m (xs @ us) (ys @ vs)"
  by (simp add: list_all2_appendI)

lemma mount_meaning:
  assumes "v \<in> set (tm_mount_list m')" "w \<in> set (tm_mount_list m)" "mv_name v = mv_name w" "mv_managed v = mv_managed w"
  shows "rel_meaning (same_click m' m) (item_meaning (mount_item m' v)) (item_meaning (mount_item m w))"
proof -
  define opener where "opener v = (case mv_point v of
      Some p \<Rightarrow> if mv_live v then action_item ''Open'' (Open p) else disabled_action ''Open''
    | None \<Rightarrow> disabled_action ''Open'')" for v :: mount_view
  define above where "above v = [one_row (unwrap_or (mv_point v) ''no mount point recorded''), row_or_gap (mv_remote v)]
    @ block (map_option (\<lambda>r. ''Failed: '' @ r) (mv_reason v)) REASON_ROWS @ [Separator]" for v :: mount_view
  define below where "below m v = (if mv_managed v
      then [verb_item (mv_name v) VMount (settled v \<and> \<not> mv_live v), verb_item (mv_name v) VUnmount (settled v \<and> mv_live v)]
      else [one_row ''Not managed by this service'', hidden])
    @ [Separator] @ transfer_lines (tm_transfer (mv_name v) m)" for m and v :: mount_view
  have rows: "item_meaning (mount_item m v) = Within (map item_meaning (above v @ [opener v] @ below m v))" for m v
    by (simp add: mount_item_def above_def opener_def below_def)
  have opens: "item_meaning (opener v) = Means c \<Longrightarrow> v \<in> set (tm_mount_list k) \<Longrightarrow> opens k (mv_name v) c" for v c k
    by (auto simp: opener_def opens_def list_ex_iff split: option.splits if_splits)
  have "\<exists>c. item_meaning (opener v) = Means c" for v by (simp add: opener_def split: option.split)
  then obtain c d where cd: "item_meaning (opener v) = Means c" "item_meaning (opener w) = Means d" by blast
  then have "same_click m' m c d"
    using opens [OF cd(1) assms(1)] opens [OF cd(2) assms(2)] assms(3) unfolding same_click_def by metis
  then have mid: "same_clicks m' m [opener v] [opener w]" by (simp add: cd)
  have a: "map item_meaning (above v) = map item_meaning (above w)" by (simp add: above_def)
  have b: "map item_meaning (below m' v) = map item_meaning (below m w)"
    using assms(3,4) by (simp add: below_def transfer_meaning)
  have "same_clicks m' m (above v @ [opener v] @ below m' v) (above w @ [opener w] @ below m w)"
    by (rule same_clicks_append [OF same_clicks_refl [OF a] same_clicks_append [OF mid same_clicks_refl [OF b]]])
  then show ?thesis unfolding rows by simp
qed

lemma mounts_meaning:
  assumes "map (\<lambda>v. (mv_name v, mv_managed v)) (tm_mount_list m') = map (\<lambda>v. (mv_name v, mv_managed v)) (tm_mount_list m)"
    "\<And>v w. mv_managed v = mv_managed w \<Longrightarrow> P v = P w"
  shows "same_clicks m' m (map (mount_item m') (filter P (tm_mount_list m'))) (map (mount_item m) (filter P (tm_mount_list m)))"
    and "filter P (tm_mount_list m') = [] \<longleftrightarrow> filter P (tm_mount_list m) = []"
proof -
  define R where "R v w = (v \<in> set (tm_mount_list m') \<and> w \<in> set (tm_mount_list m)
    \<and> mv_name v = mv_name w \<and> mv_managed v = mv_managed w)" for v w
  have "list_all2 (\<lambda>v w. (mv_name v, mv_managed v) = (mv_name w, mv_managed w)) (tm_mount_list m') (tm_mount_list m)"
    using assms(1) unfolding list.rel_eq [symmetric] list.rel_map .
  then have "list_all2 R (tm_mount_list m') (tm_mount_list m)"
    by (auto simp: list_all2_conv_all_nth R_def)
  then have "list_all2 R (filter P (tm_mount_list m')) (filter P (tm_mount_list m))"
  proof (induction rule: list_all2_induct)
    case (Cons v vs w ws)
    then have "P v = P w" by (intro assms(2)) (simp add: R_def)
    with Cons show ?case by simp
  qed simp
  then show "same_clicks m' m (map (mount_item m') (filter P (tm_mount_list m'))) (map (mount_item m) (filter P (tm_mount_list m)))"
      "filter P (tm_mount_list m') = [] \<longleftrightarrow> filter P (tm_mount_list m) = []"
    by (induction rule: list_all2_induct) (auto simp: R_def intro: mount_meaning)
qed

lemma same_clicks_group:
  assumes "same_clicks m' m xs ys" "us' = [] \<longleftrightarrow> us = []"
  shows "same_clicks m' m (if us' \<noteq> [] then Separator # xs else []) (if us \<noteq> [] then Separator # ys else [])"
proof (cases "us = []")
  case False
  have "rel_meaning (same_click m' m) (Means NoCall) (Means NoCall)" by (simp add: same_click_def)
  with False show ?thesis using assms by simp
qed (use assms(2) in simp)




end
