(* ===== verification/Rclone.thy ===== *)
theory Rclone
  imports Config
begin

text \<open>
  Finding the rclone executable and asking it about itself (crates/core/src/rclone.rs). What
  the environment and running a program answer is a record of functions.
\<close>

section \<open>Versions\<close>

datatype version = Version (major: "32 word") (minor: "32 word") (patch: "32 word")

text \<open>The derived order compares the parts in turn.\<close>

instantiation version :: linorder
begin

definition less_eq_version :: "version \<Rightarrow> version \<Rightarrow> bool" where
  "less_eq_version a b =
     (major a < major b \<or> major a = major b \<and> (minor a < minor b \<or> minor a = minor b \<and> patch a \<le> patch b))"

definition less_version :: "version \<Rightarrow> version \<Rightarrow> bool" where
  "less_version a b =
     (major a < major b \<or> major a = major b \<and> (minor a < minor b \<or> minor a = minor b \<and> patch a < patch b))"

instance
  by standard (auto simp: less_eq_version_def less_version_def version.expand)

end

definition MINIMUM_VERSION :: version where "MINIMUM_VERSION = Version 1 61 0"

definition show_u32 :: "32 word \<Rightarrow> string" where
  "show_u32 n = show_nat (unat n)"

definition show_version :: "version \<Rightarrow> string" where
  "show_version v = show_u32 (major v) @ ''.'' @ show_u32 (minor v) @ ''.'' @ show_u32 (patch v)"

definition parse_u32 :: "string \<Rightarrow> 32 word option" where
  "parse_u32 s = (case from_str_radix 10 4294967295 s of Inr n \<Rightarrow> Some (of_nat n) | Inl _ \<Rightarrow> None)"

fun upto_suffix :: "string \<Rightarrow> string" where
  "upto_suffix [] = []"
| "upto_suffix (c # s) = (if c = CHR ''-'' \<or> c = CHR ''+'' then [] else c # upto_suffix s)"

definition version_from_str :: "string \<Rightarrow> version option" where
  "version_from_str s =
     (let s = upto_suffix (dropWhile (\<lambda>c. c = CHR ''v'') (trim s)) in
      case split_on (CHR ''.'') s of
        [] \<Rightarrow> None
      | a # rest \<Rightarrow>
          (case parse_u32 a of None \<Rightarrow> None
           | Some x \<Rightarrow>
               (case parse_u32 (case rest of [] \<Rightarrow> ''0'' | b # _ \<Rightarrow> b) of None \<Rightarrow> None
                | Some y \<Rightarrow>
                    (case parse_u32 (case rest of _ # c # _ \<Rightarrow> c | _ \<Rightarrow> ''0'') of None \<Rightarrow> None
                     | Some z \<Rightarrow> Some (Version x y z)))))"

fun find_map :: "('a \<Rightarrow> 'b option) \<Rightarrow> 'a list \<Rightarrow> 'b option" where
  "find_map f [] = None"
| "find_map f (x # xs) = (case f x of Some y \<Rightarrow> Some y | None \<Rightarrow> find_map f xs)"

definition parse_version_output :: "string \<Rightarrow> version option" where
  "parse_version_output stdout =
     (case lines stdout of
        [] \<Rightarrow> None
      | first # _ \<Rightarrow> find_map version_from_str (split_whitespace first))"

section \<open>Errors\<close>

datatype rclone_error =
    RcloneNotFound string
  | NotExecutable string io_error
  | UnparsableVersion string
  | TooOld version version
  | CommandFailed string string string

fun rclone_error_text :: "rclone_error \<Rightarrow> string" where
  "rclone_error_text (RcloneNotFound searched) = ''rclone not found (looked in: '' @ searched @ '')''"
| "rclone_error_text (NotExecutable path source) =
     ''rclone at '' @ path @ '' could not be run: '' @ io_text source"
| "rclone_error_text (UnparsableVersion output) =
     ''could not parse a version from rclone'' @ [CHR 0x27] @ ''s output: '' @ debug_str output"
| "rclone_error_text (TooOld found minimum) =
     ''rclone '' @ show_version found @ '' is too old; '' @ show_version minimum @ '' or newer is required''"
| "rclone_error_text (CommandFailed args status stderr) =
     ''`rclone '' @ args @ ''` failed ('' @ status @ ''): '' @ stderr"

section \<open>The binary\<close>

text \<open>What a program printed: whether it succeeded, its status as text, its two outputs.\<close>

record program_output =
  out_ok :: bool
  out_status :: string
  out_stdout :: string
  out_stderr :: string

record environment =
  env_path :: "string option"
  env_is_file :: "string \<Rightarrow> bool"
  env_output :: "string \<Rightarrow> string list \<Rightarrow> io_error + program_output"

record rclone =
  rl_path :: string
  rl_version :: version

record config_paths =
  cp_config_file :: string
  cp_cache_dir :: string

definition FALLBACK_PATHS :: "string list" where
  "FALLBACK_PATHS =
     [''/usr/bin/rclone'', ''/usr/local/bin/rclone'', ''/opt/homebrew/bin/rclone'',
      ''/snap/bin/rclone'', ''/var/lib/flatpak/exports/bin/rclone'']"

text \<open>Appending unless an equal path is there already.\<close>

definition push_path :: "string list \<Rightarrow> string \<Rightarrow> string list" where
  "push_path hits p = (if list_ex (path_eq p) hits then hits else hits @ [p])"

definition which :: "environment \<Rightarrow> string \<Rightarrow> string list" where
  "which E bin =
     (case env_path E of
        None \<Rightarrow> []
      | Some path \<Rightarrow>
          foldl push_path []
            (filter (env_is_file E)
              (map (\<lambda>dir. path_join dir bin) (filter is_absolute (split_on (CHR '':'') path)))))"

definition probe_rclone :: "environment \<Rightarrow> string \<Rightarrow> rclone_error + rclone" where
  "probe_rclone E path =
     (case env_output E path [''version''] of
        Inl e \<Rightarrow> Inl (NotExecutable path e)
      | Inr out \<Rightarrow>
          if \<not> out_ok out
          then Inl (CommandFailed ''version'' (out_status out) (trim (from_utf8_lossy (out_stderr out))))
          else
            (let stdout = from_utf8_lossy (out_stdout out) in
             case parse_version_output stdout of
               None \<Rightarrow> Inl (UnparsableVersion (case lines stdout of [] \<Rightarrow> [] | l # _ \<Rightarrow> l))
             | Some v \<Rightarrow>
                 if v < MINIMUM_VERSION then Inl (TooOld v MINIMUM_VERSION)
                 else Inr \<lparr>rl_path = path, rl_version = v\<rparr>))"

definition candidates :: "environment \<Rightarrow> string list" where
  "candidates E =
     foldl (\<lambda>cs p. if env_is_file E p then push_path cs p else cs) (which E ''rclone'') FALLBACK_PATHS"

text \<open>The first that works; failing that, the first failure.\<close>

fun first_usable :: "environment \<Rightarrow> string list \<Rightarrow> rclone_error option \<Rightarrow> rclone_error + rclone" where
  "first_usable E [] first_err =
     Inl (case first_err of Some e \<Rightarrow> e
          | None \<Rightarrow> RcloneNotFound (join '', '' (''$PATH'' # FALLBACK_PATHS)))"
| "first_usable E (c # cs) first_err =
     (case probe_rclone E c of
        Inr r \<Rightarrow> Inr r
      | Inl e \<Rightarrow> first_usable E cs (case first_err of Some e0 \<Rightarrow> Some e0 | None \<Rightarrow> Some e))"

definition discover :: "environment \<Rightarrow> string option \<Rightarrow> rclone_error + rclone" where
  "discover E override_path =
     (case override_path of
        Some p \<Rightarrow> probe_rclone E p
      | None \<Rightarrow> first_usable E (candidates E) None)"

section \<open>Asking it\<close>

definition run_rclone :: "environment \<Rightarrow> rclone \<Rightarrow> string list \<Rightarrow> rclone_error + string" where
  "run_rclone E r args =
     (case env_output E (rl_path r) args of
        Inl e \<Rightarrow> Inl (NotExecutable (rl_path r) e)
      | Inr out \<Rightarrow>
          if \<not> out_ok out
          then Inl (CommandFailed (join '' '' (map from_utf8_lossy args)) (out_status out)
                  (trim (from_utf8_lossy (out_stderr out))))
          else Inr (from_utf8_lossy (out_stdout out)))"

definition paths_line :: "string option \<times> string option \<Rightarrow> string \<Rightarrow> string option \<times> string option" where
  "paths_line acc line =
     (case split_at_first '':'' line of
        None \<Rightarrow> acc
      | Some (key, value) \<Rightarrow>
          (let value = trim value; key = to_ascii_lowercase (trim key) in
           if key = ''config file'' then (Some value, snd acc)
           else if key = ''cache dir'' then (fst acc, Some value)
           else acc))"

definition config_paths_of :: "environment \<Rightarrow> rclone \<Rightarrow> rclone_error + config_paths" where
  "config_paths_of E r =
     (case run_rclone E r [''config'', ''paths''] of
        Inl e \<Rightarrow> Inl e
      | Inr stdout \<Rightarrow>
          (case foldl paths_line (None, None) (lines stdout) of
             (Some file, Some dir) \<Rightarrow> Inr \<lparr>cp_config_file = file, cp_cache_dir = dir\<rparr>
           | _ \<Rightarrow> Inl (CommandFailed ''config paths'' ''unexpected output'' (join ''; '' (take 4 (lines stdout))))))"

definition trim_colons :: "string \<Rightarrow> string" where
  "trim_colons s = rev (dropWhile (\<lambda>c. c = CHR '':'') (rev s))"

definition list_remotes :: "environment \<Rightarrow> rclone \<Rightarrow> rclone_error + string list" where
  "list_remotes E r =
     (case run_rclone E r [''listremotes''] of
        Inl e \<Rightarrow> Inl e
      | Inr stdout \<Rightarrow> Inr (filter (\<lambda>l. l \<noteq> []) (map (\<lambda>l. trim_colons (trim l)) (lines stdout))))"

section \<open>Versions come back\<close>

lemma show_digits: "list_all is_ascii_digit (show_base 10 n)"
proof (induction n rule: less_induct)
  case (less n)
  have d: "is_ascii_digit (digit_char d)" if "d < 10" for d
  proof -
    have "d \<in> {0, 1, 2, 3, 4, 5, 6, 7, 8, 9}" using that by auto
    then show ?thesis by (auto simp: digit_char_def is_ascii_digit_def less_eq_char_def)
  qed
  show ?case
  proof (cases "n < 10")
    case False
    then have "n div 10 < n" by simp
    with less False show ?thesis by (subst show_base.simps) (simp add: d)
  qed (subst show_base.simps, simp add: d)
qed

lemma parse_show_u32: "parse_u32 (show_u32 n) = Some n"
proof -
  have "unat n < 2 ^ LENGTH(32)" by (rule unsigned_less)
  then have "unat n \<le> 4294967295" by simp
  then show ?thesis by (simp add: parse_u32_def show_u32_def show_nat_def parse_show_base)
qed

definition printable :: "char \<Rightarrow> bool" where
  "printable c = (33 \<le> (of_char c :: nat) \<and> (of_char c :: nat) < 127)"

lemma printable_plain: "printable c \<Longrightarrow> \<not> is_cont c \<and> \<not> is_whitespace [c]"
  by (auto simp: printable_def is_cont_def is_whitespace_def)

lemma chars_printable: "list_all printable s \<Longrightarrow> chars s = map (\<lambda>c. [c]) s"
  by (rule chars_ascii) (auto simp: list_all_iff dest: printable_plain)

lemma trim_printable:
  assumes "list_all printable s"
  shows "trim s = s"
proof -
  have blank: "list_all printable t \<Longrightarrow> dropWhile is_whitespace (map (\<lambda>c. [c]) t) = map (\<lambda>c. [c]) t" for t
    by (cases t) (auto dest: printable_plain)
  have single: "concat (map (\<lambda>c. [c]) t) = t" for t :: string by (induction t) simp_all
  have "trim_start s = s" by (simp add: trim_start_def chars_printable [OF assms] blank [OF assms] single)
  moreover have "trim_end s = s"
    using blank [of "rev s"] assms
    by (simp add: trim_end_def chars_printable [OF assms] rev_map [symmetric] single list_all_iff)
  ultimately show ?thesis by (simp add: trim_def)
qed

lemma words_printable: "list_all printable t \<Longrightarrow> words_acc (map (\<lambda>c. [c]) t @ ps) w = words_acc ps (w @ t)"
  by (induction t arbitrary: w) (auto dest: printable_plain)

lemma digit_printable: "is_ascii_digit c \<Longrightarrow> printable c \<and> c \<noteq> CHR ''-'' \<and> c \<noteq> CHR ''+'' \<and> c \<noteq> CHR ''.'' \<and> c \<noteq> CHR ''v''"
  by (auto simp: is_ascii_digit_def printable_def less_eq_char_def)

lemma upto_suffix_append:
  "list_all (\<lambda>c. c \<noteq> CHR ''-'' \<and> c \<noteq> CHR ''+'') t \<Longrightarrow> upto_suffix (t @ s) = t @ upto_suffix s"
  by (induction t) auto

definition version_suffix :: "string \<Rightarrow> bool" where
  "version_suffix s = (list_all printable s \<and> upto_suffix s = [])"

lemma show_u32_digits: "list_all is_ascii_digit (show_u32 n)"
  by (simp add: show_u32_def show_nat_def show_digits)

abbreviation version_char :: "char \<Rightarrow> bool" where
  "version_char c \<equiv> printable c \<and> c \<noteq> CHR ''-'' \<and> c \<noteq> CHR ''+'' \<and> c \<noteq> CHR ''v''"

lemma show_version_plain: "list_all version_char (show_version v)"
proof -
  have "list_all version_char (show_u32 n)" for n
    using show_u32_digits [of n] by (rule list.pred_mono_strong) (use digit_printable in blast)
  moreover have "printable CHR ''.''" by (simp add: printable_def)
  ultimately show ?thesis by (simp add: show_version_def)
qed

lemma version_read_back:
  assumes "version_suffix s"
  shows "version_from_str (''v'' @ show_version v @ s) = Some v"
proof -
  have digits: "CHR ''.'' \<notin> set (show_u32 n)" for n
    using show_u32_digits [of n] digit_printable by (force simp: list_all_iff)
  have "list_all printable (''v'' @ show_version v @ s)"
    using show_version_plain [of v] assms by (auto simp: version_suffix_def list_all_iff printable_def)
  then have "trim (''v'' @ show_version v @ s) = ''v'' @ show_version v @ s" by (rule trim_printable)
  moreover have "dropWhile (\<lambda>c. c = CHR ''v'') (''v'' @ show_version v @ s) = show_version v @ s"
  proof (cases "show_version v")
    case Nil
    then show ?thesis by (simp add: show_version_def)
  next
    case (Cons c t)
    then have "c \<noteq> CHR ''v''" using show_version_plain [of v] by simp
    then show ?thesis by (simp add: Cons)
  qed
  moreover have "upto_suffix (show_version v @ s) = show_version v"
    using show_version_plain [of v] assms by (subst upto_suffix_append) (auto simp: list_all_iff version_suffix_def)
  moreover have "split_on (CHR ''.'') (show_version v) = [show_u32 (major v), show_u32 (minor v), show_u32 (patch v)]"
    unfolding show_version_def by (simp add: split_on_append digits split_on_field)
  ultimately show ?thesis by (simp add: version_from_str_def parse_show_u32)
qed


lemma rclone_word: "version_from_str ''rclone'' = None" "list_all printable ''rclone''"
proof -
  show p: "list_all printable ''rclone''" by (simp add: printable_def)
  have "parse_u32 ''rclone'' = None" by (simp add: parse_u32_def from_str_radix_def digit_value_def)
  then show "version_from_str ''rclone'' = None" by (simp add: version_from_str_def trim_printable [OF p])
qed

lemma breaks_not_printable: "\<not> printable newline" "\<not> printable carriage_return"
  by (simp_all add: printable_def)

lemma while_line:
  "x \<notin> set a \<Longrightarrow> takeWhile (\<lambda>c. c \<noteq> x) (a @ x # r) = a \<and> dropWhile (\<lambda>c. c \<noteq> x) (a @ x # r) = x # r"
  by (induction a) auto

lemma lines_first:
  assumes "newline \<notin> set a" "a \<noteq> []" "last a \<noteq> carriage_return"
  shows "lines (a @ newline # rest) = a # lines rest"
proof -
  have "strip_cr a = a" using assms(3) by (simp add: strip_cr_def)
  then show ?thesis using while_line [OF assms(1), of rest] assms(2) by (subst lines.simps) simp
qed

text \<open>
  What rclone prints as its version is what is read: any version, with or without the suffix
  of a development build, comes back whole from the first line of \<open>rclone version\<close>, whatever
  follows on later lines.
\<close>

theorem a_printed_version_is_read:
  assumes "version_suffix s"
  shows "parse_version_output (''rclone v'' @ show_version v @ s @ newline # rest) = Some v"
proof -
  let ?v = "''v'' @ show_version v @ s"
  have v: "list_all printable ?v"
    using show_version_plain [of v] assms by (auto simp: version_suffix_def list_all_iff printable_def)
  then have plain: "c \<noteq> newline \<and> c \<noteq> carriage_return" if "c \<in> set ?v" for c
    using that v breaks_not_printable unfolding list_all_iff by blast
  let ?line = "''rclone '' @ ?v"
  have "newline \<notin> set ?v" using plain by blast
  then have "newline \<notin> set ?line" by simp
  moreover have "last ?line \<noteq> carriage_return"
  proof -
    have "?v \<noteq> []" by simp
    then have "last ?line = last ?v" "last ?v \<in> set ?v" by (rule last_appendR, rule last_in_set)
    then show ?thesis using plain by metis
  qed
  ultimately have l: "lines (?line @ newline # rest) = ?line # lines rest" by (intro lines_first) simp_all
  have "list_all (\<lambda>c. \<not> is_cont c) ?line"
    using v printable_plain by (auto simp: list_all_iff is_cont_def)
  then have "chars ?line = map (\<lambda>c. [c]) ''rclone'' @ [CHR '' ''] # map (\<lambda>c. [c]) ?v"
    by (subst chars_ascii) simp_all
  moreover have "is_whitespace [CHR '' '']" by (simp add: is_whitespace_def)
  ultimately have "split_whitespace ?line = [''rclone'', ?v]"
    using words_printable [OF rclone_word(2), of "[CHR '' ''] # map (\<lambda>c. [c]) ?v" "[]"]
      words_printable [OF v, of "[]" "[]"]
    by (simp add: split_whitespace_def)
  then show ?thesis
    using l rclone_word(1) version_read_back [OF assms, of v] by (simp add: parse_version_output_def)
qed

theorem a_printed_version_is_read_witness:
  "parse_version_output (''rclone v1.75.0-beta.8'' @ newline # ''- os/arch: linux'') = Some (Version 1 75 0)"
proof -
  have s: "version_suffix ''-beta.8''" by code_simp
  have "show_version (Version 1 75 0) = ''1.75.0''" by code_simp
  then show ?thesis
    using a_printed_version_is_read [OF s, of "Version 1 75 0" "''- os/arch: linux''"] by simp
qed

section \<open>Which rclone is used\<close>

lemma push_path_set: "x \<in> set (push_path hits p) \<Longrightarrow> x = p \<or> x \<in> set hits"
  by (auto simp: push_path_def split: if_splits)

lemma foldl_push: "x \<in> set (foldl push_path hits ps) \<Longrightarrow> x \<in> set hits \<or> x \<in> set ps"
  by (induction ps arbitrary: hits) (auto dest: push_path_set)

lemma path_join_absolute: "is_absolute dir \<Longrightarrow> is_absolute (path_join dir bin)"
  by (cases dir) (auto simp: is_absolute_def path_join_def starts_with_def)

lemma which_absolute: "c \<in> set (which E bin) \<Longrightarrow> is_absolute c \<and> env_is_file E c"
  by (auto simp: which_def path_join_absolute split: option.splits dest!: foldl_push)

lemma candidates_absolute:
  assumes "c \<in> set (candidates E)"
  shows "is_absolute c \<and> env_is_file E c"
proof -
  have keep: "x \<in> set (foldl (\<lambda>cs p. if env_is_file E p then push_path cs p else cs) cs ps)
      \<Longrightarrow> x \<in> set cs \<or> x \<in> set ps \<and> env_is_file E x" for x cs ps
    by (induction ps arbitrary: cs) (auto dest: push_path_set split: if_splits)
  have "is_absolute p" if "p \<in> set FALLBACK_PATHS" for p
    using that by (auto simp: FALLBACK_PATHS_def is_absolute_def starts_with_def)
  then show ?thesis using assms which_absolute unfolding candidates_def by (blast dest: keep)
qed

lemma first_usable_ok:
  "first_usable E cs err = Inr r \<Longrightarrow> \<exists>before c later. cs = before @ c # later \<and> probe_rclone E c = Inr r
     \<and> list_all (\<lambda>b. \<exists>e. probe_rclone E b = Inl e) before"
proof (induction cs arbitrary: err)
  case (Cons c cs)
  show ?case
  proof (cases "probe_rclone E c")
    case (Inl e)
    then obtain before d later where "cs = before @ d # later" "probe_rclone E d = Inr r"
        "list_all (\<lambda>b. \<exists>e. probe_rclone E b = Inl e) before"
      using Cons.prems Cons.IH [of "case err of Some e0 \<Rightarrow> Some e0 | None \<Rightarrow> Some e"] by auto
    then show ?thesis using Inl by (intro exI [of _ "c # before"] exI [of _ d] exI [of _ later]) auto
  next
    case (Inr r')
    then show ?thesis using Cons.prems by (intro exI [of _ "[]"] exI [of _ c] exI [of _ cs]) auto
  qed
qed simp

lemma first_usable_err:
  "first_usable E cs err = Inl e \<Longrightarrow> list_all (\<lambda>c. \<exists>e. probe_rclone E c = Inl e) cs
     \<and> (case err of Some e0 \<Rightarrow> e = e0
        | None \<Rightarrow> (case cs of [] \<Rightarrow> e = RcloneNotFound (join '', '' (''$PATH'' # FALLBACK_PATHS))
                  | c # _ \<Rightarrow> probe_rclone E c = Inl e))"
  by (induction E cs err rule: first_usable.induct) (auto split: sum.splits option.splits)

lemma probe_ok: "probe_rclone E p = Inr r \<Longrightarrow> rl_path r = p \<and> MINIMUM_VERSION \<le> rl_version r
    \<and> (\<exists>out. env_output E p [''version''] = Inr out \<and> out_ok out)"
  by (auto simp: probe_rclone_def Let_def not_less split: sum.splits option.splits if_splits)

text \<open>
  The rclone that is used works and is the one that was meant: it ran, is recent enough, is
  the explicit choice where there is one, and otherwise an absolute path to a file and the first
  candidate in order that works; when none does the failure reported is the first candidate's.
\<close>

theorem the_usable_rclone_is_found:
  "case discover E chosen of
     Inr r \<Rightarrow>
       MINIMUM_VERSION \<le> rl_version r
       \<and> (\<exists>out. env_output E (rl_path r) [''version''] = Inr out \<and> out_ok out)
       \<and> (case chosen of
            Some p \<Rightarrow> rl_path r = p
          | None \<Rightarrow>
              is_absolute (rl_path r) \<and> env_is_file E (rl_path r)
              \<and> (\<exists>before later. candidates E = before @ rl_path r # later
                    \<and> list_all (\<lambda>b. \<exists>e. probe_rclone E b = Inl e) before))
   | Inl e \<Rightarrow>
       (case chosen of
          Some p \<Rightarrow> probe_rclone E p = Inl e
        | None \<Rightarrow>
            list_all (\<lambda>b. \<exists>e. probe_rclone E b = Inl e) (candidates E)
            \<and> (case candidates E of
                 [] \<Rightarrow> e = RcloneNotFound (join '', '' (''$PATH'' # FALLBACK_PATHS))
               | c # _ \<Rightarrow> probe_rclone E c = Inl e))"
proof (cases "discover E chosen")
  case (Inl e)
  then show ?thesis
    using first_usable_err [of E "candidates E" None e] by (cases chosen) (simp_all add: discover_def)
next
  case (Inr r)
  show ?thesis
  proof (cases chosen)
    case None
    obtain before later c where c: "candidates E = before @ c # later" "probe_rclone E c = Inr r"
        "list_all (\<lambda>b. \<exists>e. probe_rclone E b = Inl e) before"
      using Inr None first_usable_ok [of E "candidates E" None r] by (auto simp: discover_def)
    then show ?thesis using Inr None probe_ok [OF c(2)] candidates_absolute [of c E] by auto
  next
    case (Some p)
    then have "probe_rclone E p = Inr r" using Inr by (simp add: discover_def)
    then show ?thesis using Inr Some probe_ok by auto
  qed
qed

end
