(* ===== verification/Icon.thy ===== *)
theory Icon
  imports Menu Rclone
begin

text \<open>
  The status notifier item (crates/tray/src/sni.rs): what a panel is told about the icon, every
  answer a reading of the model.
\<close>

definition TRAY_ID :: string where "TRAY_ID = ''rclone-vfsmount-tray''"
definition TRAY_TITLE :: string where "TRAY_TITLE = ''rclone VFS mounts''"

datatype item_status = Active | NeedsAttention

record tooltip =
  tt_icon :: string
  tt_title :: string
  tt_text :: string

definition sni_icon_name :: "tray_model \<Rightarrow> string" where
  "sni_icon_name m = icon_name (state_of m)"

definition sni_attention_icon_name :: "tray_model \<Rightarrow> string" where
  "sni_attention_icon_name m = icon_name Attention"

definition sni_status :: "tray_model \<Rightarrow> item_status" where
  "sni_status m = (if needs_attention (state_of m) then NeedsAttention else Active)"

definition sni_tool_tip :: "tray_model \<Rightarrow> tooltip" where
  "sni_tool_tip m =
     \<lparr>tt_icon = icon_name (state_of m),
      tt_title = TRAY_TITLE @ dash @ headline m,
      tt_text =
        (case tm_link m of
           Connecting \<Rightarrow> ''Connecting'' @ ellipsis
         | Down _ \<Rightarrow>
             ''The tray cannot reach the service.'' @ [newline] @ ''Mounts already up are unaffected.''
         | Up _ \<Rightarrow>
             (let s = summary_of m in
              join [newline]
                ([mounted_line s]
                 @ (case pending_line s of Some l \<Rightarrow> [l] | None \<Rightarrow> [])
                 @ (case rate_line s of Some l \<Rightarrow> [l] | None \<Rightarrow> []))))\<rparr>"

definition sni_menu :: "tray_model \<Rightarrow> item list" where
  "sni_menu m = Menu.build m"

definition sni_activate :: "tray_model \<Rightarrow> tray_model" where
  "sni_activate m = act Refresh m"

definition sni_watcher_offline :: "tray_model \<Rightarrow> bool" where
  "sni_watcher_offline m = True"

section \<open>Markup\<close>

text \<open>A panel may read the tool tip as markup.\<close>

definition plain :: "string \<Rightarrow> bool" where
  "plain s = list_all (\<lambda>c. c \<noteq> CHR ''<'' \<and> c \<noteq> CHR ''>'' \<and> c \<noteq> CHR ''&'') s"

lemma plain_append [simp]: "plain (a @ b) \<longleftrightarrow> plain a \<and> plain b"
  by (simp add: plain_def)

lemma plain_Cons: "plain (c # s) \<longleftrightarrow> c \<noteq> CHR ''<'' \<and> c \<noteq> CHR ''>'' \<and> c \<noteq> CHR ''&'' \<and> plain s"
  by (simp add: plain_def)

lemma plain_Nil [simp]: "plain []"
  by (simp add: plain_def)

lemma plain_digits: "list_all is_ascii_digit s \<Longrightarrow> plain s"
proof (induction s)
  case (Cons c s)
  moreover have "\<not> is_ascii_digit (CHR ''<'')" "\<not> is_ascii_digit (CHR ''>'')" "\<not> is_ascii_digit (CHR ''&'')"
    by (simp_all add: is_ascii_digit_def less_eq_char_def)
  ultimately show ?case unfolding plain_Cons by auto
qed simp

lemma plain_show [simp]: "plain (show_nat n)" "plain (show_u64 w)"
  using show_digits by (simp_all add: show_nat_def show_u64_def plain_digits)

lemma plain_concat [simp]: "plain (concat xs) = list_all plain xs"
  by (induction xs) simp_all

lemma plain_join: "plain sep \<Longrightarrow> list_all plain xs \<Longrightarrow> plain (join sep xs)"
  by (cases xs) (simp_all add: join_def list.pred_map comp_def)

lemma plain_strip: "plain s \<Longrightarrow> plain (unwrap_or (strip_suffix t s) s)"
proof -
  have "plain s \<Longrightarrow> plain (take n s)" for n by (metis append_take_drop_id plain_append)
  then show "plain s \<Longrightarrow> ?thesis" by (simp add: strip_suffix_def unwrap_or_def split: option.split)
qed

lemma plain_bytes [simp]: "plain (human_bytes n)"
proof -
  have unit: "plain u \<Longrightarrow> list_all plain us \<Longrightarrow> plain (snd (scale_bytes us v u))" for us v u
    by (induction us v u rule: scale_bytes.induct) simp_all
  have "plain (snd (scale_bytes [''MiB'', ''GiB'', ''TiB'', ''PiB'', ''EiB''] v ''KiB''))" for v
    by (rule unit) (simp_all add: plain_Cons)
  moreover have "plain (show_decimal1 v)" for v by (simp add: show_decimal1_def Let_def plain_Cons)
  ultimately show ?thesis
    by (simp add: human_bytes_def Let_def plain_strip plain_Cons split: prod.split)
qed

text \<open>
  No text of anybody else's reaches the tool tip: whatever the mounts are called and whatever
  rclone, the service or the bus had to say, the title, the text and the icon's name hold no
  character a panel could read as markup.
\<close>

theorem the_tool_tip_is_plain:
  "plain (tt_title (sni_tool_tip m)) \<and> plain (tt_text (sni_tool_tip m)) \<and> plain (tt_icon (sni_tool_tip m))"
proof -
  have label: "plain (label s)" "plain (icon_name s)" for s by (cases s; simp add: plain_Cons)+
  then have "plain (headline m)" by (auto simp: headline_def Let_def plain_Cons split: tray_state.split)
  moreover have "plain (mounted_line s)" for s by (simp add: mounted_line_def plain_Cons)
  moreover have "plain l" if "pending_line s = Some l" for s l
    using that by (auto simp: pending_line_def pending_phrase_def files_and_bytes_def Let_def plain_Cons split: if_splits)
  moreover have "plain (eta_phrase n)" for n by (simp add: eta_phrase_def Let_def plain_Cons)
  then have "plain l" if "rate_line s = Some l" for s l
    using that by (auto simp: rate_line_def plain_Cons split: option.splits)
  ultimately have "plain (tt_text (sni_tool_tip m))" "plain (headline m)"
    by (auto simp: sni_tool_tip_def Let_def plain_Cons intro!: plain_join split: link.split option.split)
  then show ?thesis using label by (simp add: sni_tool_tip_def TRAY_TITLE_def dash_def plain_Cons)
qed

end
