(* ===== verification/Watch.thy ===== *)
theory Watch
  imports Registry Poller Supervisor
begin

text \<open>
  The watcher (crates/service/src/watch.rs) keeps the registry current: it sweeps the mount set,
  polls what is serving and hands back what a client has not been told. Times are instants in
  milliseconds. What the supervisor and rclone answer during a tick, and the clock, are the
  tick's answers. An action landing during a tick is the same as one landing right after it: a
  tick looks at the nudges once, when it begins.
\<close>

section \<open>State\<close>

definition SWEEP_INTERVAL :: int where "SWEEP_INTERVAL = 15000"

definition MIN_SWEEP_GAP :: int where "MIN_SWEEP_GAP = 1000"

record watch =
  wt_registry :: registry
  wt_cycled :: "string list"
  wt_pollers :: "poller btree"
  wt_due :: "int btree"
  wt_sweep_due :: int
  wt_last_sweep :: int

definition watch_new :: "int \<Rightarrow> watch" where
  "watch_new now =
     \<lparr>wt_registry = registry_default, wt_cycled = [], wt_pollers = [], wt_due = [],
      wt_sweep_due = now, wt_last_sweep = now - MIN_SWEEP_GAP\<rparr>"

record tick_answers =
  ti_now :: int
  ti_found :: "supervisor_error + discovered_mount list"
  ti_swept :: int
  ti_list :: "string \<Rightarrow> rc_error + rc_list"
  ti_poll :: "string \<Rightarrow> answers"
  ti_polled :: "string \<Rightarrow> int"
  ti_end :: int

section \<open>A tick\<close>

definition acted_on :: "string \<Rightarrow> watch \<Rightarrow> watch" where
  "acted_on name w = w\<lparr>wt_cycled := List.insert name (wt_cycled w)\<rparr>"

definition forget_cycled :: "watch \<Rightarrow> watch" where
  "forget_cycled w =
     w\<lparr>wt_cycled := [],
       wt_pollers := foldl (\<lambda>m n. bt_remove n m) (wt_pollers w) (wt_cycled w),
       wt_due := foldl (\<lambda>m n. bt_remove n m) (wt_due w) (wt_cycled w)\<rparr>"

definition found_view :: "config \<Rightarrow> discovered_mount \<Rightarrow> mount_view" where
  "found_view c m = (mount_view_of m)\<lparr>mv_remote := map_option fs_spec (config_mount c (dm_name m))\<rparr>"

definition sweep_mounts :: "config \<Rightarrow> tick_answers \<Rightarrow> watch \<Rightarrow> watch \<times> change list" where
  "sweep_mounts c T w =
     (case ti_found T of
        Inl _ \<Rightarrow> (w, [])
      | Inr found \<Rightarrow>
          (case observe_mounts (map (found_view c) found) (wt_registry w) of
             (r, cs) \<Rightarrow> (w\<lparr>wt_registry := r\<rparr>, cs)))"

definition poll_one :: "config \<Rightarrow> tick_answers \<Rightarrow> string \<Rightarrow> watch \<Rightarrow> watch \<times> change list" where
  "poll_one c T name w =
     (if is_some_and (bt_get name (wt_due w)) (\<lambda>due. ti_now T < due) then (w, [])
      else
        (let p = (case bt_get name (wt_pollers w) of Some p \<Rightarrow> p | None \<Rightarrow> connect name (ti_list T name)) in
         (case poll (ti_poll T name) p of (state, p) \<Rightarrow>
            (let wait = interval state (gc_poll (cf_global c));
                 (r, tier_change) = (if rc_answered p then note_tier (po_tier p) (wt_registry w) else (wt_registry w, None));
                 (r, change) = observe_transfer (transfer_view_of state) r in
             (w\<lparr>wt_registry := r, wt_pollers := bt_insert name p (wt_pollers w),
                wt_due := bt_insert name (ti_polled T name + 1000 * uint wait) (wt_due w)\<rparr>,
              opt_list tier_change @ opt_list change)))))"

fun poll_each :: "config \<Rightarrow> tick_answers \<Rightarrow> string list \<Rightarrow> watch \<Rightarrow> watch \<times> change list" where
  "poll_each c T [] w = (w, [])"
| "poll_each c T (name # names) w =
     (case poll_one c T name w of (w, cs) \<Rightarrow>
        (case poll_each c T names w of (w, ds) \<Rightarrow> (w, cs @ ds)))"

text \<open>A mount that stopped serving keeps no poller: a remount is a different rclone.\<close>

definition keep_pollable :: "watch \<Rightarrow> watch" where
  "keep_pollable w =
     (let names = pollable (wt_registry w) in
      w\<lparr>wt_pollers := filter (\<lambda>(n, _). n \<in> set names) (wt_pollers w),
        wt_due := filter (\<lambda>(n, _). n \<in> set names) (wt_due w)\<rparr>)"

definition poll_due :: "config \<Rightarrow> tick_answers \<Rightarrow> watch \<Rightarrow> watch \<times> change list" where
  "poll_due c T w = poll_each c T (pollable (wt_registry w)) (keep_pollable w)"

definition sweep_if_due :: "config \<Rightarrow> tick_answers \<Rightarrow> watch \<Rightarrow> watch \<times> change list" where
  "sweep_if_due c T w =
     (if wt_sweep_due w \<le> ti_now T
      then (case sweep_mounts c T w of (w, cs) \<Rightarrow>
              (w\<lparr>wt_last_sweep := ti_swept T, wt_sweep_due := ti_swept T + SWEEP_INTERVAL\<rparr>, cs))
      else (w, []))"

definition next_wait :: "tick_answers \<Rightarrow> watch \<Rightarrow> nat" where
  "next_wait T w = nat (foldl min (wt_sweep_due w) (bt_values (wt_due w)) - ti_end T)"

definition tick :: "config \<Rightarrow> tick_answers \<Rightarrow> watch \<Rightarrow> watch \<times> change list \<times> nat" where
  "tick c T w =
     (case sweep_if_due c T (forget_cycled w) of (w, cs) \<Rightarrow>
        (case poll_due c T w of (w, ds) \<Rightarrow> (w, cs @ ds, next_wait T w)))"

section \<open>The loop\<close>

text \<open>
  The loop's steps: a tick, whose changes are published; a wake-up by an action, which brings
  the next sweep forward; and the action itself.
\<close>

datatype watch_step = Ticked tick_answers | Woken | Acted string

fun watch_act :: "config \<Rightarrow> watch_step \<Rightarrow> watch \<Rightarrow> watch \<times> change list" where
  "watch_act c (Ticked T) w = (case tick c T w of (w, cs, _) \<Rightarrow> (w, cs))"
| "watch_act c Woken w = (w\<lparr>wt_sweep_due := wt_last_sweep w + MIN_SWEEP_GAP\<rparr>, [])"
| "watch_act c (Acted name) w = (acted_on name w, [])"

fun watch_run :: "config \<Rightarrow> watch_step list \<Rightarrow> watch \<Rightarrow> watch \<times> change list" where
  "watch_run c [] w = (w, [])"
| "watch_run c (s # ss) w =
     (case watch_act c s w of (w, cs) \<Rightarrow> (case watch_run c ss w of (w, ds) \<Rightarrow> (w, cs @ ds)))"

section \<open>What is published\<close>

lemma run_append: "feed.run (xs @ ys) r = (case feed.run xs r of (r, cs) \<Rightarrow> case feed.run ys r of (r, ds) \<Rightarrow> (r, cs @ ds))"
  by (induction xs arbitrary: r) (auto split: prod.splits)

text \<open>\<open>publishes w w' cs\<close>: the changes are those of observations that lead from one registry to the other.\<close>

definition publishes :: "watch \<Rightarrow> watch \<Rightarrow> change list \<Rightarrow> bool" where
  "publishes w w' cs = (\<exists>obs. list_all rows_agree obs \<and> feed.run obs (wt_registry w) = (wt_registry w', cs))"

lemma publishes_refl: "wt_registry w = wt_registry w' \<Longrightarrow> publishes w w' []"
  unfolding publishes_def by (rule exI [of _ "[]"]) simp

lemma publishes_trans: "publishes w w1 cs \<Longrightarrow> publishes w1 w2 ds \<Longrightarrow> publishes w w2 (cs @ ds)"
  unfolding publishes_def by (force simp: run_append intro: exI [of _ "_ @ _"])

lemma poll_one_publishes:
  assumes "poll_one c T name w = (w', cs)"
  shows "publishes w w' cs"
proof (cases "is_some_and (bt_get name (wt_due w)) (\<lambda>due. ti_now T < due)")
  case True
  then show ?thesis using assms by (auto simp: poll_one_def publishes_refl)
next
  case False
  let ?p = "case bt_get name (wt_pollers w) of Some p \<Rightarrow> p | None \<Rightarrow> connect name (ti_list T name)"
  obtain state p where p: "poll (ti_poll T name) ?p = (state, p)" by force
  let ?tier = "if rc_answered p then [TierSeen (po_tier p)] else []"
  have "feed.run (?tier @ [Reading (transfer_view_of state)]) (wt_registry w) = (wt_registry w', cs)"
    using assms False p by (auto simp: poll_one_def Let_def observe_def opt_list_def split: prod.splits if_splits)
  moreover have "list_all rows_agree (?tier @ [Reading (transfer_view_of state)])" by (simp add: rows_agree_def)
  ultimately show ?thesis unfolding publishes_def by blast
qed

lemma poll_each_publishes: "poll_each c T names w = (w', cs) \<Longrightarrow> publishes w w' cs"
  by (induction names arbitrary: w cs)
    (auto simp: publishes_refl split: prod.splits intro: publishes_trans dest: poll_one_publishes)


definition step_agrees :: "config \<Rightarrow> watch_step \<Rightarrow> bool" where
  "step_agrees c s =
     (case s of
        Ticked T \<Rightarrow> (case ti_found T of Inr found \<Rightarrow> rows_agree (Sweep (map (found_view c) found)) | Inl _ \<Rightarrow> True)
      | _ \<Rightarrow> True)"

lemma sweep_publishes:
  assumes "step_agrees c (Ticked T)" "sweep_if_due c T w = (w', cs)"
  shows "publishes w w' cs"
proof (cases "wt_sweep_due w \<le> ti_now T \<and> (\<exists>found. ti_found T = Inr found)")
  case True
  then obtain found where found: "ti_found T = Inr found" by blast
  then have "feed.run [Sweep (map (found_view c) found)] (wt_registry w) = (wt_registry w', cs)"
    using assms(2) True by (auto simp: sweep_if_due_def sweep_mounts_def observe_def split: prod.splits)
  moreover have "list_all rows_agree [Sweep (map (found_view c) found)]"
    using assms(1) found by (simp add: step_agrees_def)
  ultimately show ?thesis unfolding publishes_def by blast
next
  case False
  then show ?thesis using assms(2)
    by (auto simp: sweep_if_due_def sweep_mounts_def publishes_refl split: sum.splits if_splits)
qed

lemma tick_parts:
  assumes "tick c T w = (w', cs, n)"
  obtains w1 c1 c2 where "sweep_if_due c T (forget_cycled w) = (w1, c1)" "poll_due c T w1 = (w', c2)"
    "cs = c1 @ c2" "n = next_wait T w'"
  using assms by (auto simp: tick_def split: prod.splits)

lemma tick_publishes:
  assumes "step_agrees c (Ticked T)" "tick c T w = (w', cs, n)"
  shows "publishes w w' cs"
proof -
  obtain w1 c1 c2 where parts: "sweep_if_due c T (forget_cycled w) = (w1, c1)" "poll_due c T w1 = (w', c2)"
      "cs = c1 @ c2"
    using tick_parts [OF assms(2)] by metis
  have "publishes w (forget_cycled w) []" by (rule publishes_refl) (simp add: forget_cycled_def)
  moreover have "publishes (forget_cycled w) w1 c1" using assms(1) parts(1) by (rule sweep_publishes)
  moreover have "publishes w1 (keep_pollable w1) []" by (rule publishes_refl) (simp add: keep_pollable_def Let_def)
  moreover have "publishes (keep_pollable w1) w' c2"
    using parts(2) unfolding poll_due_def by (rule poll_each_publishes)
  ultimately show ?thesis using parts(3) publishes_trans by (metis append_Nil)
qed

lemma act_publishes: "step_agrees c s \<Longrightarrow> watch_act c s w = (w', cs) \<Longrightarrow> publishes w w' cs"
  by (cases s) (auto simp: publishes_refl acted_on_def split: prod.splits dest: tick_publishes)

lemma run_publishes: "list_all (step_agrees c) ss \<Longrightarrow> watch_run c ss w = (w', cs) \<Longrightarrow> publishes w w' cs"
  by (induction ss arbitrary: w cs)
    (auto simp: publishes_refl split: prod.splits intro: publishes_trans dest: act_publishes)

text \<open>
  Nothing the watcher learns is kept to itself: whatever a run of ticks, wake-ups and actions
  does, a client that was in step with the registry before it and applies the published changes
  in order is in step after it.
\<close>

theorem every_change_is_published:
  assumes "in_step (wt_registry w) m" "list_all (step_agrees c) ss" "watch_run c ss w = (w', cs)"
  shows "in_step (wt_registry w') (foldl follow m cs)"
proof -
  obtain obs where "list_all rows_agree obs" "feed.run obs (wt_registry w) = (wt_registry w', cs)"
    using run_publishes [OF assms(2,3)] unfolding publishes_def by blast
  with assms(1) show ?thesis by (intro feed.run_rel)
qed

section \<open>Whose pollers they are\<close>

lemma bt_get_fold_remove: "bt_get k (foldl (\<lambda>m n. bt_remove n m) m ns) = (if k \<in> set ns then None else bt_get k m)"
  by (induction ns arbitrary: m) (auto simp: bt_simps)

lemma bt_get_retain: "bt_get k (filter (\<lambda>(n, _). n \<in> A) m) = (if k \<in> A then bt_get k m else None)"
  by (induction m) (auto simp: bt_get_def)

lemma registry_mounts_kept:
  "observe_transfer v r = (r', ch) \<Longrightarrow> rg_mounts r' = rg_mounts r" "note_tier t r = (r', ch) \<Longrightarrow> rg_mounts r' = rg_mounts r"
  by (auto simp: observe_transfer_def note_tier_def Let_def split: if_splits)

lemma poll_one_effect:
  assumes "poll_one c T name w = (w', cs)"
  shows "rg_mounts (wt_registry w') = rg_mounts (wt_registry w)"
    "wt_sweep_due w' = wt_sweep_due w" "wt_last_sweep w' = wt_last_sweep w" "wt_cycled w' = wt_cycled w"
    "k \<noteq> name \<Longrightarrow> bt_get k (wt_pollers w') = bt_get k (wt_pollers w)"
    "bt_get name (wt_due w) = None \<Longrightarrow> bt_get name (wt_pollers w) = None \<Longrightarrow>
       bt_get name (wt_pollers w') = Some (snd (poll (ti_poll T name) (connect name (ti_list T name))))"
  using assms
  by (auto simp: poll_one_def Let_def bt_simps dest!: registry_mounts_kept split: if_splits prod.splits)

lemma poll_each_effect:
  assumes "poll_each c T names w = (w', cs)"
  shows "rg_mounts (wt_registry w') = rg_mounts (wt_registry w) \<and> wt_sweep_due w' = wt_sweep_due w
    \<and> wt_last_sweep w' = wt_last_sweep w \<and> wt_cycled w' = wt_cycled w
    \<and> (k \<notin> set names \<longrightarrow> bt_get k (wt_pollers w') = bt_get k (wt_pollers w))"
  using assms
proof (induction names arbitrary: w cs)
  case (Cons name names)
  then obtain w1 c1 c2 where 1: "poll_one c T name w = (w1, c1)" "poll_each c T names w1 = (w', c2)"
    by (auto split: prod.splits)
  from Cons.IH [OF 1(2)] poll_one_effect(1-4) [OF 1(1)] poll_one_effect(5) [OF 1(1)] show ?case by auto
qed simp


definition keyed_rows :: "mount_view btree \<Rightarrow> bool" where
  "keyed_rows m = (bt_wf m \<and> (\<forall>k v. bt_get k m = Some v \<longrightarrow> mv_name v = k))"

definition keyed :: "registry \<Rightarrow> bool" where
  "keyed r = keyed_rows (rg_mounts r)"

lemma keyed_rows_insert: "keyed_rows m \<Longrightarrow> keyed_rows (bt_insert (mv_name v) v m)"
  by (simp add: keyed_rows_def bt_simps)

lemma keyed_rows_fold: "keyed_rows m \<Longrightarrow> keyed_rows (foldl (\<lambda>acc v. bt_insert (mv_name v) v acc) m found)"
  by (induction found arbitrary: m) (simp_all add: keyed_rows_insert)

lemma observe_keyed:
  assumes "observe_mounts found r = (r', cs)"
  shows "keyed r'"
proof -
  have "rg_mounts r' = rows_of found" using observe_mounts_rows [OF assms] by blast
  moreover have "keyed_rows (rows_of found)"
    unfolding rows_of_def by (rule keyed_rows_fold) (simp add: keyed_rows_def)
  ultimately show ?thesis by (simp add: keyed_def)
qed

lemma sweep_keyed: "sweep_if_due c T w = (w', cs) \<Longrightarrow> keyed (wt_registry w) \<Longrightarrow> keyed (wt_registry w')"
  by (auto simp: sweep_if_due_def sweep_mounts_def split: sum.splits if_splits prod.splits intro: observe_keyed)

lemma sweep_keeps_pollers:
  "sweep_if_due c T w = (w', cs) \<Longrightarrow> wt_pollers w' = wt_pollers w \<and> wt_due w' = wt_due w \<and> wt_cycled w' = wt_cycled w"
  by (auto simp: sweep_if_due_def sweep_mounts_def split: sum.splits if_splits prod.splits)

lemma keyed_mounts: "rg_mounts r' = rg_mounts r \<Longrightarrow> keyed r' = keyed r"
  by (simp add: keyed_def)

lemma tick_keyed:
  assumes "tick c T w = (w', cs, n)" "keyed (wt_registry w)"
  shows "keyed (wt_registry w')"
proof -
  obtain w1 c1 c2 where parts: "sweep_if_due c T (forget_cycled w) = (w1, c1)" "poll_due c T w1 = (w', c2)"
    using tick_parts [OF assms(1)] by metis
  have "keyed (wt_registry w1)" using sweep_keyed [OF parts(1)] assms(2) by (simp add: forget_cycled_def)
  moreover have "rg_mounts (wt_registry w') = rg_mounts (wt_registry w1)"
    using poll_each_effect [OF parts(2) [unfolded poll_due_def]] by (simp add: keep_pollable_def Let_def)
  ultimately show ?thesis by (rule keyed_mounts [THEN iffD2, rotated])
qed

lemma act_keyed: "watch_act c s w = (w', cs) \<Longrightarrow> keyed (wt_registry w) \<Longrightarrow> keyed (wt_registry w')"
proof (cases s)
  case (Ticked T)
  obtain w1 c1 n where 1: "tick c T w = (w1, c1, n)" by (metis prod_cases3)
  assume "watch_act c s w = (w', cs)" "keyed (wt_registry w)"
  then show ?thesis using Ticked 1 tick_keyed [OF 1] by simp
qed (auto simp: acted_on_def)

lemma run_keyed: "watch_run c ss w = (w', cs) \<Longrightarrow> keyed (wt_registry w) \<Longrightarrow> keyed (wt_registry w')"
proof (induction ss arbitrary: w cs)
  case (Cons s ss)
  obtain w1 c1 where 1: "watch_act c s w = (w1, c1)" by force
  then obtain c2 where 2: "watch_run c ss w1 = (w', c2)" using Cons.prems(1) by (auto split: prod.splits)
  show ?case by (rule Cons.IH [OF 2 act_keyed [OF 1 Cons.prems(2)]])
qed simp

lemma keyed_new: "keyed (wt_registry (watch_new t))"
  by (simp add: keyed_def keyed_rows_def watch_new_def registry_default_def)

lemma pollable_distinct:
  assumes "keyed r"
  shows "distinct (pollable r)"
proof -
  let ?rows = "filter (\<lambda>kv. pollable_view (snd kv)) (rg_mounts r)"
  have "mv_name v = k" if "(k, v) \<in> set (rg_mounts r)" for k v
    using assms that by (auto simp: keyed_def keyed_rows_def bt_get_set)
  then have "map (\<lambda>kv. mv_name (snd kv)) ?rows = map fst ?rows" by (auto intro!: map_cong)
  moreover have "pollable r = map (\<lambda>kv. mv_name (snd kv)) ?rows"
    by (simp add: pollable_def bt_values_def filter_map comp_def)
  moreover have "distinct (map fst ?rows)"
    using bt_wf_distinct [of "rg_mounts r"] assms by (auto simp: keyed_def keyed_rows_def intro: distinct_map_filter)
  ultimately show ?thesis by (simp only:)
qed

lemma poll_each_fresh:
  assumes "poll_each c T names w = (w', cs)" "name \<in> set names" "distinct names"
    "bt_get name (wt_due w) = None" "bt_get name (wt_pollers w) = None"
  shows "bt_get name (wt_pollers w') = Some (snd (poll (ti_poll T name) (connect name (ti_list T name))))"
  using assms
proof (induction names arbitrary: w cs)
  case (Cons n names)
  then obtain w1 c1 c2 where 1: "poll_one c T n w = (w1, c1)" "poll_each c T names w1 = (w', c2)"
    by (auto split: prod.splits)
  show ?case
  proof (cases "n = name")
    case True
    then have "name \<notin> set names" using Cons.prems(3) by simp
    then have "bt_get name (wt_pollers w') = bt_get name (wt_pollers w1)"
      using poll_each_effect [OF 1(2), of name] by simp
    then show ?thesis using poll_one_effect(6) [OF 1(1)] True Cons.prems(4,5) by simp
  next
    case False
    have "bt_get name (wt_due w1) = bt_get name (wt_due w)"
      using 1(1) False by (auto simp: poll_one_def Let_def bt_simps split: if_splits prod.splits)
    moreover have "bt_get name (wt_pollers w1) = bt_get name (wt_pollers w)"
      using poll_one_effect(5) [OF 1(1)] False by simp
    ultimately show ?thesis using Cons.IH [OF 1(2)] Cons.prems False by simp
  qed
qed simp

text \<open>
  C22: A poller never outlives the rclone it asked: after any tick of a running service only
  mounts listed as mounted have one, and a mount something acted on has one connected in this
  very tick, whose rate and latched cache directories come from the new process alone.
\<close>

theorem no_poller_outlives_its_rclone:
  assumes "watch_run c ss (watch_new start) = (w, ds)" "tick c T w = (w', cs, n)"
    "bt_get name (wt_pollers w') = Some p"
  shows "name \<in> set (pollable (wt_registry w'))
    \<and> (name \<in> set (wt_cycled w) \<longrightarrow> p = snd (poll (ti_poll T name) (connect name (ti_list T name))))"
proof -
  obtain w1 c1 c2 where parts: "sweep_if_due c T (forget_cycled w) = (w1, c1)" "poll_due c T w1 = (w', c2)"
    using tick_parts [OF assms(2)] by metis
  let ?names = "pollable (wt_registry w1)" and ?w2 = "keep_pollable w1"
  note each = parts(2) [unfolded poll_due_def]
  have "keyed (wt_registry w)" using run_keyed [OF assms(1) keyed_new] .
  then have k: "keyed (wt_registry w1)" using sweep_keyed [OF parts(1)] by (simp add: forget_cycled_def)
  have same: "pollable (wt_registry w') = ?names"
    using poll_each_effect [OF each] by (simp add: pollable_def keep_pollable_def Let_def)
  have "bt_get name (wt_pollers ?w2) = None" "bt_get name (wt_due ?w2) = None" if "name \<notin> set ?names"
    using that by (simp_all add: keep_pollable_def Let_def bt_get_retain)
  then have listed: "name \<in> set ?names" using poll_each_effect [OF each, of name] assms(3) by auto
  have "bt_get name (wt_pollers ?w2) = None \<and> bt_get name (wt_due ?w2) = None" if "name \<in> set (wt_cycled w)"
    using that sweep_keeps_pollers [OF parts(1)]
    by (simp add: keep_pollable_def Let_def bt_get_retain forget_cycled_def bt_get_fold_remove)
  then show ?thesis using poll_each_fresh [OF each listed pollable_distinct [OF k]] assms(3) listed same by auto
qed

section \<open>The pace of the sweeps\<close>

definition paced :: "watch \<Rightarrow> bool" where
  "paced w = (wt_last_sweep w + MIN_SWEEP_GAP \<le> wt_sweep_due w \<and> wt_sweep_due w \<le> wt_last_sweep w + SWEEP_INTERVAL)"

lemma tick_paced:
  assumes "tick c T w = (w', cs, n)" "paced w"
  shows "paced w' \<and> (wt_sweep_due w \<le> ti_now T \<longrightarrow> wt_last_sweep w' = ti_swept T)"
proof -
  obtain w1 c1 c2 where parts: "sweep_if_due c T (forget_cycled w) = (w1, c1)" "poll_due c T w1 = (w', c2)"
    using tick_parts [OF assms(1)] by metis
  have "wt_sweep_due w' = wt_sweep_due w1 \<and> wt_last_sweep w' = wt_last_sweep w1"
    using poll_each_effect [OF parts(2) [unfolded poll_due_def]] by (simp add: keep_pollable_def Let_def)
  then show ?thesis using parts(1) assms(2)
    by (auto simp: sweep_if_due_def sweep_mounts_def paced_def forget_cycled_def SWEEP_INTERVAL_def MIN_SWEEP_GAP_def
        split: if_splits prod.splits sum.splits)
qed

lemma act_paced: "watch_act c s w = (w', cs) \<Longrightarrow> paced w \<Longrightarrow> paced w'"
proof (cases s)
  case (Ticked T)
  obtain w1 c1 n where 1: "tick c T w = (w1, c1, n)" by (metis prod_cases3)
  assume "watch_act c s w = (w', cs)" "paced w"
  then show ?thesis using Ticked 1 tick_paced [OF 1] by simp
qed (auto simp: acted_on_def paced_def SWEEP_INTERVAL_def MIN_SWEEP_GAP_def)

lemma run_paced: "watch_run c ss w = (w', cs) \<Longrightarrow> paced w \<Longrightarrow> paced w'"
proof (induction ss arbitrary: w cs)
  case (Cons s ss)
  obtain w1 c1 where 1: "watch_act c s w = (w1, c1)" by force
  then obtain c2 where 2: "watch_run c ss w1 = (w', c2)" using Cons.prems(1) by (auto split: prod.splits)
  show ?case by (rule Cons.IH [OF 2 act_paced [OF 1 Cons.prems(2)]])
qed simp

lemma early_tick:
  assumes "ti_now T < wt_sweep_due w"
  shows "tick c (T\<lparr>ti_found := x\<rparr>) w = tick c T w"
proof -
  have one: "poll_one c (T\<lparr>ti_found := x\<rparr>) n u = poll_one c T n u" for n u
    by (cases "bt_get n (wt_pollers u)") (simp_all add: poll_one_def)
  have each: "poll_each c (T\<lparr>ti_found := x\<rparr>) ns u = poll_each c T ns u" for ns u
    by (induction ns arbitrary: u) (simp_all add: one split: prod.splits)
  show ?thesis using assms by (simp add: tick_def sweep_if_due_def poll_due_def each forget_cycled_def next_wait_def)
qed

lemma foldl_min_lower: "x \<in> insert a (set xs) \<Longrightarrow> foldl min (a :: int) xs \<le> x"
proof (induction xs arbitrary: a x)
  case (Cons y xs)
  consider "x = a" | "x = y" | "x \<in> set xs" using Cons.prems by auto
  then have "\<exists>z \<in> insert (min a y) (set xs). z \<le> x" by cases auto
  then show ?case using Cons.IH by (auto intro: order_trans)
qed simp

lemma foldl_min_eq: "foldl min (a :: int) xs \<in> insert a (set xs)"
proof (induction xs arbitrary: a)
  case (Cons x xs)
  from Cons [of "min a x"] show ?case by (auto simp: min_def split: if_splits)
qed simp

text \<open>When a step may bring the next sweep forward: only when something acted.\<close>

lemma tick_due:
  assumes "tick c T w = (w', cs, n)"
  shows "if wt_sweep_due w \<le> ti_now T
     then wt_last_sweep w' = ti_swept T \<and> wt_sweep_due w' = ti_swept T + SWEEP_INTERVAL
     else wt_last_sweep w' = wt_last_sweep w \<and> wt_sweep_due w' = wt_sweep_due w"
proof -
  obtain w1 c1 c2 where parts: "sweep_if_due c T (forget_cycled w) = (w1, c1)" "poll_due c T w1 = (w', c2)"
    using tick_parts [OF assms] by metis
  have "wt_sweep_due w' = wt_sweep_due w1 \<and> wt_last_sweep w' = wt_last_sweep w1"
    using poll_each_effect [OF parts(2) [unfolded poll_due_def]] by (simp add: keep_pollable_def Let_def)
  then show ?thesis using parts(1)
    by (auto simp: sweep_if_due_def sweep_mounts_def forget_cycled_def split: if_splits prod.splits sum.splits)
qed



section \<open>A sample tick\<close>

definition sample_tick :: "int \<Rightarrow> tick_answers" where
  "sample_tick now =
     \<lparr>ti_now = now, ti_found = Inr [discovered ''m'' Mounted], ti_swept = now + 1,
      ti_list = (\<lambda>_. an_list (live_answers None)), ti_poll = (\<lambda>_. live_answers None),
      ti_polled = (\<lambda>_. now + 2), ti_end = now + 3\<rparr>"

lemma sample_pollable:
  "pollable r = [''m'']" if "rg_mounts r = [(''m'', found_view c (discovered ''m'' Mounted))]"
  using that by (simp add: pollable_def bt_values_def pollable_view_def found_view_def mount_view_of_def discovered_def)

lemma sample_sweep:
  "observe_mounts [found_view c (discovered ''m'' Mounted)] registry_default
     = (\<lparr>rg_mounts = [(''m'', found_view c (discovered ''m'' Mounted))], rg_transfers = [], rg_tier = None\<rparr>,
        [MountChange (found_view c (discovered ''m'' Mounted))])"
  by (simp add: observe_mounts_def registry_default_def sweep_row_def pollable_view_def found_view_def
      mount_view_of_def discovered_def bt_keys_def Let_def)

theorem every_change_is_published_witness:
  "in_step (wt_registry (fst (watch_run config_default [Acted ''m'', Woken, Ticked (sample_tick 5)] (watch_new 0))))
     (foldl follow \<lparr>fo_mounts = [], fo_transfers = []\<rparr>
        (snd (watch_run config_default [Acted ''m'', Woken, Ticked (sample_tick 5)] (watch_new 0))))"
proof -
  have start: "in_step (wt_registry (watch_new 0)) \<lparr>fo_mounts = [], fo_transfers = []\<rparr>"
    by (simp add: in_step_def watch_new_def registry_default_def readings_agree_def)
  have agree: "list_all (step_agrees config_default) [Acted ''m'', Woken, Ticked (sample_tick 5)]"
    by (simp add: step_agrees_def sample_tick_def rows_agree_def)
  show ?thesis by (rule every_change_is_published [OF start agree prod.collapse [symmetric]])
qed

lemma sample_poller:
  "bt_get ''m'' (wt_pollers (fst (tick c (sample_tick 5) (acted_on ''m'' (watch_new 0)))))
     = Some (snd (poll (live_answers None) (connect ''m'' (an_list (live_answers None)))))"
  by (simp add: tick_def sweep_if_due_def sweep_mounts_def forget_cycled_def acted_on_def watch_new_def
      sample_sweep sample_tick_def poll_due_def sample_pollable keep_pollable_def poll_one_def split_def Let_def
      bt_remove_def bt_get_def is_some_and_def)

theorem no_poller_outlives_its_rclone_witness:
  "''m'' \<in> set (pollable (wt_registry (fst (tick config_default (sample_tick 5) (acted_on ''m'' (watch_new 0))))))"
proof -
  let ?T = "tick config_default (sample_tick 5) (acted_on ''m'' (watch_new 0))"
  have "watch_run config_default [Acted ''m''] (watch_new 0) = (acted_on ''m'' (watch_new 0), [])" by simp
  moreover have "?T = (fst ?T, fst (snd ?T), snd (snd ?T))" by simp
  ultimately show ?thesis using no_poller_outlives_its_rclone [OF _ _ sample_poller] by blast
qed


end
