(* ===== verification/Service.thy ===== *)
theory Service
  imports Watch Mounting
begin

text \<open>
  The service's side of the bus (crates/service/src/dbus.rs): the gate every named call passes,
  the two calls that act, what is answered about outstanding work, and the signal each change
  becomes. An acting call is a run of the supervisor on the host, beside the watcher's state.
\<close>

section \<open>The gate\<close>

definition must_know :: "config \<Rightarrow> registry \<Rightarrow> string \<Rightarrow> ipc_error + unit" where
  "must_know c r name =
     (if config_mount c name \<noteq> None then Inr ()
      else (case reg_mount name r of
              None \<Rightarrow> Inl (IpcUnknownMount (''no mount named '' @ debug_str name))
            | Some m \<Rightarrow>
                if \<not> mv_managed m then Inl (IpcNotManaged (debug_str name @ '' was started outside this service''))
                else Inr ()))"

definition touched_something :: "supervisor_error + unit \<Rightarrow> bool" where
  "touched_something result =
     (case result of Inl e \<Rightarrow> (case e of UnknownMount _ \<Rightarrow> False | NotManaged _ \<Rightarrow> False | _ \<Rightarrow> True)
      | Inr _ \<Rightarrow> True)"

section \<open>Calls that act\<close>

definition act_then_nudge ::
  "supervisor \<Rightarrow> string \<Rightarrow> unit prog \<Rightarrow> watch \<Rightarrow> host \<Rightarrow> sys \<Rightarrow> (ipc_error + unit) \<times> watch \<times> sys"
where
  "act_then_nudge S name run w H s =
     (case must_know (sp_config S) (wt_registry w) name of
        Inl e \<Rightarrow> (Inl e, w, s)
      | Inr _ \<Rightarrow>
          (case run H s of (result, s') \<Rightarrow>
             (map_sum ipc_error_of id result,
              if touched_something result then acted_on name w else w, s')))"

definition mm_mount :: "supervisor \<Rightarrow> string \<Rightarrow> watch \<Rightarrow> host \<Rightarrow> sys \<Rightarrow> (ipc_error + unit) \<times> watch \<times> sys" where
  "mm_mount S name = act_then_nudge S name (sup_mount S name)"

definition mm_unmount ::
  "supervisor \<Rightarrow> string \<Rightarrow> bool \<Rightarrow> watch \<Rightarrow> host \<Rightarrow> sys \<Rightarrow> (ipc_error + unit) \<times> watch \<times> sys"
where
  "mm_unmount S name force = act_then_nudge S name (sup_unmount S name force)"

section \<open>Calls that answer\<close>

definition list_mounts :: "registry \<Rightarrow> mount_view list" where
  "list_mounts r = reg_mounts r"

definition get_transfer_state :: "config \<Rightarrow> registry \<Rightarrow> string \<Rightarrow> ipc_error + transfer_view" where
  "get_transfer_state c r name =
     (case must_know c r name of
        Inl e \<Rightarrow> Inl e
      | Inr _ \<Rightarrow>
          (case reg_transfer name r of
             Some view \<Rightarrow> Inr view
           | None \<Rightarrow>
               Inr (case reg_mount name r of
                      Some m \<Rightarrow> nothing_to_say m
                    | None \<Rightarrow> not_swept_yet name)))"

definition capability_tier :: "registry \<Rightarrow> string" where
  "capability_tier r = (case reg_tier r of None \<Rightarrow> ''unknown'' | Some t \<Rightarrow> tier_name t)"

section \<open>Signals\<close>

datatype signal =
    MountStateChanged mount_view
  | MountRemoved string
  | TransferStateChanged transfer_view
  | CapabilityTierChanged string

text \<open>The property's new value is read from the registry when the signal is sent.\<close>

definition announce :: "registry \<Rightarrow> change \<Rightarrow> signal" where
  "announce r ch =
     (case ch of
        MountChange view \<Rightarrow> MountStateChanged view
      | Removed name \<Rightarrow> MountRemoved name
      | TransferChange view \<Rightarrow> TransferStateChanged view
      | CapabilityTier \<Rightarrow> CapabilityTierChanged (capability_tier r))"

section \<open>Taking the name\<close>

datatype name_answer = PrimaryOwner | OtherReply string | NameTaken | NameFault string

definition take_name :: "name_answer \<Rightarrow> string + unit" where
  "take_name a =
     (case a of
        PrimaryOwner \<Rightarrow> Inr ()
      | NameTaken \<Rightarrow> Inl (''another rclone-vfsmount-trayd already owns '' @ BUS_NAME @ '' on this session bus'')
      | OtherReply reply \<Rightarrow> Inl (''could not take '' @ BUS_NAME @ '': the bus said '' @ reply)
      | NameFault e \<Rightarrow> Inl e)"

section \<open>Actions are followed up\<close>

definition quiet_denial :: "supervisor_error + unit \<Rightarrow> log \<Rightarrow> bool" where
  "quiet_denial r new = (touched_something r \<or> list_all question new)"

lemma touched_denial: "touched_something r \<longleftrightarrow> (\<forall>e. r = Inl e \<longrightarrow> \<not> denial e)"
  by (auto simp: touched_something_def denial_def split: sum.splits supervisor_error.splits)

lemma mount_quiet:
  assumes "sup_mount S name H s = (r, s')" "sy_log s' = new @ sy_log s"
  shows "quiet_denial r new"
  using assms by (cases rule: mount_outcome) (auto simp: quiet_denial_def touched_denial)

lemma unmount_quiet:
  assumes "sup_unmount S name force H s = (r, s')" "sy_log s' = new @ sy_log s"
  shows "quiet_denial r new"
  using assms(1)
proof (cases rule: sup_unmount_cases)
  case (early e q)
  then show ?thesis using assms(2) by (simp add: quiet_denial_def)
next
  case (down t s1 s2 q)
  note outcome = after_questions [OF down(2-4) assms(2)]
  have "\<not> release_error e" if "denial e" for e
    using that by (auto simp: release_error_def is_supervision_def denial_def)
  then show ?thesis using outcome by (auto simp: quiet_denial_def touched_denial down_error_def)
qed

lemma act_follow_up:
  assumes quiet: "\<And>r s'. run H s = (r, s') \<Longrightarrow> sy_log s' = new @ sy_log s \<Longrightarrow> quiet_denial r new"
    and act: "act_then_nudge S name run w H s = (r, w', s')" and log: "sy_log s' = new @ sy_log s"
  shows "(\<not> list_all question new \<longrightarrow> name \<in> set (wt_cycled w'))
    \<and> (\<forall>e. must_know (sp_config S) (wt_registry w) name = Inl e \<longrightarrow> r = Inl e \<and> w' = w \<and> s' = s)"
proof (cases "must_know (sp_config S) (wt_registry w) name")
  case (Inl e)
  then show ?thesis using act log by (auto simp: act_then_nudge_def)
next
  case (Inr u)
  obtain r1 s1 where run: "run H s = (r1, s1)" by force
  with act Inr have "w' = (if touched_something r1 then acted_on name w else w)" "s1 = s'"
    by (auto simp: act_then_nudge_def)
  then show ?thesis using quiet run log Inr by (auto simp: quiet_denial_def acted_on_def)
qed

text \<open>
  C32: An action is always followed up and a made-up name buys nothing: whenever a call to mount
  or unmount changed anything on the machine, whatever it answered, the next tick sweeps the
  mount anew; and a name that is neither configured nor listed as ours is refused before the
  machine is asked a single question.
\<close>

theorem every_action_is_followed_up:
  assumes "mm_mount S name w H s = (r, w', s') \<or> mm_unmount S name force w H s = (r, w', s')"
    "sy_log s' = new @ sy_log s"
  shows "(\<not> list_all question new \<longrightarrow> name \<in> set (wt_cycled w'))
    \<and> (config_mount (sp_config S) name = None
         \<and> \<not> is_some_and (reg_mount name (wt_registry w)) mv_managed \<longrightarrow> w' = w \<and> s' = s)"
proof -
  have "\<exists>e. must_know (sp_config S) (wt_registry w) name = Inl e"
    if "config_mount (sp_config S) name = None" "\<not> is_some_and (reg_mount name (wt_registry w)) mv_managed"
    using that by (auto simp: must_know_def is_some_and_def split: option.splits)
  moreover have "(\<not> list_all question new \<longrightarrow> name \<in> set (wt_cycled w'))
      \<and> (\<forall>e. must_know (sp_config S) (wt_registry w) name = Inl e \<longrightarrow> r = Inl e \<and> w' = w \<and> s' = s)"
    using assms(1) unfolding mm_mount_def mm_unmount_def
  proof
    assume "act_then_nudge S name (sup_mount S name) w H s = (r, w', s')"
    then show ?thesis by (rule act_follow_up [rotated, OF _ assms(2)]) (rule mount_quiet)
  next
    assume "act_then_nudge S name (sup_unmount S name force) w H s = (r, w', s')"
    then show ?thesis by (rule act_follow_up [rotated, OF _ assms(2)]) (rule unmount_quiet)
  qed
  ultimately show ?thesis by blast
qed

text \<open>
  A client that asks and a client that listens cannot be told different things: what the
  service answers about a mount's outstanding work is the very reading an up-to-date listener
  holds, or neither of the two knows what is outstanding.
\<close>

theorem asking_agrees_with_listening:
  assumes "in_step r m" "bt_get name (fo_transfers m) = Some heard" "get_transfer_state c r name = Inr told"
  shows "told = heard \<or> \<not> tv_outstanding_known told \<and> \<not> tv_outstanding_known heard"
proof (cases "reg_transfer name r")
  case (Some v)
  then show ?thesis using assms
    by (auto simp: get_transfer_state_def in_step_def readings_agree_def reg_transfer_def split: sum.splits)
next
  case None
  then have "\<not> tv_outstanding_known heard"
    using assms(1,2) by (auto simp: in_step_def readings_agree_def reg_transfer_def)
  moreover have "\<not> tv_outstanding_known told"
    using None assms(3)
    by (auto simp: get_transfer_state_def not_swept_yet_def transfer_view_of_def unmonitored_def ts_empty_def
        split: sum.splits option.splits)
  ultimately show ?thesis by blast
qed

section \<open>Sample calls\<close>

lemma sample_known: "must_know sample_config r ''backup'' = Inr ()"
  by (simp add: must_know_def config_mount_def sample_config_def sample_mount_def)


theorem every_action_is_followed_up_witness:
  "''backup'' \<in> set (wt_cycled (fst (snd
     (mm_unmount sample_supervisor ''backup'' False (watch_new 0) (machine True False) power_on))))"
proof -
  let ?run = "sup_unmount sample_supervisor ''backup'' False (machine True False) power_on"
  let ?act = "mm_unmount sample_supervisor ''backup'' False (watch_new 0) (machine True False) power_on"
  have known: "must_know (sp_config sample_supervisor) r ''backup'' = Inr ()" for r
    using sample_known by (simp add: sample_supervisor_fields)
  have log: "snd (snd ?act) = snd ?run"
    by (simp add: mm_unmount_def act_then_nudge_def known split: prod.split)
  have "\<not> list_all question (sy_log (snd ?run))"
  proof
    assume "list_all question (sy_log (snd ?run))"
    then have "question (EvStopUnit ''rvt-mount-backup.service'' None)"
      using sample_unmount(2) unfolding list_all_iff by (rule bspec)
    then show False by simp
  qed
  moreover have "?act = (fst ?act, fst (snd ?act), snd ?run)" using log by (metis prod.collapse)
  ultimately show ?thesis
    using every_action_is_followed_up [of sample_supervisor "''backup''" "watch_new 0" "machine True False" power_on
        "fst ?act" "fst (snd ?act)" "snd ?run" False "sy_log (snd ?run)"]
    by (auto simp: power_on_def)
qed

definition heard_reading :: transfer_view where
  "heard_reading = transfer_view_of (from_queue ''backup'' sample_queue)"

theorem asking_agrees_with_listening_witness:
  "\<exists>told. get_transfer_state sample_config (registry_default\<lparr>rg_transfers := [(''backup'', heard_reading)]\<rparr>) ''backup''
       = Inr told
     \<and> (told = heard_reading \<or> \<not> tv_outstanding_known told \<and> \<not> tv_outstanding_known heard_reading)"
proof -
  let ?r = "registry_default\<lparr>rg_transfers := [(''backup'', heard_reading)]\<rparr>"
  have told: "get_transfer_state sample_config ?r ''backup'' = Inr heard_reading"
    using sample_known by (simp add: get_transfer_state_def reg_transfer_def bt_get_def)
  have "in_step ?r \<lparr>fo_mounts = [], fo_transfers = [(''backup'', heard_reading)]\<rparr>"
    by (simp add: in_step_def registry_default_def readings_agree_def)
  from asking_agrees_with_listening [OF this _ told, of heard_reading] told show ?thesis by (simp add: bt_get_def)
qed

end
