(* ===== verification/Vocabulary.thy ===== *)
theory Vocabulary
  imports Service
begin

text \<open>
  What types the strings of the interface have: every row, reading and change a running service
  gives out is one that its own vocabulary reads back (crates/service/src/watch.rs, registry.rs and
  dbus.rs against crates/core/src/ipc.rs).
\<close>

definition row_typed :: "mount_view \<Rightarrow> bool" where
  "row_typed v =
     (case state_from_name (mv_state v) (mv_reason v) of
        None \<Rightarrow> False
      | Some st \<Rightarrow> mv_live v = is_live st \<and> mv_managed v = is_managed st \<and> mv_reason v = state_reason st)"

definition reading_typed :: "transfer_view \<Rightarrow> bool" where
  "reading_typed t = (transfer_view_of (transfer_of_view t) = t)"

fun change_typed :: "change \<Rightarrow> bool" where
  "change_typed (MountChange v) = row_typed v"
| "change_typed (TransferChange t) = reading_typed t"
| "change_typed (Removed _) = True"
| "change_typed CapabilityTier = True"

definition registry_typed :: "registry \<Rightarrow> bool" where
  "registry_typed r =
     (list_all row_typed (bt_values (rg_mounts r)) \<and> list_all reading_typed (bt_values (rg_transfers r)))"

section \<open>Where rows and readings come from\<close>

lemma row_of_found: "row_typed (found_view c d)"
  using states.dec_enc [of "dm_state d"] by (simp add: row_typed_def found_view_def mount_view_of_def)

lemma reading_of_state: "reading_typed (transfer_view_of s)"
  by (simp add: reading_typed_def)

lemma typed_insert: "P v \<Longrightarrow> list_all P (bt_values m) \<Longrightarrow> list_all P (bt_values (bt_insert k v m))"
  unfolding list_all_iff by (rule ballI) (auto dest!: bt_values_insert_subset)

lemma typed_remove: "list_all P (bt_values m) \<Longrightarrow> list_all P (bt_values (bt_remove k m))"
  by (auto simp: list_all_iff bt_values_def bt_remove_def)

lemma sweep_rows_typed:
  "foldl (sweep_row M) (ts, seen, cs) found = (ts', seen', cs') \<Longrightarrow> list_all row_typed found
     \<Longrightarrow> list_all reading_typed (bt_values ts) \<and> list_all row_typed (bt_values seen) \<and> list_all change_typed cs
     \<Longrightarrow> list_all reading_typed (bt_values ts') \<and> list_all row_typed (bt_values seen') \<and> list_all change_typed cs'"
proof (induction found arbitrary: ts seen cs)
  case (Cons v found)
  obtain t s d where 1: "sweep_row M (ts, seen, cs) v = (t, s, d)" by (metis prod_cases3)
  then have "list_all reading_typed (bt_values t) \<and> list_all row_typed (bt_values s) \<and> list_all change_typed d"
    using Cons.prems(2,3)
    by (auto simp: sweep_row_def Let_def nothing_to_say_def reading_of_state typed_insert typed_remove)
  with Cons.IH [of t s d] Cons.prems 1 show ?case by simp
qed simp

lemma sweep_gone_typed:
  "foldl (sweep_gone seen) (ts, cs) ks = (ts', cs') \<Longrightarrow> list_all reading_typed (bt_values ts) \<and> list_all change_typed cs
     \<Longrightarrow> list_all reading_typed (bt_values ts') \<and> list_all change_typed cs'"
proof (induction ks arbitrary: ts cs)
  case (Cons k ks)
  obtain t d where 1: "sweep_gone seen (ts, cs) k = (t, d)" by fastforce
  then have "list_all reading_typed (bt_values t) \<and> list_all change_typed d"
    using Cons.prems(2) by (auto simp: sweep_gone_def typed_remove split: if_splits)
  with Cons.IH [of t d] Cons.prems(1) 1 show ?case by simp
qed simp

lemma observe_mounts_typed:
  assumes "observe_mounts found r = (r', cs)" "registry_typed r" "list_all row_typed found"
  shows "registry_typed r' \<and> list_all change_typed cs"
proof -
  obtain t seen d where 1: "foldl (sweep_row (rg_mounts r)) (rg_transfers r, [], []) found = (t, seen, d)"
    by (metis prod_cases3)
  obtain t' where 2: "foldl (sweep_gone seen) (t, d) (bt_keys (rg_mounts r)) = (t', cs)"
    and r': "r' = r\<lparr>rg_mounts := seen, rg_transfers := t'\<rparr>"
    using assms(1) 1 by (auto simp: observe_mounts_def split: prod.splits)
  from sweep_rows_typed [OF 1 assms(3)] assms(2)
  have "list_all reading_typed (bt_values t) \<and> list_all row_typed (bt_values seen) \<and> list_all change_typed d"
    by (simp add: registry_typed_def bt_values_def)
  with sweep_gone_typed [OF 2] show ?thesis by (simp add: r' registry_typed_def)
qed

lemma observe_transfer_typed:
  "observe_transfer (transfer_view_of s) r = (r', ch) \<Longrightarrow> registry_typed r
     \<Longrightarrow> registry_typed r' \<and> list_all change_typed (opt_list ch)"
  by (auto simp: observe_transfer_def registry_typed_def opt_list_def reading_of_state typed_insert split: if_splits)

lemma note_tier_typed:
  "note_tier t r = (r', ch) \<Longrightarrow> registry_typed r \<Longrightarrow> registry_typed r' \<and> list_all change_typed (opt_list ch)"
  by (auto simp: note_tier_def registry_typed_def opt_list_def Let_def split: if_splits)

section \<open>Every step keeps it\<close>

definition stays_typed :: "watch \<Rightarrow> watch \<Rightarrow> change list \<Rightarrow> bool" where
  "stays_typed w w' cs =
     (registry_typed (wt_registry w) \<longrightarrow> registry_typed (wt_registry w') \<and> list_all change_typed cs)"

lemma stays_typed_refl: "wt_registry w = wt_registry w' \<Longrightarrow> stays_typed w w' []"
  by (simp add: stays_typed_def)

lemma stays_typed_trans: "stays_typed w w1 cs \<Longrightarrow> stays_typed w1 w2 ds \<Longrightarrow> stays_typed w w2 (cs @ ds)"
  by (auto simp: stays_typed_def)

lemma poll_one_typed: "poll_one c T name w = (w', cs) \<Longrightarrow> stays_typed w w' cs"
  unfolding stays_typed_def poll_one_def
  by (auto simp: Let_def opt_list_def split: if_splits prod.splits
      dest!: observe_transfer_typed note_tier_typed)

lemma poll_each_typed: "poll_each c T names w = (w', cs) \<Longrightarrow> stays_typed w w' cs"
  by (induction names arbitrary: w cs)
    (auto simp: stays_typed_refl split: prod.splits dest!: poll_one_typed intro: stays_typed_trans)

lemma sweep_typed:
  assumes "sweep_if_due c T w = (w', cs)"
  shows "stays_typed w w' cs"
proof -
  have "list_all row_typed (map (found_view c) found)" for found by (simp add: list_all_iff row_of_found)
  then show ?thesis
    using assms
    by (auto simp: stays_typed_def sweep_if_due_def sweep_mounts_def
        split: if_splits sum.splits prod.splits dest: observe_mounts_typed)
qed

lemma act_typed: "watch_act c s w = (w', cs) \<Longrightarrow> stays_typed w w' cs"
proof (cases s)
  case (Ticked T)
  assume "watch_act c s w = (w', cs)"
  then obtain n where "tick c T w = (w', cs, n)" using Ticked by (auto split: prod.splits)
  then obtain w1 c1 c2 where parts: "sweep_if_due c T (forget_cycled w) = (w1, c1)" "poll_due c T w1 = (w', c2)"
      "cs = c1 @ c2"
    using tick_parts by metis
  have "stays_typed w (forget_cycled w) []" "stays_typed w1 (keep_pollable w1) []"
    by (rule stays_typed_refl; simp add: forget_cycled_def keep_pollable_def Let_def)+
  with sweep_typed [OF parts(1)] poll_each_typed [OF parts(2) [unfolded poll_due_def]] show ?thesis
    using stays_typed_trans parts(3) by (metis append_Nil)
qed (auto simp: acted_on_def stays_typed_refl)

lemma run_typed: "watch_run c ss w = (w', cs) \<Longrightarrow> stays_typed w w' cs"
  by (induction ss arbitrary: w cs)
    (auto simp: stays_typed_refl split: prod.splits dest!: act_typed intro: stays_typed_trans)

lemma keyed_names:
  assumes "keyed r"
  shows "sorted_wrt (<) (map mv_name (list_mounts r))"
proof -
  have "mv_name v = k" if "(k, v) \<in> set (rg_mounts r)" for k v
    using assms that by (auto simp: keyed_def keyed_rows_def bt_get_set)
  then have "map mv_name (list_mounts r) = map fst (rg_mounts r)"
    by (auto simp: list_mounts_def reg_mounts_def bt_values_def intro!: map_cong)
  then show ?thesis using assms by (simp add: keyed_def keyed_rows_def bt_wf_def)
qed

lemma asked_typed:
  assumes "registry_typed r"
  shows "case get_transfer_state c r n of
      Inr t \<Rightarrow> reading_typed t
    | Inl e \<Rightarrow> (case e of IpcUnknownMount _ \<Rightarrow> True | IpcNotManaged _ \<Rightarrow> True | _ \<Rightarrow> False)"
proof -
  have "reading_typed t" if "reg_transfer n r = Some t" for t
    using assms that bt_get_values by (force simp: registry_typed_def reg_transfer_def list_all_iff)
  then show ?thesis
    by (auto simp: get_transfer_state_def must_know_def nothing_to_say_def not_swept_yet_def reading_of_state
        split: option.split)
qed

text \<open>
  C21: Everything a running service says is in its vocabulary. After any run of the loop, whatever
  was found, polled and acted on, every row it lists names a state a client reads back, with the
  live and managed flags and the reason of that state; the rows come in the order of their names,
  each name once; every change it published on the way is of the same kind; a reading asked for
  is one a client rebuilds exactly, or the call is refused as unknown or not managed and in no other
  way; and the tier is \<^verbatim>\<open>unknown\<close> or one a client knows.
\<close>

theorem what_is_said_is_in_the_vocabulary:
  "case watch_run c ss (watch_new t) of (w, cs) \<Rightarrow>
     list_all row_typed (list_mounts (wt_registry w))
     \<and> sorted_wrt (<) (map mv_name (list_mounts (wt_registry w)))
     \<and> list_all change_typed cs
     \<and> (case get_transfer_state c (wt_registry w) n of
          Inr reading \<Rightarrow> reading_typed reading
        | Inl e \<Rightarrow> (case e of IpcUnknownMount _ \<Rightarrow> True | IpcNotManaged _ \<Rightarrow> True | _ \<Rightarrow> False))
     \<and> (case tier_from_name (capability_tier (wt_registry w)) of
          None \<Rightarrow> capability_tier (wt_registry w) = ''unknown''
        | Some tier \<Rightarrow> capability_tier (wt_registry w) = tier_name tier)"
proof (cases "watch_run c ss (watch_new t)")
  case (Pair w cs)
  have "registry_typed (wt_registry (watch_new t))"
    by (simp add: watch_new_def registry_default_def registry_typed_def bt_values_def)
  with run_typed [OF Pair] have typed: "registry_typed (wt_registry w)" "list_all change_typed cs"
    by (simp_all add: stays_typed_def)
  moreover have "keyed (wt_registry w)" using run_keyed [OF Pair keyed_new] .
  moreover have "case tier_from_name (capability_tier r) of
      None \<Rightarrow> capability_tier r = ''unknown'' | Some tier \<Rightarrow> capability_tier r = tier_name tier" for r
    using tiers.dec_enc by (cases "reg_tier r") (simp_all add: capability_tier_def tier_from_name_def)
  ultimately show ?thesis
    using keyed_names asked_typed
    by (simp add: Pair registry_typed_def list_mounts_def [unfolded reg_mounts_def])
qed

end
