(* ===== verification/Attach.thy ===== *)
theory Attach
  imports Service TrayModel
begin

text \<open>
  What the order of an attachment is for (crates/tray/src/watch.rs, \<open>gather\<close> and the session loop,
  against crates/service): the tray subscribes, then lists, then reads each mount, while the
  service goes on changing and publishing; and it follows three streams of signals at once.
\<close>

section \<open>What a run of changes says about one name\<close>

definition writes_row :: "string \<Rightarrow> change \<Rightarrow> bool" where
  "writes_row n ch = (case ch of MountChange v \<Rightarrow> mv_name v = n | Removed k \<Rightarrow> k = n | _ \<Rightarrow> False)"

definition writes_reading :: "string \<Rightarrow> change \<Rightarrow> bool" where
  "writes_reading n ch = (case ch of TransferChange w \<Rightarrow> tv_mount w = n | Removed k \<Rightarrow> k = n | _ \<Rightarrow> False)"

definition row_said :: "change \<Rightarrow> mount_view option" where
  "row_said ch = (case ch of MountChange v \<Rightarrow> Some v | _ \<Rightarrow> None)"

definition reading_said :: "change \<Rightarrow> transfer_view option" where
  "reading_said ch = (case ch of TransferChange w \<Rightarrow> Some w | _ \<Rightarrow> None)"

text \<open>The last word about a name decides, whatever was held before it.\<close>

lemma row_after:
  "bt_get n (fo_mounts (foldl follow m cs)) =
     (case find (writes_row n) (rev cs) of None \<Rightarrow> bt_get n (fo_mounts m) | Some ch \<Rightarrow> row_said ch)"
proof (induction cs rule: rev_induct)
  case (snoc ch cs)
  then show ?case by (cases ch) (auto simp: writes_row_def row_said_def bt_simps)
qed simp

lemma reading_after:
  "bt_get n (fo_transfers (foldl follow m cs)) =
     (case find (writes_reading n) (rev cs) of None \<Rightarrow> bt_get n (fo_transfers m) | Some ch \<Rightarrow> reading_said ch)"
proof (induction cs rule: rev_induct)
  case (snoc ch cs)
  then show ?case by (cases ch) (auto simp: writes_reading_def reading_said_def bt_simps)
qed simp

lemma follow_wf: "bt_wf (fo_mounts m) \<Longrightarrow> bt_wf (fo_mounts (foldl follow m cs))"
proof (induction cs arbitrary: m)
  case (Cons ch cs)
  have "bt_wf (fo_mounts (follow m ch))" using Cons.prems by (cases ch) (simp_all add: bt_simps)
  with Cons.IH show ?case by simp
qed simp

section \<open>A reading changes only when it is published\<close>

lemma sweep_row_quiet:
  "foldl (sweep_row M) (ts, seen, cs) found = (ts', seen', cs')
     \<Longrightarrow> set cs \<subseteq> set cs' \<and> ((\<forall>ch \<in> set cs'. \<not> writes_reading n ch) \<longrightarrow> bt_get n ts' = bt_get n ts)"
proof (induction found arbitrary: ts seen cs)
  case (Cons v found)
  obtain t1 s1 c1 where 1: "sweep_row M (ts, seen, cs) v = (t1, s1, c1)" by (metis prod_cases3)
  have ih: "set c1 \<subseteq> set cs' \<and> ((\<forall>ch \<in> set cs'. \<not> writes_reading n ch) \<longrightarrow> bt_get n ts' = bt_get n t1)"
    using Cons.IH [of t1 s1 c1] Cons.prems 1 by simp
  have "set cs \<subseteq> set c1" using 1 by (auto simp: sweep_row_def Let_def split: if_splits)
  moreover have "bt_get n t1 = bt_get n ts" if "\<forall>ch \<in> set c1. \<not> writes_reading n ch"
    using 1 that by (auto simp: sweep_row_def Let_def bt_simps writes_reading_def split: if_splits)
  ultimately show ?case using ih by (metis (no_types, lifting) subset_iff)
qed simp

lemma sweep_gone_quiet:
  "foldl (sweep_gone seen) (ts, cs) ks = (ts', cs')
     \<Longrightarrow> set cs \<subseteq> set cs' \<and> ((\<forall>ch \<in> set cs'. \<not> writes_reading n ch) \<longrightarrow> bt_get n ts' = bt_get n ts)"
proof (induction ks arbitrary: ts cs)
  case (Cons k ks)
  obtain t1 c1 where 1: "sweep_gone seen (ts, cs) k = (t1, c1)" by force
  have ih: "set c1 \<subseteq> set cs' \<and> ((\<forall>ch \<in> set cs'. \<not> writes_reading n ch) \<longrightarrow> bt_get n ts' = bt_get n t1)"
    using Cons.IH [of t1 c1] Cons.prems 1 by simp
  have "set cs \<subseteq> set c1" using 1 by (auto simp: sweep_gone_def split: if_splits)
  moreover have "bt_get n t1 = bt_get n ts" if "\<forall>ch \<in> set c1. \<not> writes_reading n ch"
    using 1 that by (auto simp: sweep_gone_def bt_simps writes_reading_def split: if_splits)
  ultimately show ?case using ih by (metis (no_types, lifting) subset_iff)
qed simp

lemma observe_quiet:
  assumes "observe i r = (r', cs)" "\<forall>ch \<in> set cs. \<not> writes_reading n ch"
  shows "bt_get n (rg_transfers r') = bt_get n (rg_transfers r)"
proof (cases i)
  case (Sweep found)
  obtain t1 seen c1 where 1: "foldl (sweep_row (rg_mounts r)) (rg_transfers r, [], []) found = (t1, seen, c1)"
    by (metis prod_cases3)
  then obtain t2 where 2: "foldl (sweep_gone seen) (t1, c1) (bt_keys (rg_mounts r)) = (t2, cs)"
      "rg_transfers r' = t2"
    using assms(1) Sweep by (auto simp: observe_def observe_mounts_def split: prod.splits)
  have "bt_get n t2 = bt_get n t1" "set c1 \<subseteq> set cs" using sweep_gone_quiet [OF 2(1)] assms(2) by blast+
  moreover have "bt_get n t1 = bt_get n (rg_transfers r)"
    using sweep_row_quiet [OF 1] assms(2) \<open>set c1 \<subseteq> set cs\<close> by blast
  ultimately show ?thesis using 2(2) by simp
next
  case (Reading w)
  with assms show ?thesis
    by (auto simp: observe_def observe_transfer_def opt_list_def bt_simps writes_reading_def split: if_splits)
next
  case (TierSeen t)
  with assms show ?thesis by (auto simp: observe_def note_tier_def Let_def split: if_splits)
qed

lemma run_quiet:
  "feed.run is r = (r', cs) \<Longrightarrow> \<forall>ch \<in> set cs. \<not> writes_reading n ch
     \<Longrightarrow> bt_get n (rg_transfers r') = bt_get n (rg_transfers r)"
proof (induction "is" arbitrary: r cs)
  case (Cons i "is")
  obtain r1 c1 where 1: "observe i r = (r1, c1)" by force
  then obtain c2 where 2: "feed.run is r1 = (r', c2)" "cs = c1 @ c2"
    using Cons.prems(1) by (auto split: prod.splits)
  show ?case using observe_quiet [OF 1] Cons.IH [OF 2(1)] Cons.prems(2) 2(2) by auto
qed simp


lemma sweep_kept:
  "foldl (sweep_row M) (ts, seen, cs) found = (ts', seen', cs') \<Longrightarrow> bt_get n ts' = Some w \<Longrightarrow> bt_get n ts = Some w"
proof (induction found arbitrary: ts seen cs)
  case (Cons v found)
  obtain t1 s1 c1 where 1: "sweep_row M (ts, seen, cs) v = (t1, s1, c1)" by (metis prod_cases3)
  then have "bt_get n t1 = Some w" using Cons by simp
  then show ?case using 1 by (auto simp: sweep_row_def Let_def bt_simps split: if_splits)
qed simp

lemma sweep_gone_kept:
  "foldl (sweep_gone seen) (ts, cs) ks = (ts', cs') \<Longrightarrow> bt_get n ts' = Some w \<Longrightarrow> bt_get n ts = Some w"
proof (induction ks arbitrary: ts cs)
  case (Cons k ks)
  obtain t1 c1 where 1: "sweep_gone seen (ts, cs) k = (t1, c1)" by force
  then have "bt_get n t1 = Some w" using Cons by simp
  then show ?case using 1 by (auto simp: sweep_gone_def bt_simps split: if_splits)
qed simp

lemma sweep_gone_drops:
  "foldl (sweep_gone seen) (ts, cs) ks = (ts', cs') \<Longrightarrow> n \<in> set ks \<Longrightarrow> bt_get n seen = None \<Longrightarrow> bt_get n ts' = None"
proof (induction ks arbitrary: ts cs)
  case (Cons k ks)
  obtain t1 c1 where 1: "sweep_gone seen (ts, cs) k = (t1, c1)" by force
  then have 2: "foldl (sweep_gone seen) (t1, c1) ks = (ts', cs')" using Cons.prems(1) by simp
  show ?case
  proof (cases "n = k")
    case True
    then have "bt_get n t1 = None" using 1 Cons.prems(3) by (auto simp: sweep_gone_def bt_simps)
    then show ?thesis by (rule sweep_gone_transfers [OF 2])
  qed (use Cons 2 in auto)
qed simp

section \<open>A registry as the watcher keeps it\<close>

text \<open>Rows under their own names, and readings only of mounts that are polled, which are ours.\<close>

definition sound :: "registry \<Rightarrow> bool" where
  "sound r =
     (keyed r \<and> (\<forall>n v. reg_mount n r = Some v \<longrightarrow> pollable_view v \<longrightarrow> mv_managed v)
      \<and> (\<forall>n w. reg_transfer n r = Some w \<longrightarrow> tv_mount w = n \<and> n \<in> set (pollable r)))"

definition earned :: "registry \<Rightarrow> observation \<Rightarrow> bool" where
  "earned r i =
     (rows_agree i
      \<and> (case i of
           Sweep found \<Rightarrow> list_all (\<lambda>v. pollable_view v \<longrightarrow> mv_managed v) found
         | Reading w \<Rightarrow> tv_mount w \<in> set (pollable r)
         | TierSeen t \<Rightarrow> True))"

fun earned_run :: "registry \<Rightarrow> observation list \<Rightarrow> bool" where
  "earned_run r [] = True"
| "earned_run r (i # is) = (earned r i \<and> earned_run (fst (observe i r)) is)"

lemma pollable_get:
  assumes "keyed r"
  shows "n \<in> set (pollable r) \<longleftrightarrow> (\<exists>v. reg_mount n r = Some v \<and> pollable_view v)"
proof -
  have "mv_name v = k" if "(k, v) \<in> set (rg_mounts r)" for k v
    using assms that by (auto simp: keyed_def keyed_rows_def bt_get_set)
  moreover have "reg_mount n r = Some v \<longleftrightarrow> (n, v) \<in> set (rg_mounts r)" for v
    using assms by (auto simp: keyed_def keyed_rows_def bt_get_set reg_mount_def)
  ultimately show ?thesis by (force simp: pollable_def bt_values_def)
qed

lemma sound_sweep:
  assumes "sound r" "earned r (Sweep found)" "observe_mounts found r = (r', cs)"
  shows "sound r'"
proof -
  have k: "keyed r'" using observe_keyed [OF assms(3)] .
  note rows = observe_mounts_rows [OF assms(3)]
  have agree: "rows_agree (Sweep found)" using assms(2) by (simp add: earned_def)
  have get: "reg_mount n r' = Some v \<longleftrightarrow> v \<in> set found \<and> mv_name v = n" for n v
    using rows rows_of_get [OF agree, of n v] by (simp add: reg_mount_def)
  obtain t1 seen c1 where 1: "foldl (sweep_row (rg_mounts r)) (rg_transfers r, [], []) found = (t1, seen, c1)"
    by (metis prod_cases3)
  then have 2: "foldl (sweep_gone seen) (t1, c1) (bt_keys (rg_mounts r)) = (rg_transfers r', cs)"
    using assms(3) by (auto simp: observe_mounts_def split: prod.splits)
  have kept: "bt_get n (rg_transfers r) = Some w" if "bt_get n (rg_transfers r') = Some w" for n w
    using that sweep_kept [OF 1] sweep_gone_kept [OF 2] by blast
  have "tv_mount w = n \<and> n \<in> set (pollable r')" if w: "reg_transfer n r' = Some w" for n w
  proof -
    have old: "tv_mount w = n \<and> n \<in> set (pollable r)"
      using assms(1) kept w by (simp add: sound_def reg_transfer_def)
    then have "n \<in> set (bt_keys (rg_mounts r))"
      using assms(1) pollable_get [of r n] by (auto simp: sound_def bt_keys_get reg_mount_def)
    then have "bt_get n seen \<noteq> None"
      using sweep_gone_drops [OF 2, of n] w unfolding reg_transfer_def by (metis option.distinct(1))
    moreover have "seen = rg_mounts r'" using sweep_rows_seen [OF 1] rows by (simp add: rows_of_def)
    ultimately obtain v where v: "reg_mount n r' = Some v" by (auto simp: reg_mount_def)
    have "pollable_view v" using rows v get w by (metis option.distinct(1) reg_transfer_def)
    then show ?thesis using old v pollable_get [OF k] by blast
  qed
  moreover have "pollable_view v \<longrightarrow> mv_managed v" if "reg_mount n r' = Some v" for n v
    using that assms(2) unfolding get by (auto simp: earned_def list_all_iff)
  ultimately show ?thesis using k by (simp add: sound_def)
qed

lemma sound_observe: "sound r \<Longrightarrow> earned r i \<Longrightarrow> sound (fst (observe i r))"
proof (cases i)
  case (Sweep found)
  assume "sound r" "earned r i"
  then show ?thesis
    using Sweep sound_sweep [of r found "fst (observe_mounts found r)" "snd (observe_mounts found r)"]
    by (simp add: observe_def)
next
  case (Reading w)
  assume s: "sound r" "earned r i"
  let ?r = "fst (observe_transfer w r)"
  have rows: "rg_mounts ?r = rg_mounts r" by (simp add: observe_transfer_def)
  then have "pollable ?r = pollable r" "keyed ?r = keyed r" "\<And>n. reg_mount n ?r = reg_mount n r"
    by (simp_all add: pollable_def keyed_def reg_mount_def)
  moreover have "reg_transfer n ?r = (if n = tv_mount w then Some w else reg_transfer n r)" for n
    by (simp add: observe_transfer_def reg_transfer_def bt_simps)
  ultimately show ?thesis using s Reading by (auto simp: observe_def sound_def earned_def)
next
  case (TierSeen t)
  assume s: "sound r" "earned r i"
  let ?r = "fst (note_tier t r)"
  have "rg_mounts ?r = rg_mounts r" "rg_transfers ?r = rg_transfers r" by (simp_all add: note_tier_def Let_def)
  then show ?thesis using s TierSeen
    by (simp add: observe_def sound_def pollable_def keyed_def reg_mount_def reg_transfer_def)
qed

lemma sound_run: "sound r \<Longrightarrow> earned_run r is \<Longrightarrow> feed.run is r = (r', cs) \<Longrightarrow> sound r'"
proof (induction "is" arbitrary: r cs)
  case (Cons i "is")
  then show ?case using sound_observe [of r i] by (auto split: prod.splits)
qed simp

lemma earned_agrees: "earned_run r is \<Longrightarrow> list_all rows_agree is"
  by (induction "is" arbitrary: r) (auto simp: earned_def)

lemma earned_take: "earned_run r is \<Longrightarrow> earned_run r (take k is)"
  by (induction "is" arbitrary: r k) (auto simp: take_Cons split: nat.split)

lemma earned_append: "earned_run r (xs @ ys) \<longleftrightarrow> earned_run r xs \<and> earned_run (fst (feed.run xs r)) ys"
  by (induction xs arbitrary: r) (auto split: prod.splits)


section \<open>Subscribe, then list, then read\<close>

text \<open>
  What the service hands an attaching tray: the rows as listed, and for each the reading it
  answers with by the time it is asked, which may be later.
\<close>

definition handed_readings :: "config \<Rightarrow> (string \<Rightarrow> registry) \<Rightarrow> mount_view list \<Rightarrow> transfer_view list" where
  "handed_readings c later rows =
     concat (map (\<lambda>m. case get_transfer_state c (later (mv_name m)) (mv_name m) of Inr v \<Rightarrow> [v] | Inl _ \<Rightarrow> []) rows)"

text \<open>What the tray does with a snapshot before it follows signals.\<close>

definition attached :: "service_info \<Rightarrow> mount_view list \<Rightarrow> transfer_view list \<Rightarrow> tray_model \<Rightarrow> tray_model" where
  "attached info rows readings m = foldl (\<lambda>m t. upsert_transfer t m) (go_up info rows m) readings"

lemma attached_is:
  "tray_is (attached info rows readings m)
     \<lparr>fo_mounts = rows_of rows, fo_transfers = foldl (\<lambda>acc v. bt_insert (tv_mount v) v acc) [] readings\<rparr>"
proof (induction readings rule: rev_induct)
  case Nil
  show ?case by (simp add: attached_def tray_is_def go_up_def collect_mounts_def rows_of_def)
next
  case (snoc v readings)
  then have t: "tray_is (tray_follow (attached info rows readings m) (TransferChange v))
      (follow \<lparr>fo_mounts = rows_of rows, fo_transfers = foldl (\<lambda>acc v. bt_insert (tv_mount v) v acc) [] readings\<rparr>
        (TransferChange v))"
    by (rule tray_is_follow)
  have "attached info rows (readings @ [v]) m = tray_follow (attached info rows readings m) (TransferChange v)"
    by (simp add: attached_def tray_follow_def)
  then show ?case using t by simp
qed

lemma reg_rows:
  assumes "keyed r"
  shows "rows_of (reg_mounts r) = rg_mounts r"
    and "v \<in> set (reg_mounts r) \<longleftrightarrow> reg_mount (mv_name v) r = Some v"
proof -
  have wf: "bt_wf (rg_mounts r)" and name: "\<And>k v. bt_get k (rg_mounts r) = Some v \<Longrightarrow> mv_name v = k"
    using assms by (auto simp: keyed_def keyed_rows_def)
  show mem: "v \<in> set (reg_mounts r) \<longleftrightarrow> reg_mount (mv_name v) r = Some v" for v
    using bt_values_get [OF wf, of v] bt_get_values [of "mv_name v" "rg_mounts r" v] name
    by (auto simp: reg_mounts_def reg_mount_def)
  have agree: "rows_agree (Sweep (reg_mounts r))"
    by (auto simp: rows_agree_def list_all_iff mem)
  have "bt_get n (rows_of (reg_mounts r)) = bt_get n (rg_mounts r)" for n
  proof -
    have "bt_get n (rows_of (reg_mounts r)) = Some v \<longleftrightarrow> bt_get n (rg_mounts r) = Some v" for v
      unfolding rows_of_get [OF agree] mem by (auto simp: reg_mount_def dest: name)
    then show ?thesis by (metis not_Some_eq)
  qed
  moreover have "bt_wf (rows_of (reg_mounts r))"
    unfolding rows_of_def by (rule bt.wf_foldl_put) simp
  ultimately show "rows_of (reg_mounts r) = rg_mounts r" using wf by (intro bt_ext)
qed

lemma told_name: "sound r \<Longrightarrow> get_transfer_state c r n = Inr v \<Longrightarrow> tv_mount v = n"
  by (auto simp: get_transfer_state_def sound_def keyed_def keyed_rows_def reg_mount_def not_swept_yet_def
      transfer_view_of_def unmonitored_def ts_empty_def split: sum.splits option.splits)

lemma handed_reading:
  assumes "\<forall>n. sound (later n)" "distinct (map mv_name rows)"
  shows "bt_get n (foldl (\<lambda>acc v. bt_insert (tv_mount v) v acc) [] (handed_readings c later rows)) =
     (if n \<in> mv_name ` set rows
      then (case get_transfer_state c (later n) n of Inr v \<Rightarrow> Some v | Inl _ \<Rightarrow> None) else None)"
  using assms(2)
proof (induction rows rule: rev_induct)
  case (snoc m rows)
  then show ?case using told_name [OF assms(1) [rule_format, of "mv_name m"]]
    by (cases "get_transfer_state c (later (mv_name m)) (mv_name m)")
      (auto simp: handed_readings_def bt_simps)
qed (simp add: handed_readings_def)


text \<open>Rows: a name nothing was published about has not moved, any other ends as last published.\<close>

lemma attach_rows:
  assumes "in_step ra (foldl follow f0 c1)" "in_step rn (foldl follow f0 (c1 @ c2))" "fo_mounts g0 = rg_mounts ra"
  shows "fo_mounts (foldl follow g0 (c1 @ c2)) = rg_mounts rn"
proof (rule bt_ext)
  have ra: "rg_mounts ra = fo_mounts (foldl follow f0 c1)" and rn: "rg_mounts rn = fo_mounts (foldl follow f0 (c1 @ c2))"
    using assms(1,2) by (auto simp: in_step_def)
  show "bt_wf (rg_mounts rn)" using assms(2) by (simp add: in_step_def)
  show "bt_wf (fo_mounts (foldl follow g0 (c1 @ c2)))"
    using assms(1,3) by (intro follow_wf) (auto simp: in_step_def)
  fix n
  show "bt_get n (fo_mounts (foldl follow g0 (c1 @ c2))) = bt_get n (rg_mounts rn)"
  proof (cases "find (writes_row n) (rev (c1 @ c2))")
    case None
    then have "find (writes_row n) (rev c1) = None" by (auto simp: find_None_iff)
    then have "bt_get n (rg_mounts ra) = bt_get n (fo_mounts f0)" unfolding ra row_after by simp
    then show ?thesis unfolding rn row_after None using assms(3) by simp
  qed (simp only: rn row_after option.case)
qed

text \<open>\<open>leads r r' cs\<close>: what the watcher observed took the registry there, publishing these changes.\<close>

definition leads :: "registry \<Rightarrow> registry \<Rightarrow> change list \<Rightarrow> bool" where
  "leads r r' cs = (\<exists>obs. earned_run r obs \<and> feed.run obs r = (r', cs))"

lemma leads_refl: "leads r r []"
  unfolding leads_def by (rule exI [of _ "[]"]) simp

lemma leads_trans: "leads r r1 cs \<Longrightarrow> leads r1 r2 ds \<Longrightarrow> leads r r2 (cs @ ds)"
  unfolding leads_def by (force simp: run_append earned_append intro: exI [of _ "_ @ _"])

lemma leads_sound: "leads r r' cs \<Longrightarrow> sound r \<Longrightarrow> sound r'"
  unfolding leads_def using sound_run by blast

lemma leads_quiet: "leads r r' cs \<Longrightarrow> \<forall>ch \<in> set cs. \<not> writes_reading n ch \<Longrightarrow> reg_transfer n r' = reg_transfer n r"
  unfolding leads_def reg_transfer_def using run_quiet by blast

lemma leads_in_step: "leads r r' cs \<Longrightarrow> in_step r m \<Longrightarrow> in_step r' (foldl follow m cs)"
  unfolding leads_def using feed.run_rel earned_agrees by blast

lemma told_reading:
  assumes "sound r" "reg_transfer n r = Some w"
  shows "get_transfer_state c r n = Inr w"
proof -
  have "n \<in> set (pollable r)" using assms by (auto simp: sound_def)
  then obtain v where "reg_mount n r = Some v" "pollable_view v"
    using assms(1) pollable_get [of r n] by (auto simp: sound_def)
  then have "must_know c r n = Inr ()" using assms(1) by (auto simp: must_know_def sound_def)
  then show ?thesis using assms(2) by (simp add: get_transfer_state_def)
qed

lemma told_blank:
  "reg_transfer n r = None \<Longrightarrow> get_transfer_state c r n = Inr told \<Longrightarrow> \<not> tv_outstanding_known told"
  by (auto simp: get_transfer_state_def not_swept_yet_def transfer_view_of_def unmonitored_def ts_empty_def
      split: sum.splits option.splits)

lemma reg_distinct:
  assumes "keyed r"
  shows "distinct (map mv_name (reg_mounts r))"
proof -
  have "map mv_name (reg_mounts r) = map fst (rg_mounts r)"
    using assms by (auto simp: reg_mounts_def bt_values_def keyed_def keyed_rows_def bt_get_set [symmetric])
  then show ?thesis using assms by (simp add: keyed_def keyed_rows_def bt_wf_distinct)
qed

lemma attach_readings:
  assumes "sound ra" "leads ra rn c2" "\<forall>n. sound (later n)"
    "leads ra (later n) d" "set d \<subseteq> set c2" "readings_agree (rg_transfers rn) (fo_transfers (foldl follow f0 (c1 @ c2)))"
    "fo_transfers g0 = foldl (\<lambda>acc v. bt_insert (tv_mount v) v acc) [] (handed_readings c later (reg_mounts ra))"
  shows "(\<forall>w. reg_transfer n rn = Some w \<longrightarrow> bt_get n (fo_transfers (foldl follow g0 (c1 @ c2))) = Some w)
    \<and> (\<forall>t. reg_transfer n rn = None \<longrightarrow> bt_get n (fo_transfers (foldl follow g0 (c1 @ c2))) = Some t
         \<longrightarrow> \<not> tv_outstanding_known t)"
proof (cases "find (writes_reading n) (rev (c1 @ c2))")
  case (Some ch)
  then have "bt_get n (fo_transfers (foldl follow g0 (c1 @ c2))) = bt_get n (fo_transfers (foldl follow f0 (c1 @ c2)))"
    by (simp only: reading_after option.case)
  then show ?thesis using assms(6) by (simp add: readings_agree_def reg_transfer_def)
next
  case None
  then have "\<forall>ch \<in> set c2. \<not> writes_reading n ch" by (auto simp: find_None_iff)
  then have same: "reg_transfer n rn = reg_transfer n ra" "reg_transfer n (later n) = reg_transfer n ra"
    using leads_quiet [OF assms(2)] leads_quiet [OF assms(4)] assms(5) by blast+
  have ka: "keyed ra" using assms(1) by (simp add: sound_def)
  have "distinct (map mv_name (reg_mounts ra))" using ka by (rule reg_distinct)
  note held = handed_reading [OF assms(3) this, of n c, folded assms(7)]
  have gn: "bt_get n (fo_transfers (foldl follow g0 (c1 @ c2))) = bt_get n (fo_transfers g0)"
    using None by (simp only: reading_after option.case)
  have listed: "n \<in> mv_name ` set (reg_mounts ra)" if "reg_transfer n ra = Some w" for w
  proof -
    have "n \<in> set (pollable ra)" using that assms(1) by (simp add: sound_def)
    then obtain v where "reg_mount n ra = Some v" using pollable_get [OF ka, of n] by blast
    moreover have "mv_name v = n" using calculation ka by (auto simp: keyed_def keyed_rows_def reg_mount_def)
    ultimately show ?thesis using reg_rows(2) [OF ka, of v] by auto
  qed
  have "bt_get n (fo_transfers g0) = Some w" if "reg_transfer n ra = Some w" for w
    using held listed [OF that] told_reading [of "later n" n w c] assms(3) same that by simp
  moreover have "\<not> tv_outstanding_known t" if "reg_transfer n ra = None" "bt_get n (fo_transfers g0) = Some t" for t
    using that same told_blank [of n "later n" c t] unfolding held by (auto split: if_splits sum.splits)
  ultimately show ?thesis unfolding gn same by blast
qed

definition keeps_reading :: "registry \<Rightarrow> tray_model \<Rightarrow> mount_view \<Rightarrow> bool" where
  "keeps_reading r m v =
     (case reg_transfer (mv_name v) r of
        Some w \<Rightarrow> tm_transfer (mv_name v) m = Some (transfer_of_view w)
      | None \<Rightarrow> (case tm_transfer (mv_name v) m of None \<Rightarrow> True | Some t \<Rightarrow> \<not> ts_outstanding_known t))"

definition shows_service :: "registry \<Rightarrow> tray_model \<Rightarrow> bool" where
  "shows_service r m = (tm_mount_list m = reg_mounts r \<and> list_all (keeps_reading r m) (reg_mounts r))"

lemma shows_follower:
  assumes "tray_is m f" "fo_mounts f = rg_mounts r"
    "\<And>n w. n \<in> mv_name ` set (reg_mounts r) \<Longrightarrow> reg_transfer n r = Some w \<Longrightarrow> bt_get n (fo_transfers f) = Some w"
    "\<And>n t. n \<in> mv_name ` set (reg_mounts r) \<Longrightarrow> reg_transfer n r = None \<Longrightarrow> bt_get n (fo_transfers f) = Some t
       \<Longrightarrow> \<not> tv_outstanding_known t"
  shows "shows_service r m"
proof -
  have get: "tm_transfer n m = map_option transfer_of_view (bt_get n (fo_transfers f))" for n
    using assms(1) by (simp add: tray_is_def tm_transfer_def bt_get_map)
  have "keeps_reading r m v" if "v \<in> set (reg_mounts r)" for v
    using assms(3,4) [of "mv_name v"] that
    by (auto simp: keeps_reading_def get transfer_of_view_def split: option.split)
  then show ?thesis
    using assms(1,2) by (auto simp: shows_service_def list_all_iff tray_is_def tm_mount_list_def reg_mounts_def)
qed

text \<open>The same for one name: its row, or that it has none, and its reading as far as it vouches for itself.\<close>

definition shows_name :: "registry \<Rightarrow> tray_model \<Rightarrow> string \<Rightarrow> bool" where
  "shows_name r m n =
     (bt_get n (tm_mounts m) = reg_mount n r
      \<and> (case reg_transfer n r of
           Some w \<Rightarrow> tm_transfer n m = Some (transfer_of_view w)
         | None \<Rightarrow> (case tm_transfer n m of None \<Rightarrow> True | Some t \<Rightarrow> \<not> ts_outstanding_known t)))"

lemma shows_name_follower:
  assumes "tray_is m f" "bt_get n (fo_mounts f) = reg_mount n r"
    "\<And>w. reg_transfer n r = Some w \<Longrightarrow> bt_get n (fo_transfers f) = Some w"
    "\<And>t. reg_transfer n r = None \<Longrightarrow> bt_get n (fo_transfers f) = Some t \<Longrightarrow> \<not> tv_outstanding_known t"
  shows "shows_name r m n"
proof -
  have "tm_transfer n m = map_option transfer_of_view (bt_get n (fo_transfers f))"
    using assms(1) by (simp add: tray_is_def tm_transfer_def bt_get_map)
  then show ?thesis
    using assms by (auto simp: shows_name_def tray_is_def transfer_of_view_def split: option.split)
qed

lemma shows_name_same:
  assumes "shows_name r m n" "tray_is m f" "tray_is m' f'" "bt_get n (fo_mounts f') = bt_get n (fo_mounts f)"
    "bt_get n (fo_transfers f') = bt_get n (fo_transfers f)"
  shows "shows_name r m' n"
proof -
  have "tm_transfer n m' = tm_transfer n m" "bt_get n (tm_mounts m') = bt_get n (tm_mounts m)"
    using assms(2-5) by (simp_all add: tray_is_def tm_transfer_def bt_get_map)
  then show ?thesis using assms(1) unfolding shows_name_def by (cases "reg_transfer n r") simp_all
qed

lemma catch_up:
  fixes c info m
  assumes "sound r0" "leads r0 ra c1" "leads ra rn c2"
    and later: "\<And>n. \<exists>d. leads ra (later n) d \<and> set d \<subseteq> set c2"
  defines "m' \<equiv> foldl tray_follow
    (attached info (reg_mounts ra) (handed_readings c later (reg_mounts ra)) m) (c1 @ c2)"
  shows "shows_service rn m' \<and> (\<forall>n. shows_name rn m' n)"
proof -
  define f0 g0 where "f0 = \<lparr>fo_mounts = rg_mounts r0, fo_transfers = rg_transfers r0\<rparr>"
    and "g0 = \<lparr>fo_mounts = rg_mounts ra, fo_transfers =
      foldl (\<lambda>acc v. bt_insert (tv_mount v) v acc) [] (handed_readings c later (reg_mounts ra))\<rparr>"
  let ?cs = "c1 @ c2" and ?gn = "foldl follow g0 (c1 @ c2)" and ?fn = "foldl follow f0 (c1 @ c2)"
  have sa: "sound ra" by (rule leads_sound [OF assms(2,1)])
  have snd_later: "\<forall>n. sound (later n)" using later leads_sound sa by blast
  have "in_step r0 f0"
    using assms(1) by (auto simp: in_step_def f0_def sound_def keyed_def keyed_rows_def readings_agree_def)
  then have mid: "in_step ra (foldl follow f0 c1)" by (rule leads_in_step [OF assms(2)])
  have last: "in_step rn ?fn" using leads_in_step [OF assms(3) mid] by simp
  have ka: "keyed ra" using sa by (simp add: sound_def)
  have tray: "tray_is m' ?gn"
    unfolding m'_def g0_def using attached_is [of info "reg_mounts ra"] by (intro tray_is_foldl) (simp add: reg_rows(1) [OF ka])
  have rows: "fo_mounts ?gn = rg_mounts rn"
    using attach_rows [OF mid last, of g0] by (simp add: g0_def)
  have agree: "readings_agree (rg_transfers rn) (fo_transfers ?fn)" using last by (simp add: in_step_def)
  have readings: "(\<forall>w. reg_transfer n rn = Some w \<longrightarrow> bt_get n (fo_transfers ?gn) = Some w)
      \<and> (\<forall>t. reg_transfer n rn = None \<longrightarrow> bt_get n (fo_transfers ?gn) = Some t \<longrightarrow> \<not> tv_outstanding_known t)" for n
  proof -
    obtain d where d: "leads ra (later n) d" "set d \<subseteq> set c2" using later by blast
    show ?thesis by (rule attach_readings [OF sa assms(3) snd_later d agree]) (simp add: g0_def)
  qed
  have "shows_service rn m'" by (rule shows_follower [OF tray rows]) (use readings in blast)+
  moreover have "shows_name rn m' n" for n
    by (rule shows_name_follower [OF tray]) (use rows readings [of n] in \<open>simp_all add: reg_mount_def\<close>)
  ultimately show ?thesis by blast
qed

section \<open>What the watcher observes\<close>

lemma take_rate_name: "take_rate a p s = (s', p') \<Longrightarrow> po_name p' = po_name p"
  by (auto simp: take_rate_def split: if_splits prod.splits)

lemma poll_name:
  assumes "poll a p0 = (s, p')"
  shows "ts_mount s = po_name p0" "po_name p' = po_name p0"
proof -
  have name: "po_name p = po_name p0" if "fetch_stats a (reprobe a p0) = (r, p)" for r p
    using fetch_stats_caps [OF that] by (simp add: reprobe_def)
  have "ts_mount s = po_name p0 \<and> po_name p' = po_name p0"
    using assms
  proof (cases rule: poll_cases)
    case (silent e p cs)
    then show ?thesis using unreachable_reason [of a p e] name [OF silent(1)] by simp
  next
    case (told_nothing r p cs)
    then show ?thesis using name [OF told_nothing(1)] by (auto simp: ts_mount_parts)
  next
    case (counts_only c m p)
    then show ?thesis using name [OF counts_only(1)] by (simp add: ts_mount_parts)
  next
    case (full cache p s0)
    then show ?thesis
      using full_reason [OF full(3,4,5)] name [OF full(2)] take_rate_name [OF full(5)] by simp
  qed (simp add: ts_mount_parts reprobe_def)
  then show "ts_mount s = po_name p0" "po_name p' = po_name p0" by simp_all
qed

definition own_pollers :: "watch \<Rightarrow> bool" where
  "own_pollers w = (\<forall>n p. bt_get n (wt_pollers w) = Some p \<longrightarrow> po_name p = n)"

lemma poll_one_leads:
  assumes "poll_one c T name w = (w', cs)" "own_pollers w" "name \<in> set (pollable (wt_registry w))"
  shows "leads (wt_registry w) (wt_registry w') cs \<and> own_pollers w'"
proof (cases "is_some_and (bt_get name (wt_due w)) (\<lambda>due. ti_now T < due)")
  case True
  then show ?thesis using assms by (auto simp: poll_one_def leads_refl)
next
  case False
  let ?p = "case bt_get name (wt_pollers w) of Some p \<Rightarrow> p | None \<Rightarrow> connect name (ti_list T name)"
  obtain state p where p: "poll (ti_poll T name) ?p = (state, p)" by force
  have "po_name ?p = name" using assms(2) by (auto simp: own_pollers_def connect_def Let_def split: option.split)
  then have named: "ts_mount state = name" "po_name p = name" using poll_name [OF p] by simp_all
  let ?tier = "if rc_answered p then [TierSeen (po_tier p)] else []"
  have "feed.run (?tier @ [Reading (transfer_view_of state)]) (wt_registry w) = (wt_registry w', cs)"
    using assms(1) False p by (auto simp: poll_one_def Let_def observe_def opt_list_def split: prod.splits if_splits)
  moreover have "rg_mounts (fst (feed.run ?tier (wt_registry w))) = rg_mounts (wt_registry w)"
    by (simp add: observe_def note_tier_def Let_def)
  then have "pollable (fst (feed.run ?tier (wt_registry w))) = pollable (wt_registry w)"
    by (simp add: pollable_def)
  then have "earned_run (wt_registry w) (?tier @ [Reading (transfer_view_of state)])"
    using assms(3) named by (auto simp: earned_append earned_def rows_agree_def transfer_view_of_def)
  moreover have "wt_pollers w' = bt_insert name p (wt_pollers w)"
    using assms(1) False p by (auto simp: poll_one_def Let_def split: prod.splits if_splits)
  ultimately show ?thesis
    using assms(2) named(2) unfolding leads_def by (auto simp: own_pollers_def bt_simps)
qed


lemma poll_each_leads:
  "poll_each c T names w = (w', cs) \<Longrightarrow> own_pollers w \<Longrightarrow> set names \<subseteq> set (pollable (wt_registry w))
     \<Longrightarrow> leads (wt_registry w) (wt_registry w') cs \<and> own_pollers w'"
proof (induction names arbitrary: w cs)
  case (Cons name names)
  obtain w1 c1 c2 where 1: "poll_one c T name w = (w1, c1)" "poll_each c T names w1 = (w', c2)" "cs = c1 @ c2"
    using Cons.prems(1) by (auto split: prod.splits)
  have one: "leads (wt_registry w) (wt_registry w1) c1" "own_pollers w1"
    using poll_one_leads [OF 1(1) Cons.prems(2)] Cons.prems(3) by auto
  have "pollable (wt_registry w1) = pollable (wt_registry w)"
    using poll_one_effect(1) [OF 1(1)] by (simp add: pollable_def)
  then show ?case using Cons.IH [OF 1(2) one(2)] one(1) Cons.prems(3) 1(3) leads_trans by auto
qed (simp add: leads_refl)

lemma sweep_leads:
  assumes "step_agrees c (Ticked T)" "sweep_if_due c T w = (w', cs)"
  shows "leads (wt_registry w) (wt_registry w') cs"
proof (cases "wt_sweep_due w \<le> ti_now T \<and> (\<exists>found. ti_found T = Inr found)")
  case True
  then obtain found where found: "ti_found T = Inr found" by blast
  then have "feed.run [Sweep (map (found_view c) found)] (wt_registry w) = (wt_registry w', cs)"
    using assms(2) True by (auto simp: sweep_if_due_def sweep_mounts_def observe_def split: prod.splits)
  moreover have "pollable_view (found_view c m) \<longrightarrow> mv_managed (found_view c m)" for m
    by (cases "dm_state m") (auto simp: pollable_view_def found_view_def mount_view_of_def)
  then have "earned_run (wt_registry w) [Sweep (map (found_view c) found)]"
    using assms(1) found by (simp add: earned_def step_agrees_def list_all_iff)
  ultimately show ?thesis unfolding leads_def by blast
next
  case False
  then show ?thesis using assms(2)
    by (auto simp: sweep_if_due_def sweep_mounts_def leads_refl split: sum.splits if_splits)
qed

lemma own_pollers_sub: "own_pollers w \<Longrightarrow> (\<And>n p. bt_get n (wt_pollers w') = Some p \<Longrightarrow> bt_get n (wt_pollers w) = Some p) \<Longrightarrow> own_pollers w'"
  by (auto simp: own_pollers_def)

lemma tick_leads:
  assumes "step_agrees c (Ticked T)" "tick c T w = (w', cs, n)" "own_pollers w"
  shows "leads (wt_registry w) (wt_registry w') cs \<and> own_pollers w'"
proof -
  obtain w1 c1 c2 where parts: "sweep_if_due c T (forget_cycled w) = (w1, c1)" "poll_due c T w1 = (w', c2)"
      "cs = c1 @ c2"
    using tick_parts [OF assms(2)] by metis
  have one: "leads (wt_registry w) (wt_registry w1) c1"
    using sweep_leads [OF assms(1) parts(1)] by (simp add: forget_cycled_def)
  have "own_pollers (keep_pollable w1)"
    by (rule own_pollers_sub [OF assms(3)])
      (use sweep_keeps_pollers [OF parts(1)] in
        \<open>auto simp: keep_pollable_def Let_def bt_get_retain forget_cycled_def bt_get_fold_remove split: if_splits\<close>)
  moreover have "wt_registry (keep_pollable w1) = wt_registry w1" by (simp add: keep_pollable_def Let_def)
  ultimately have "leads (wt_registry w1) (wt_registry w') c2 \<and> own_pollers w'"
    using poll_each_leads [OF parts(2) [unfolded poll_due_def]] by simp
  then show ?thesis using one parts(3) leads_trans by blast
qed

lemma act_leads:
  "step_agrees c s \<Longrightarrow> watch_act c s w = (w', cs) \<Longrightarrow> own_pollers w
     \<Longrightarrow> leads (wt_registry w) (wt_registry w') cs \<and> own_pollers w'"
proof (cases s)
  case (Ticked T)
  obtain w1 c1 n where 1: "tick c T w = (w1, c1, n)" by (metis prod_cases3)
  assume "step_agrees c s" "watch_act c s w = (w', cs)" "own_pollers w"
  then show ?thesis using Ticked 1 tick_leads [OF _ 1] by simp
qed (auto simp: acted_on_def leads_refl own_pollers_def)

lemma run_leads:
  "list_all (step_agrees c) ss \<Longrightarrow> watch_run c ss w = (w', cs) \<Longrightarrow> own_pollers w
     \<Longrightarrow> leads (wt_registry w) (wt_registry w') cs \<and> own_pollers w'"
proof (induction ss arbitrary: w cs)
  case (Cons s ss)
  obtain w1 c1 c2 where 1: "watch_act c s w = (w1, c1)" "watch_run c ss w1 = (w', c2)" "cs = c1 @ c2"
    using Cons.prems(2) by (auto split: prod.splits)
  then show ?case using act_leads [OF _ 1(1)] Cons.IH [OF _ 1(2)] Cons.prems leads_trans by auto
qed (simp add: leads_refl)

lemma run_split:
  "watch_run c ss w = (w', cs) \<Longrightarrow> watch_run c (take k ss) w = (w1, c1) \<Longrightarrow> set c1 \<subseteq> set cs"
proof (induction ss arbitrary: w cs c1 k)
  case (Cons s ss)
  obtain w2 c2 c3 where 1: "watch_act c s w = (w2, c2)" "watch_run c ss w2 = (w', c3)" "cs = c2 @ c3"
    using Cons.prems(1) by (auto split: prod.splits)
  show ?case
  proof (cases k)
    case (Suc j)
    then obtain c4 where 2: "watch_run c (take j ss) w2 = (w1, c4)" "c1 = c2 @ c4"
      using Cons.prems(2) 1(1) by (auto split: prod.splits)
    then show ?thesis using Cons.IH [OF 1(2)] 1(3) by auto
  qed (use Cons.prems(2) in simp)
qed simp

lemma new_sound: "sound (wt_registry (watch_new t))" "own_pollers (watch_new t)"
  using keyed_new [of t]
  by (simp_all add: sound_def reg_mount_def reg_transfer_def watch_new_def registry_default_def own_pollers_def)

text \<open>
  The watcher keeps a reading only of a mount it polls: every reading is filed under the name it
  speaks of, and there is none for a mount that is not listed as mounted or is not the service's own.
\<close>

theorem readings_are_of_polled_mounts:
  assumes "list_all (step_agrees c) ss" "watch_run c ss (watch_new t) = (w, cs)"
    "reg_transfer n (wt_registry w) = Some view"
  shows "tv_mount view = n \<and> n \<in> set (pollable (wt_registry w))
    \<and> (\<exists>v. reg_mount n (wt_registry w) = Some v \<and> mv_name v = n \<and> mv_managed v)"
proof -
  have s: "sound (wt_registry w)"
    using run_leads [OF assms(1,2) new_sound(2)] leads_sound new_sound(1) by blast
  then have n: "tv_mount view = n" "n \<in> set (pollable (wt_registry w))" using assms(3) by (simp_all add: sound_def)
  obtain v where v: "reg_mount n (wt_registry w) = Some v" "pollable_view v"
    using n(2) pollable_get [of "wt_registry w" n] s by (auto simp: sound_def)
  moreover have "mv_managed v" using s v by (simp add: sound_def)
  moreover have "mv_name v = n" using s v(1) by (auto simp: sound_def keyed_def keyed_rows_def reg_mount_def)
  ultimately show ?thesis using n by blast
qed

text \<open>
  A tray that subscribes, then lists the mounts, then reads each of them, while the service goes on
  sweeping and polling, and afterwards applies every change published since it subscribed - those
  the listing already showed included - ends up with what the service knows.
\<close>

lemma watcher_catch_up:
  fixes info m
  assumes "list_all (step_agrees c) (ss0 @ ss1 @ ss2)" "watch_run c ss0 (watch_new t) = (w0, c0)"
    "watch_run c ss1 w0 = (w1, c1)" "watch_run c ss2 w1 = (w2, c2)"
    and later: "later = (\<lambda>n. wt_registry (fst (watch_run c (take (b n) ss2) w1)))"
  defines "m' \<equiv> foldl tray_follow
    (attached info (list_mounts (wt_registry w1)) (handed_readings c later (list_mounts (wt_registry w1))) m) (c1 @ c2)"
  shows "shows_service (wt_registry w2) m' \<and> (\<forall>n. shows_name (wt_registry w2) m' n)"
proof -
  have agree: "list_all (step_agrees c) ss0" "list_all (step_agrees c) ss1" "list_all (step_agrees c) ss2"
    using assms(1) by simp_all
  have 0: "leads (wt_registry (watch_new t)) (wt_registry w0) c0" "own_pollers w0"
    using run_leads [OF agree(1) assms(2) new_sound(2)] by simp_all
  have 1: "leads (wt_registry w0) (wt_registry w1) c1" "own_pollers w1"
    using run_leads [OF agree(2) assms(3) 0(2)] by simp_all
  have 2: "leads (wt_registry w1) (wt_registry w2) c2" using run_leads [OF agree(3) assms(4) 1(2)] by simp
  have "\<exists>d. leads (wt_registry w1) (later n) d \<and> set d \<subseteq> set c2" for n
  proof -
    let ?run = "watch_run c (take (b n) ss2) w1"
    have run: "?run = (fst ?run, snd ?run)" by simp
    have "list_all (step_agrees c) (take (b n) ss2)" using agree(3) by (auto simp: list_all_iff dest: in_set_takeD)
    then have "leads (wt_registry w1) (later n) (snd ?run)" unfolding later using run_leads [OF _ run 1(2)] by simp
    then show ?thesis using run_split [OF assms(4) run] by blast
  qed
  then show ?thesis
    unfolding m'_def list_mounts_def using catch_up [OF leads_sound [OF 0(1) new_sound(1)] 1(1) 2] by blast
qed

section \<open>Three streams of signals\<close>

text \<open>
  Each kind of signal has a stream of its own, read in order; which stream is read next is
  anybody's choice when several have something.
\<close>

datatype stream = States | Removals | Transfers | Properties

fun stream_of :: "change \<Rightarrow> stream" where
  "stream_of (MountChange _) = States"
| "stream_of (Removed _) = Removals"
| "stream_of (TransferChange _) = Transfers"
| "stream_of CapabilityTier = Properties"

definition delivers :: "change list \<Rightarrow> change list \<Rightarrow> bool" where
  "delivers cs ds =
     list_all (\<lambda>s. filter (\<lambda>c. stream_of c = s) ds = filter (\<lambda>c. stream_of c = s) cs)
       [States, Removals, Transfers, Properties]"

lemma delivers_stream: "delivers cs ds \<Longrightarrow> filter (\<lambda>c. stream_of c = s) ds = filter (\<lambda>c. stream_of c = s) cs"
  by (cases s) (simp_all add: delivers_def)

lemma delivers_set:
  assumes "delivers cs ds"
  shows "set ds = set cs"
proof -
  have "c \<in> set ds \<longleftrightarrow> c \<in> set cs" for c
    using arg_cong [OF delivers_stream [OF assms, of "stream_of c"], of "\<lambda>xs. c \<in> set xs"] by simp
  then show ?thesis by blast
qed

lemma find_rev_filter: "(\<And>x. x \<in> set xs \<Longrightarrow> P x \<Longrightarrow> Q x) \<Longrightarrow> find P (rev (filter Q xs)) = find P (rev xs)"
  by (induction xs rule: rev_induct) auto

text \<open>A name that is not both taken away and otherwise spoken of; and that there is no other.\<close>

definition calm :: "string \<Rightarrow> change list \<Rightarrow> bool" where
  "calm n cs =
     (if Removed n \<in> set cs then list_all (\<lambda>d. if writes_row n d \<or> writes_reading n d then d = Removed n else True) cs
      else True)"

definition untangled :: "change list \<Rightarrow> bool" where
  "untangled cs =
     list_all (\<lambda>c. case c of
         Removed n \<Rightarrow> list_all (\<lambda>d. (writes_row n d \<or> writes_reading n d) \<longrightarrow> d = Removed n) cs
       | _ \<Rightarrow> True) cs"

lemma untangled_calm: "untangled cs \<Longrightarrow> calm n cs"
  unfolding untangled_def calm_def list_all_iff by (auto dest: bspec)

lemma same_last_word:
  assumes "delivers cs ds" "calm n cs"
    and P: "\<And>c. P c \<longleftrightarrow> c = Removed n \<or> stream_of c = s \<and> P c" "\<And>c. P c \<Longrightarrow> writes_row n c \<or> writes_reading n c"
  shows "find P (rev ds) = find P (rev cs)"
proof (cases "Removed n \<in> set cs")
  case True
  have alone: "list_all (\<lambda>d. (writes_row n d \<or> writes_reading n d) \<longrightarrow> d = Removed n) cs"
  proof -
    have "list_all (\<lambda>d. if writes_row n d \<or> writes_reading n d then d = Removed n else True) cs"
      using assms(2) True by (simp only: calm_def if_True)
    then show ?thesis unfolding list_all_iff by meson
  qed
  have only: "P c \<longleftrightarrow> c = Removed n" if "c \<in> set cs" for c
  proof
    assume "P c"
    then have "writes_row n c \<or> writes_reading n c" by (rule P(2))
    then show "c = Removed n" using that alone unfolding list_all_iff by blast
  next
    assume "c = Removed n"
    then show "P c" using P(1) [of c, THEN iffD2] by blast
  qed
  have "find P (rev xs) = Some (Removed n)" if "set xs = set cs" for xs
  proof (cases "find P (rev xs)")
    case None
    then have "\<not> P (Removed n)" using True that unfolding find_None_iff by simp
    then show ?thesis using P(1) [THEN iffD2] by blast
  next
    case (Some c)
    then have "P c" "c \<in> set xs" using find_SomeD by fastforce+
    then show ?thesis using only that Some by simp
  qed
  then show ?thesis using delivers_set [OF assms(1)] by simp
next
  case False
  have "find P (rev xs) = find P (rev (filter (\<lambda>c. stream_of c = s) xs))" if "set xs = set cs" for xs
  proof (rule find_rev_filter [symmetric])
    fix c assume "c \<in> set xs" "P c"
    then show "stream_of c = s" using that False P(1) [THEN iffD1] by blast
  qed
  then show ?thesis using delivers_set [OF assms(1)] delivers_stream [OF assms(1)] by simp
qed

lemma interleaved:
  assumes "delivers cs ds" "calm n cs"
  shows "find (writes_row n) (rev ds) = find (writes_row n) (rev cs)"
    and "find (writes_reading n) (rev ds) = find (writes_reading n) (rev cs)"
proof -
  show "find (writes_row n) (rev ds) = find (writes_row n) (rev cs)"
  proof (rule same_last_word [OF assms, where s = States])
    show "writes_row n c \<longleftrightarrow> c = Removed n \<or> stream_of c = States \<and> writes_row n c" for c
      by (cases c) (auto simp: writes_row_def)
  qed simp
  show "find (writes_reading n) (rev ds) = find (writes_reading n) (rev cs)"
  proof (rule same_last_word [OF assms, where s = Transfers])
    show "writes_reading n c \<longleftrightarrow> c = Removed n \<or> stream_of c = Transfers \<and> writes_reading n c" for c
      by (cases c) (auto simp: writes_reading_def)
  qed simp
qed

lemma interleaved_follow:
  assumes "delivers cs ds" "untangled cs" "bt_wf (fo_mounts m)"
  shows "fo_mounts (foldl follow m ds) = fo_mounts (foldl follow m cs)"
    and "bt_get n (fo_transfers (foldl follow m ds)) = bt_get n (fo_transfers (foldl follow m cs))"
proof -
  show "fo_mounts (foldl follow m ds) = fo_mounts (foldl follow m cs)"
    by (rule bt_ext) (simp_all only: row_after interleaved [OF assms(1) untangled_calm [OF assms(2)]],
      simp_all add: follow_wf assms(3))
  show "bt_get n (fo_transfers (foldl follow m ds)) = bt_get n (fo_transfers (foldl follow m cs))"
    by (simp only: reading_after interleaved [OF assms(1) untangled_calm [OF assms(2)]])
qed

text \<open>
  Which of its streams the tray reads first makes no difference, as long as what it reads
  together does not both take a mount away and otherwise speak of it: it ends with the same rows
  and readings as if it had followed the service in order.
\<close>

theorem streams_may_interleave:
  assumes "delivers cs ds" "untangled cs" "bt_wf (fo_mounts m)"
  shows "fo_mounts (foldl follow m ds) = fo_mounts (foldl follow m cs)
    \<and> bt_get n (fo_transfers (foldl follow m ds)) = bt_get n (fo_transfers (foldl follow m cs))"
  using interleaved_follow [OF assms] by blast

text \<open>
  But a mount that came and went can come back: when a row appears in one sweep and is gone in
  the next before the tray reads either signal, reading the removal first leaves a row the
  service does not have, and the next sweep that does not find the mount publishes nothing about it.
  The row goes when the tray refreshes or attaches anew.
\<close>

theorem a_removed_mount_can_come_back:
  "\<exists>cs ds r m.
     feed.run [Sweep [sample_row Foreign], Sweep []] registry_default = (r, cs)
     \<and> tray_in_step registry_default m \<and> delivers cs ds
     \<and> reg_mounts r = [] \<and> tm_mount_list (foldl tray_follow m cs) = []
     \<and> tm_mount_list (foldl tray_follow m ds) = [sample_row Foreign]
     \<and> observe (Sweep []) r = (r, [])"
proof -
  define m where "m = go_up sample_info [] (tray_new [] False)"
  define cs where "cs = [MountChange (sample_row Foreign), Removed ''m'']"
  define ds where "ds = [Removed ''m'', MountChange (sample_row Foreign)]"
  have run: "feed.run [Sweep [sample_row Foreign], Sweep []] registry_default = (registry_default, cs)"
    by (simp add: observe_def observe_mounts_def registry_default_def sweep_row_def sweep_gone_def sample_row_def
        pollable_view_def mount_view_of_def discovered_def bt_keys_def bt_remove_def Let_def cs_def)
  have step: "tray_in_step registry_default m"
    unfolding tray_in_step_def m_def
    by (rule exI [of _ "\<lparr>fo_mounts = [], fo_transfers = []\<rparr>"])
      (simp add: tray_is_def in_step_def go_up_def collect_mounts_def registry_default_def readings_agree_def)
  have empty: "reg_mounts registry_default = []"
    by (simp add: reg_mounts_def registry_default_def bt_values_def)
  have shown: "tm_mount_list (foldl tray_follow m cs) = []" "tm_mount_list (foldl tray_follow m ds) = [sample_row Foreign]"
    by (simp_all add: cs_def ds_def m_def tray_follow_def upsert_mount_def remove_mount_def go_up_def tray_new_def
        tm_mount_list_def bt_values_def bt_remove_def collect_mounts_def sample_row_def mount_view_of_def
        discovered_def is_some_and_def)
  have "observe (Sweep []) registry_default = (registry_default, [])"
    by (simp add: observe_def observe_mounts_def registry_default_def bt_keys_def)
  moreover have "delivers cs ds" by (simp add: delivers_def cs_def ds_def)
  ultimately show ?thesis using run step empty shown by blast
qed


section \<open>Samples\<close>

definition sample_steps :: "watch_step list" where
  "sample_steps = [Ticked (sample_tick 5)]"

lemma sample_steps_agree: "list_all (step_agrees c) [Ticked (sample_tick t)]"
  by (simp add: step_agrees_def sample_tick_def rows_agree_def)

lemma sample_reading:
  "reg_transfer ''m'' (wt_registry (fst (watch_run c sample_steps (watch_new 0))))
     = Some (transfer_view_of (fst (poll (live_answers None) (connect ''m'' (an_list (live_answers None))))))"
proof -
  have "ts_mount (fst (poll (live_answers None) (connect ''m'' (an_list (live_answers None))))) = ''m''"
    using poll_name(1) [OF prod.collapse [symmetric]] by (simp add: connect_def Let_def)
  then have "tv_mount (transfer_view_of (fst (poll (live_answers None) (connect ''m'' (an_list (live_answers None)))))) = ''m''"
    by (simp add: transfer_view_of_def)
  then show ?thesis
    by (simp add: sample_steps_def tick_def sweep_if_due_def sweep_mounts_def forget_cycled_def watch_new_def
        sample_sweep sample_tick_def poll_due_def sample_pollable keep_pollable_def poll_one_def split_def Let_def
        bt_remove_def bt_get_def is_some_and_def observe_transfer_def note_tier_def reg_transfer_def)
qed

theorem readings_are_of_polled_mounts_witness:
  "''m'' \<in> set (pollable (wt_registry (fst (watch_run config_default sample_steps (watch_new 0)))))"
proof -
  have "list_all (step_agrees config_default) sample_steps" unfolding sample_steps_def by (rule sample_steps_agree)
  then show ?thesis using readings_are_of_polled_mounts [OF _ prod.collapse [symmetric] sample_reading] by blast
qed

theorem streams_may_interleave_witness:
  "fo_mounts (foldl follow \<lparr>fo_mounts = [], fo_transfers = []\<rparr> [Removed ''gone'', MountChange (sample_row Mounted)])
     = fo_mounts (foldl follow \<lparr>fo_mounts = [], fo_transfers = []\<rparr> [MountChange (sample_row Mounted), Removed ''gone''])"
proof -
  let ?cs = "[MountChange (sample_row Mounted), Removed ''gone'']"
  have "delivers ?cs [Removed ''gone'', MountChange (sample_row Mounted)]" by (simp add: delivers_def)
  moreover have "untangled ?cs"
    by (simp add: untangled_def writes_row_def writes_reading_def sample_row_def mount_view_of_def discovered_def)
  moreover have "bt_wf (fo_mounts \<lparr>fo_mounts = [], fo_transfers = []\<rparr>)" by simp
  ultimately show ?thesis using streams_may_interleave by blast
qed

end
