(* ===== verification/Linker.thy ===== *)
theory Linker
  imports Attach Menu
begin

text \<open>
  The tray's linker (crates/tray/src/watch.rs): the task that holds a link to the service open
  across the service's whole lifetime. Its steps are the things it waits for; what the bus and
  the service answer come with them. Waits are in seconds, the time an answer takes in
  milliseconds, or none if it never comes.
\<close>

section \<open>An attempt to attach\<close>

definition and_then :: "'e + 'a \<Rightarrow> ('a \<Rightarrow> 'e + 'b) \<Rightarrow> 'e + 'b" where
  "and_then r k = (case r of Inl e \<Rightarrow> Inl e | Inr x \<Rightarrow> k x)"

text \<open>What the service answers when asked about itself, its mounts and each one's readings.\<close>

record tell_answers =
  sa_interface :: "ipc_error + 32 word"
  sa_service :: "ipc_error + string"
  sa_rclone :: "ipc_error + string"
  sa_tier :: "ipc_error + string"
  sa_mounts :: "ipc_error + mount_view list"
  sa_reading :: "string \<Rightarrow> ipc_error + transfer_view"

definition describe :: "tell_answers \<Rightarrow> link_error + service_info" where
  "describe s =
     and_then (map_sum from_ipc id (sa_interface s)) (\<lambda>interface.
     and_then (map_sum from_ipc id (sa_service s)) (\<lambda>service.
     and_then (map_sum from_ipc id (sa_rclone s)) (\<lambda>rclone.
     and_then (map_sum from_ipc id (sa_tier s)) (\<lambda>tier.
       Inr \<lparr>si_service_version = service, si_interface_version = interface,
            si_rclone_version = rclone, si_capability_tier = tier\<rparr>))))"

type_synonym snapshot = "service_info \<times> mount_view list \<times> transfer_view list"

text \<open>A mount whose reading fails keeps its row.\<close>

definition gather :: "tell_answers \<Rightarrow> link_error + snapshot" where
  "gather s =
     and_then (describe s) (\<lambda>info.
     and_then (map_sum from_ipc id (sa_mounts s)) (\<lambda>mounts.
       Inr (info, mounts,
         concat (map (\<lambda>m. case sa_reading s (mv_name m) of Inr t \<Rightarrow> [t] | Inl _ \<Rightarrow> []) mounts))))"

definition in_time :: "nat \<Rightarrow> nat option \<Rightarrow> link_error + 'a \<Rightarrow> link_error + 'a" where
  "in_time patience took r =
     (case took of Some t \<Rightarrow> if t \<le> patience then r else Inl Silent | None \<Rightarrow> Inl Silent)"

definition attaching :: "nat option \<Rightarrow> link_error + 'a \<Rightarrow> link_error + 'a" where
  "attaching = in_time 10000"

record attach_answers =
  aa_listen :: bus_answers
  aa_listen_took :: "nat option"
  aa_call :: bus_answers
  aa_call_took :: "nat option"
  aa_states :: "zbus_error + unit"
  aa_removals :: "zbus_error + unit"
  aa_transfers :: "zbus_error + unit"
  aa_properties :: "zbus_error + unit"
  aa_tell :: tell_answers
  aa_tell_took :: "nat option"

type_synonym proxy = "string option"

text \<open>Open to the owner on both connections, subscribe to everything, and only then list.\<close>

definition attach :: "attach_answers \<Rightarrow> string \<Rightarrow> link_error + proxy \<times> snapshot" where
  "attach a owner =
     and_then (attaching (aa_listen_took a) (open_owner (aa_listen a) owner)) (\<lambda>_.
     and_then (attaching (aa_call_took a) (open_owner (aa_call a) owner)) (\<lambda>proxy.
     and_then (map_sum from_zbus id (aa_states a)) (\<lambda>_.
     and_then (map_sum from_zbus id (aa_removals a)) (\<lambda>_.
     and_then (map_sum from_zbus id (aa_transfers a)) (\<lambda>_.
     and_then (map_sum from_zbus id (aa_properties a)) (\<lambda>_.
     and_then (attaching (aa_tell_took a) (gather (aa_tell a))) (\<lambda>snap. Inr (proxy, snap))))))))"

section \<open>The linker's state\<close>

text \<open>
  Where it waits: for the bus, for a watch on the name, for the name's owner, for the name to be
  taken, for an attempt on an owner, in a session, or out a back-off with the connections kept
  or dropped. \<open>lk_gone\<close>: whether the tray has shut down; nothing is drawn after that.
\<close>

datatype phase =
    Dialing | Listening | Asking | Unowned | Attaching string | Session
  | Retrying nat | Redialing nat | Ended

record linker =
  lk_phase :: phase
  lk_tray :: tray_model
  lk_proxy :: "proxy option"
  lk_backoff :: backoff
  lk_refresh :: bool
  lk_signals :: "change list"
  lk_gone :: bool

definition linker_new :: linker where
  "linker_new =
     \<lparr>lk_phase = Dialing, lk_tray = tray_new [] False, lk_proxy = None, lk_backoff = backoff_new,
      lk_refresh = False, lk_signals = [], lk_gone = False\<rparr>"

definition edit :: "(tray_model \<Rightarrow> tray_model) \<Rightarrow> linker \<Rightarrow> linker" where
  "edit f L = (if lk_gone L then L else L\<lparr>lk_tray := f (lk_tray L)\<rparr>)"

definition unless_gone :: "(linker \<Rightarrow> linker) \<Rightarrow> linker \<Rightarrow> linker" where
  "unless_gone k L = (if lk_gone L then L\<lparr>lk_phase := Ended\<rparr> else k L)"

definition down_link :: "link_error \<Rightarrow> linker \<Rightarrow> linker" where
  "down_link e L = edit (go_down e) (L\<lparr>lk_proxy := None, lk_signals := []\<rparr>)"

definition wait_as :: "(nat \<Rightarrow> phase) \<Rightarrow> linker \<Rightarrow> linker" where
  "wait_as p L = (case backoff_take (lk_backoff L) of (w, b) \<Rightarrow> L\<lparr>lk_backoff := b, lk_phase := p w\<rparr>)"

definition broken :: "link_error \<Rightarrow> bool" where
  "broken e = (case e of Transport _ \<Rightarrow> True | NoSessionBus _ \<Rightarrow> True | _ \<Rightarrow> False)"

definition give_up :: "link_error \<Rightarrow> linker \<Rightarrow> linker" where
  "give_up e L = unless_gone (wait_as (if broken e then Redialing else Retrying)) (down_link e L)"

definition bus_lost :: "linker \<Rightarrow> linker" where
  "bus_lost L =
     unless_gone (wait_as Redialing)
       (down_link (NoSessionBus (OtherZbus ''the connection to the session bus ended'')) L)"

definition go_to :: "phase \<Rightarrow> linker \<Rightarrow> linker" where
  "go_to p L = L\<lparr>lk_phase := p\<rparr>"

text \<open>What a refresh shows: rows and readings anew, the notice kept.\<close>

definition reread :: "service_info \<Rightarrow> mount_view list \<Rightarrow> transfer_view list \<Rightarrow> tray_model \<Rightarrow> tray_model" where
  "reread info rows readings m = foldl (\<lambda>m t. upsert_transfer t m) (resync info rows m) readings"

section \<open>Its steps\<close>

datatype lk_event =
    Dialed "zbus_error + unit"
  | Listened "zbus_error + unit"
  | Asked "zbus_error + string"
  | Tried attach_answers "change list"
  | Timer
  | Refreshed
  | OwnerChanged
  | StreamEnded
  | Signalled change
  | Delivered change
  | Retold "nat option" tell_answers
  | Reread "nat option" tell_answers
  | RefreshAsked
  | Used action
  | Noted "string option" string "bool option"
  | TrayGone

text \<open>The next signal of a stream, and what is left waiting.\<close>

fun pull :: "stream \<Rightarrow> change list \<Rightarrow> (change \<times> change list) option" where
  "pull s [] = None"
| "pull s (c # q) =
     (if stream_of c = s then Some (c, q) else map_option (map_prod id ((#) c)) (pull s q))"

inductive lk_step :: "linker \<Rightarrow> lk_event \<Rightarrow> linker \<Rightarrow> bool" where
  dialed: "lk_phase L = Dialing \<Longrightarrow> lk_step L (Dialed (Inr ())) (go_to Listening L)"
| dial_failed: "lk_phase L = Dialing \<Longrightarrow>
    lk_step L (Dialed (Inl e)) (unless_gone (wait_as Redialing) (down_link (NoSessionBus e) L))"
| listening: "lk_phase L = Listening \<Longrightarrow> lk_step L (Listened (Inr ())) (go_to Asking L)"
| listen_failed: "lk_phase L = Listening \<Longrightarrow>
    lk_step L (Listened (Inl e)) (wait_as Redialing (down_link (from_zbus e) L))"
| owned: "lk_phase L = Asking \<Longrightarrow> lk_step L (Asked (Inr owner)) (go_to (Attaching owner) L)"
| unowned: "lk_phase L = Asking \<Longrightarrow> name_has_no_owner e \<Longrightarrow>
    lk_step L (Asked (Inl e)) (unless_gone (go_to Unowned) (down_link NotRunning L))"
| ask_failed: "lk_phase L = Asking \<Longrightarrow> \<not> name_has_no_owner e \<Longrightarrow>
    lk_step L (Asked (Inl e)) (unless_gone (wait_as Redialing) (down_link (from_zbus e) L))"
| attach_failed: "lk_phase L = Attaching owner \<Longrightarrow> attach a owner = Inl e \<Longrightarrow>
    lk_step L (Tried a cs) (give_up e L)"
| attached_to: "lk_phase L = Attaching owner \<Longrightarrow> attach a owner = Inr (p, info, rows, readings) \<Longrightarrow>
    lk_step L (Tried a cs)
      (unless_gone (go_to Session) (edit (attached info rows readings)
        (L\<lparr>lk_backoff := backoff_reset (lk_backoff L), lk_proxy := Some p, lk_signals := cs\<rparr>)))"
| retry_timer: "lk_phase L = Retrying w \<Longrightarrow> lk_step L Timer (go_to Asking L)"
| redial_timer: "lk_phase L = Redialing w \<Longrightarrow> lk_step L Timer (go_to Dialing L)"
| retry_refreshed: "lk_phase L = Retrying w \<Longrightarrow> lk_refresh L \<Longrightarrow>
    lk_step L Refreshed (go_to Asking (L\<lparr>lk_refresh := False, lk_backoff := backoff_reset (lk_backoff L)\<rparr>))"
| redial_refreshed: "lk_phase L = Redialing w \<Longrightarrow> lk_refresh L \<Longrightarrow>
    lk_step L Refreshed (go_to Dialing (L\<lparr>lk_refresh := False, lk_backoff := backoff_reset (lk_backoff L)\<rparr>))"
| unowned_refreshed: "lk_phase L = Unowned \<Longrightarrow> lk_refresh L \<Longrightarrow>
    lk_step L Refreshed (go_to Asking (L\<lparr>lk_refresh := False\<rparr>))"
| taken: "lk_phase L = Unowned \<Longrightarrow> lk_step L OwnerChanged (go_to Asking L)"
| retry_owner: "lk_phase L = Retrying w \<Longrightarrow> lk_step L OwnerChanged (go_to Asking L)"
| handed_over: "lk_phase L = Session \<Longrightarrow>
    lk_step L OwnerChanged
      (unless_gone (go_to Asking) (edit go_connecting (L\<lparr>lk_proxy := None, lk_signals := []\<rparr>)))"
| session_ended: "lk_phase L = Session \<Longrightarrow> lk_step L StreamEnded (bus_lost L)"
| unowned_ended: "lk_phase L = Unowned \<Longrightarrow> lk_step L StreamEnded (bus_lost L)"
| retry_ended: "lk_phase L = Retrying w \<Longrightarrow> lk_step L StreamEnded (bus_lost L)"
| signalled: "lk_phase L = Session \<Longrightarrow> lk_step L (Signalled c) (L\<lparr>lk_signals := lk_signals L @ [c]\<rparr>)"
| delivered: "lk_phase L = Session \<Longrightarrow> pull (stream_of c) (lk_signals L) = Some (c, q) \<Longrightarrow> c \<noteq> CapabilityTier \<Longrightarrow>
    lk_step L (Delivered c) (unless_gone id (edit (\<lambda>m. tray_follow m c) (L\<lparr>lk_signals := q\<rparr>)))"
| retold: "lk_phase L = Session \<Longrightarrow> pull Properties (lk_signals L) = Some (CapabilityTier, q) \<Longrightarrow>
    attaching took (describe a) = Inr info \<Longrightarrow>
    lk_step L (Retold took a) (unless_gone id (edit (restate info) (L\<lparr>lk_signals := q\<rparr>)))"
| retell_failed: "lk_phase L = Session \<Longrightarrow> pull Properties (lk_signals L) = Some (CapabilityTier, q) \<Longrightarrow>
    attaching took (describe a) = Inl e \<Longrightarrow> lk_step L (Retold took a) (give_up e L)"
| reread_ok: "lk_phase L = Session \<Longrightarrow> lk_refresh L \<Longrightarrow>
    attaching took (gather a) = Inr (info, rows, readings) \<Longrightarrow>
    lk_step L (Reread took a) (unless_gone id (edit (reread info rows readings) (L\<lparr>lk_refresh := False\<rparr>)))"
| reread_failed: "lk_phase L = Session \<Longrightarrow> lk_refresh L \<Longrightarrow> attaching took (gather a) = Inl e \<Longrightarrow>
    lk_step L (Reread took a) (give_up e (L\<lparr>lk_refresh := False\<rparr>))"
| refresh_asked: "lk_step L RefreshAsked (L\<lparr>lk_refresh := True\<rparr>)"
| used: "lk_step L (Used a) (edit (act a) L)"
| noted: "lk_step L (Noted mount text wanted) (edit (set_notice mount text wanted) L)"
| tray_gone: "lk_step L TrayGone (L\<lparr>lk_gone := True\<rparr>)"

code_pred (modes: i \<Rightarrow> i \<Rightarrow> o \<Rightarrow> bool) lk_step .

section \<open>Runs of a machine\<close>

inductive run_of :: "('s \<Rightarrow> 'e \<Rightarrow> 's \<Rightarrow> bool) \<Rightarrow> 's \<Rightarrow> 'e list \<Rightarrow> 's \<Rightarrow> bool" for step where
  stay: "run_of step s [] s"
| more: "run_of step s es s' \<Longrightarrow> step s' e s'' \<Longrightarrow> run_of step s (es @ [e]) s''"

inductive_cases run_of_snoc: "run_of step s (es @ [e]) s'"

lemma run_of_append: "run_of step t fs u \<Longrightarrow> run_of step s es t \<Longrightarrow> run_of step s (es @ fs) u"
  by (induction rule: run_of.induct) (auto intro: run_of.more simp flip: append_assoc)

lemma run_of_one: "step s e t \<Longrightarrow> run_of step s [e] t"
  using more [OF stay] by simp

text \<open>What every step keeps, every run keeps.\<close>

locale kept =
  fixes step :: "'s \<Rightarrow> 'e \<Rightarrow> 's \<Rightarrow> bool" and inv :: "'s \<Rightarrow> bool"
  assumes kept_step: "step s e t \<Longrightarrow> inv s \<Longrightarrow> inv t"
begin

lemma kept_run: "run_of step s es t \<Longrightarrow> inv s \<Longrightarrow> inv t"
  by (induction rule: run_of.induct) (auto intro: kept_step)

end

text \<open>A step that costs is paid for, by an event that pays or out of what the state has in hand.\<close>

locale paid = kept +
  fixes cost :: "'b \<Rightarrow> nat" and pays :: "'b \<Rightarrow> nat" and purse :: "'a \<Rightarrow> nat"
  assumes paid_step: "step s e t \<Longrightarrow> inv s \<Longrightarrow> cost e + purse t \<le> pays e + purse s"
begin

lemma paid_run:
  "run_of step s es t \<Longrightarrow> inv s \<Longrightarrow> sum_list (map cost es) + purse t \<le> sum_list (map pays es) + purse s"
proof (induction rule: run_of.induct)
  case (more s es t e u)
  then show ?case using paid_step [OF more.hyps(2) kept_run [OF more.hyps(1)]] by simp
qed simp

end

abbreviation lk_runs :: "linker \<Rightarrow> lk_event list \<Rightarrow> linker \<Rightarrow> bool" where
  "lk_runs \<equiv> run_of lk_step"

lemmas lk_more = run_of.more [where step = lk_step]
lemmas lk_one = run_of_one [where step = lk_step]

section \<open>Nothing is shown without a session\<close>

lemma edit_simps [simp]:
  "lk_gone (edit f L) = lk_gone L" "lk_phase (edit f L) = lk_phase L" "lk_proxy (edit f L) = lk_proxy L"
  "lk_backoff (edit f L) = lk_backoff L" "lk_refresh (edit f L) = lk_refresh L" "lk_signals (edit f L) = lk_signals L"
  "lk_tray (edit f L) = (if lk_gone L then lk_tray L else f (lk_tray L))"
  by (simp_all add: edit_def)

lemma down_simps [simp]:
  "lk_gone (down_link e L) = lk_gone L" "lk_phase (down_link e L) = lk_phase L" "lk_proxy (down_link e L) = None"
  "lk_backoff (down_link e L) = lk_backoff L" "lk_refresh (down_link e L) = lk_refresh L"
  "lk_signals (down_link e L) = []"
  "lk_tray (down_link e L) = (if lk_gone L then lk_tray L else go_down e (lk_tray L))"
  by (simp_all add: down_link_def)

text \<open>What the tray holds without a session: no row, no reading, and a link that is not up.\<close>

definition holds_nothing :: "tray_model \<Rightarrow> bool" where
  "holds_nothing m =
     (tm_mounts m = [] \<and> tm_transfers m = [] \<and> (case tm_link m of Up _ \<Rightarrow> False | _ \<Rightarrow> True))"

definition link_up :: "tray_model \<Rightarrow> bool" where
  "link_up m = (case tm_link m of Up _ \<Rightarrow> True | _ \<Rightarrow> False)"

lemma holds_nothing_simps [simp]:
  "holds_nothing (go_down e m)" "holds_nothing (go_connecting m)" "holds_nothing (tray_new q b)"
  "holds_nothing (act a m) = holds_nothing m" "holds_nothing (set_notice n t w m) = holds_nothing m"
  by (simp_all add: holds_nothing_def go_down_def go_connecting_def tray_new_def act_def set_notice_def Let_def)

lemma link_up_upserts: "link_up (foldl (\<lambda>m t. upsert_transfer t m) m ts) = link_up m"
  by (induction ts arbitrary: m) (simp_all add: link_up_def upsert_transfer_def)

lemma link_up_simps [simp]:
  "link_up (attached info rows readings m)" "link_up (reread info rows readings m)" "link_up (tray_follow m c) = link_up m"
  "link_up (restate info m) = link_up m" "link_up (act a m) = link_up m" "link_up (set_notice n t w m) = link_up m"
  by (simp_all add: attached_def reread_def link_up_upserts)
    (auto simp: link_up_def go_up_def resync_def tray_follow_def upsert_mount_def remove_mount_def
      upsert_transfer_def restate_def act_def set_notice_def Let_def split: change.split link.split)

definition linker_ok :: "linker \<Rightarrow> bool" where
  "linker_ok L =
     (lk_gone L
      \<or> lk_phase L \<noteq> Ended
        \<and> (if lk_phase L = Session then link_up (lk_tray L) \<and> lk_proxy L \<noteq> None
           else holds_nothing (lk_tray L) \<and> lk_proxy L = None \<and> lk_signals L = []))"

lemma wait_simps [simp]:
  "lk_gone (wait_as p L) = lk_gone L" "lk_tray (wait_as p L) = lk_tray L" "lk_proxy (wait_as p L) = lk_proxy L"
  "lk_signals (wait_as p L) = lk_signals L" "lk_phase (wait_as p L) = p (bo_next (lk_backoff L))"
  by (simp_all add: wait_as_def backoff_take_def Let_def)

lemma go_to_simps [simp]:
  "lk_gone (go_to p L) = lk_gone L" "lk_tray (go_to p L) = lk_tray L" "lk_proxy (go_to p L) = lk_proxy L"
  "lk_signals (go_to p L) = lk_signals L" "lk_phase (go_to p L) = p" "lk_backoff (go_to p L) = lk_backoff L"
  "lk_refresh (go_to p L) = lk_refresh L"
  by (simp_all add: go_to_def)

lemma step_ok: "lk_step L e L' \<Longrightarrow> linker_ok L \<Longrightarrow> linker_ok L'"
  by (induction rule: lk_step.induct)
    (auto simp: linker_ok_def unless_gone_def give_up_def bus_lost_def)

interpretation shown: kept lk_step linker_ok
  by unfold_locales (rule step_ok)

lemma new_ok: "linker_ok linker_new"
  by (simp add: linker_ok_def linker_new_def)


text \<open>What an event was refused with, and the events a waiting linker stays as it is over.\<close>

fun failure :: "linker \<Rightarrow> lk_event \<Rightarrow> link_error option" where
  "failure L (Dialed (Inl e)) = Some (NoSessionBus e)"
| "failure L (Listened (Inl e)) = Some (from_zbus e)"
| "failure L (Asked (Inl e)) = Some (if name_has_no_owner e then NotRunning else from_zbus e)"
| "failure L (Tried a cs) =
     (case lk_phase L of Attaching owner \<Rightarrow> (case attach a owner of Inl e \<Rightarrow> Some e | Inr _ \<Rightarrow> None) | _ \<Rightarrow> None)"
| "failure L StreamEnded = Some (NoSessionBus (OtherZbus ''the connection to the session bus ended''))"
| "failure L (Retold took a) = (case attaching took (describe a) of Inl e \<Rightarrow> Some e | Inr _ \<Rightarrow> None)"
| "failure L (Reread took a) = (case attaching took (gather a) of Inl e \<Rightarrow> Some e | Inr _ \<Rightarrow> None)"
| "failure L _ = None"

fun passes_by :: "lk_event \<Rightarrow> bool" where
  "passes_by RefreshAsked = True"
| "passes_by (Used _) = True"
| "passes_by (Noted _ _ _) = True"
| "passes_by _ = False"

definition waiting :: "linker \<Rightarrow> bool" where
  "waiting L = (case lk_phase L of Unowned \<Rightarrow> True | Retrying _ \<Rightarrow> True | Redialing _ \<Rightarrow> True | _ \<Rightarrow> False)"

lemma link_kept: "tm_link (act a m) = tm_link m" "tm_link (set_notice n t w m) = tm_link m"
  by (simp_all add: act_def set_notice_def Let_def)

lemma waiting_step:
  assumes "lk_step L e L'" "\<not> lk_gone L'" "waiting L'"
  shows "(\<exists>err. failure L e = Some err \<and> tm_link (lk_tray L') = Down (down_from_error err))
    \<or> passes_by e \<and> waiting L \<and> \<not> lk_gone L \<and> tm_link (lk_tray L') = tm_link (lk_tray L)"
  using assms
  by (induction rule: lk_step.induct)
    (auto simp: waiting_def unless_gone_def give_up_def bus_lost_def go_down_def link_kept split: if_splits)

text \<open>A linker that waits shows the reason of the very failure it waits after.\<close>

lemma waiting_says_why:
  assumes "lk_runs linker_new es L" "\<not> lk_gone L" "waiting L"
  shows "\<exists>before_it e after_it L0 err. es = before_it @ e # after_it \<and> lk_runs linker_new before_it L0
    \<and> failure L0 e = Some err \<and> list_all passes_by after_it \<and> tm_link (lk_tray L) = Down (down_from_error err)"
  using assms
proof (induction es arbitrary: L rule: rev_induct)
  case Nil
  from Nil(1) have "L = linker_new" by (cases rule: run_of.cases) simp_all
  then show ?case using Nil(3) by (simp add: waiting_def linker_new_def)
next
  case (snoc e es)
  from snoc.prems(1) obtain L1 where run: "lk_runs linker_new es L1" and step: "lk_step L1 e L"
    by (auto elim: run_of_snoc)
  from waiting_step [OF step snoc.prems(2,3)] show ?case
  proof
    assume "\<exists>err. failure L1 e = Some err \<and> tm_link (lk_tray L) = Down (down_from_error err)"
    then show ?thesis using run by (intro exI [of _ es] exI [of _ e] exI [of _ "[]"]) auto
  next
    assume w: "passes_by e \<and> waiting L1 \<and> \<not> lk_gone L1 \<and> tm_link (lk_tray L) = tm_link (lk_tray L1)"
    with snoc.IH [OF run] obtain b x a L0 err where "es = b @ x # a" "lk_runs linker_new b L0"
        "failure L0 x = Some err" "list_all passes_by a" "tm_link (lk_tray L1) = Down (down_from_error err)"
      by blast
    then show ?thesis using w by (intro exI [of _ b] exI [of _ x] exI [of _ "a @ [e]"]) auto
  qed
qed

text \<open>
  C20: Nothing is shown that a live session did not say: in every state the linker can get to with
  the tray still there, either it is in a session, with the link up and a proxy for the menu's
  actions, or the tray holds no row and no reading, its icon speaks of the link and not of
  mounts, and no action can be sent. Where it waits, for the service's name or out a back-off, the
  link says what the last thing to fail failed with, and nothing but the user's clicks and the
  notices of earlier ones has happened since. And the linker ends only when the tray has.
\<close>

theorem nothing_is_shown_without_a_session:
  assumes "lk_runs linker_new es L" "\<not> lk_gone L"
  shows "(lk_phase L = Session \<longleftrightarrow> lk_proxy L \<noteq> None)
    \<and> (lk_phase L = Session \<longleftrightarrow> state_of (lk_tray L) \<notin> {StConnecting, Disconnected})
    \<and> (lk_phase L \<noteq> Session \<longrightarrow> tm_mount_list (lk_tray L) = [] \<and> (\<forall>n. tm_transfer n (lk_tray L) = None))
    \<and> (waiting L \<longrightarrow> (\<exists>before_it e after_it L0 err. es = before_it @ e # after_it
         \<and> lk_runs linker_new before_it L0 \<and> failure L0 e = Some err \<and> list_all passes_by after_it
         \<and> tm_link (lk_tray L) = Down (down_from_error err)))
    \<and> lk_phase L \<noteq> Ended"
proof -
  note why = waiting_says_why [OF assms]
  have ok: "linker_ok L" by (rule shown.kept_run [OF assms(1) new_ok])
  have state: "state_of m \<in> {StConnecting, Disconnected} \<longleftrightarrow> \<not> link_up m" for m
    by (cases "tm_link m") (auto simp: state_of_def link_up_def Let_def)
  have blank: "\<not> link_up m \<and> tm_mount_list m = [] \<and> (\<forall>n. tm_transfer n m = None)" if "holds_nothing m" for m
    using that by (auto simp: holds_nothing_def link_up_def tm_mount_list_def bt_values_def tm_transfer_def split: link.splits)
  show ?thesis
  proof (cases "lk_phase L = Session")
    case True
    then show ?thesis using ok assms(2) state [of "lk_tray L"] by (auto simp: linker_ok_def waiting_def)
  next
    case False
    then have h: "holds_nothing (lk_tray L)" and rest: "lk_proxy L = None" "lk_phase L \<noteq> Ended"
      using ok assms(2) by (simp_all add: linker_ok_def)
    from blank [OF h] have "\<not> link_up (lk_tray L)" "tm_mount_list (lk_tray L) = []" "\<forall>n. tm_transfer n (lk_tray L) = None"
      by blast+
    then show ?thesis using rest False why unfolding state by simp
  qed
qed

section \<open>Attempts are paid for\<close>

fun asks :: "lk_event \<Rightarrow> bool" where
  "asks (Asked _) = True" | "asks _ = False"

fun wakes :: "lk_event \<Rightarrow> bool" where
  "wakes Timer = True" | "wakes Refreshed = True" | "wakes OwnerChanged = True" | "wakes _ = False"

definition on_its_way :: "linker \<Rightarrow> bool" where
  "on_its_way L = (lk_phase L \<in> {Dialing, Listening, Asking})"

definition waits_ok :: "linker \<Rightarrow> bool" where
  "waits_ok L =
     (1 \<le> bo_next (lk_backoff L) \<and> bo_next (lk_backoff L) \<le> CEILING
      \<and> (case lk_phase L of Retrying w \<Rightarrow> 1 \<le> w \<and> w \<le> CEILING | Redialing w \<Rightarrow> 1 \<le> w \<and> w \<le> CEILING | _ \<Rightarrow> True))"

lemma wait_backoff: "bo_next (lk_backoff (wait_as p L)) = min (bo_next (lk_backoff L) * 2) CEILING"
  by (simp add: wait_as_def backoff_take_def Let_def)

lemma step_waits: "lk_step L e L' \<Longrightarrow> waits_ok L \<Longrightarrow> waits_ok L'"
  by (induction rule: lk_step.induct)
    (auto simp: waits_ok_def unless_gone_def give_up_def bus_lost_def wait_backoff backoff_reset_def FIRST_def CEILING_def)



lemma step_paid:
  "lk_step L e L' \<Longrightarrow> of_bool (asks e) + of_bool (on_its_way L') \<le> (of_bool (wakes e) + of_bool (on_its_way L) :: nat)"
  by (induction rule: lk_step.induct)
    (auto simp: on_its_way_def unless_gone_def give_up_def bus_lost_def)

interpretation pace: paid lk_step waits_ok "\<lambda>e. of_bool (asks e)" "\<lambda>e. of_bool (wakes e)" "\<lambda>L. of_bool (on_its_way L)"
  by unfold_locales (erule (1) step_waits, erule step_paid)

lemma count_of_bool: "sum_list (map (\<lambda>e. of_bool (P e)) es) = length (filter P es)"
  by (induction es) simp_all

text \<open>
  C35: The linker never spins: over any run it asks for the name's owner at most once more than it
  was woken - by a back-off that ran out, by the user, or by the name changing hands - and every
  back-off it waits out lasts between a second and a minute.
\<close>

theorem attempts_are_paced:
  assumes "lk_runs linker_new es L"
  shows "length (filter asks es) \<le> length (filter wakes es) + 1
    \<and> (case lk_phase L of Retrying w \<Rightarrow> 1 \<le> w \<and> w \<le> 60 | Redialing w \<Rightarrow> 1 \<le> w \<and> w \<le> 60 | _ \<Rightarrow> True)"
proof -
  have new: "waits_ok linker_new" by (simp add: waits_ok_def linker_new_def backoff_new_def FIRST_def CEILING_def)
  have "length (filter asks es) + of_bool (on_its_way L) \<le> length (filter wakes es) + of_bool (on_its_way linker_new)"
    using pace.paid_run [OF assms new] by (simp only: count_of_bool)
  then have "length (filter asks es) \<le> length (filter wakes es) + 1" by (auto simp: of_bool_def split: if_splits)
  moreover have "waits_ok L" by (rule pace.kept_run [OF assms new])
  ultimately show ?thesis by (auto simp: waits_ok_def CEILING_def split: phase.splits)
qed

section \<open>A good answer attaches\<close>

text \<open>The service answers every question it is asked, and the name has an owner.\<close>

definition good_answers :: "attach_answers \<Rightarrow> snapshot \<Rightarrow> bool" where
  "good_answers a snap = (\<forall>owner. \<exists>p. attach a owner = Inr (p, snap))"

fun cooperates :: "attach_answers \<Rightarrow> lk_event \<Rightarrow> bool" where
  "cooperates a Timer = True"
| "cooperates a OwnerChanged = True"
| "cooperates a (Dialed (Inr ())) = True"
| "cooperates a (Listened (Inr ())) = True"
| "cooperates a (Asked (Inr owner)) = True"
| "cooperates a (Tried b cs) = (b = a \<and> cs = [])"
| "cooperates a _ = False"

definition gets_through :: "attach_answers \<Rightarrow> snapshot \<Rightarrow> nat \<Rightarrow> linker \<Rightarrow> bool" where
  "gets_through a snap k L =
     (\<exists>es L'. lk_runs L es L' \<and> length es \<le> k \<and> (\<forall>e \<in> set es. cooperates a e) \<and> lk_phase L' = Session
        \<and> lk_tray L' = (case snap of (info, rows, readings) \<Rightarrow> attached info rows readings (lk_tray L)))"

lemma gets_through_step:
  assumes "lk_step L e L1" "cooperates a e" "lk_tray L1 = lk_tray L" "gets_through a snap k L1"
  shows "gets_through a snap (Suc k) L"
proof -
  obtain es L' where "lk_runs L1 es L'" "length es \<le> k" "\<forall>e \<in> set es. cooperates a e" "lk_phase L' = Session"
      "lk_tray L' = (case snap of (info, rows, readings) \<Rightarrow> attached info rows readings (lk_tray L))"
    using assms(3,4) by (auto simp: gets_through_def)
  moreover have "lk_runs L ([e] @ es) L'"
    using run_of_append [OF calculation(1) run_of_one] assms(1) by blast
  ultimately show ?thesis
    using assms(2) unfolding gets_through_def by (intro exI [of _ "[e] @ es"] exI [of _ L']) auto
qed

lemma through_attaching:
  assumes "good_answers a snap" "\<not> lk_gone L" "lk_phase L = Attaching owner"
  shows "gets_through a snap 1 L"
proof -
  obtain p info rows readings where p: "attach a owner = Inr (p, info, rows, readings)" "snap = (info, rows, readings)"
    using assms(1) unfolding good_answers_def by (metis prod_cases3)
  have "lk_runs L [Tried a []] (go_to Session (edit (attached info rows readings)
      (L\<lparr>lk_backoff := backoff_reset (lk_backoff L), lk_proxy := Some p, lk_signals := []\<rparr>)))"
    using lk_one [OF attached_to [OF assms(3) p(1), of "[]"]] assms(2) by (simp add: unless_gone_def)
  then show ?thesis
    using assms(2) p(2) unfolding gets_through_def by (intro exI conjI) auto
qed

lemma through_asking:
  assumes "good_answers a snap" "\<not> lk_gone L" "lk_phase L = Asking"
  shows "gets_through a snap 2 L"
  using gets_through_step [OF owned [OF assms(3), of "''owner''"] _ _ through_attaching [OF assms(1)]] assms(2)
  by (simp add: numeral_2_eq_2)

lemma through_dialing:
  assumes "good_answers a snap" "\<not> lk_gone L" "lk_phase L = Dialing"
  shows "gets_through a snap 4 L"
proof -
  have "gets_through a snap 3 (go_to Listening L)"
    using gets_through_step [OF listening _ _ through_asking [OF assms(1)], of "go_to Listening L"] assms(2)
    by (simp add: numeral_3_eq_3 numeral_2_eq_2)
  then show ?thesis using gets_through_step [OF dialed [OF assms(3)]] by (simp add: eval_nat_numeral)
qed

text \<open>
  C34: No outage is for good: from wherever the linker has got to, while the tray is there and not
  in a session, the bus coming back, the name having an owner and the service answering - after
  the back-off it is in, or a change of the name's owner - is enough for it to be in a session
  within five steps, showing the rows and readings the service listed.
\<close>

theorem a_good_answer_attaches:
  assumes "lk_runs linker_new es0 L" "\<not> lk_gone L" "lk_phase L \<noteq> Session" "good_answers a snap"
  shows "gets_through a snap 5 L"
proof -
  have mono: "gets_through a snap k L \<Longrightarrow> k \<le> 5 \<Longrightarrow> gets_through a snap 5 L" for k L
    unfolding gets_through_def by (meson le_trans)
  have "linker_ok L" by (rule shown.kept_run [OF assms(1) new_ok])
  then have "lk_phase L \<noteq> Ended" using assms(2) by (simp add: linker_ok_def)
  then show ?thesis
  proof (cases "lk_phase L")
    case (Redialing w)
    have "gets_through a snap 4 (go_to Dialing L)" using assms(2) by (intro through_dialing [OF assms(4)]) simp_all
    then show ?thesis using gets_through_step [OF redial_timer [OF Redialing]] by (simp add: eval_nat_numeral)
  next
    case Dialing
    then show ?thesis using mono [OF through_dialing [OF assms(4,2)]] by simp
  next
    case Listening
    have "gets_through a snap 2 (go_to Asking L)" using assms(2) by (intro through_asking [OF assms(4)]) simp_all
    then have "gets_through a snap 3 L"
      using gets_through_step [OF listening [OF Listening]] by (simp add: eval_nat_numeral)
    then show ?thesis using mono by simp
  next
    case Asking
    then show ?thesis using mono [OF through_asking [OF assms(4,2)]] by simp
  next
    case (Attaching owner)
    then show ?thesis using mono [OF through_attaching [OF assms(4,2)]] by simp
  next
    case Unowned
    have "gets_through a snap 2 (go_to Asking L)" using assms(2) by (intro through_asking [OF assms(4)]) simp_all
    then have "gets_through a snap 3 L"
      using gets_through_step [OF taken [OF Unowned]] by (simp add: eval_nat_numeral)
    then show ?thesis using mono by simp
  next
    case (Retrying w)
    have "gets_through a snap 2 (go_to Asking L)" using assms(2) by (intro through_asking [OF assms(4)]) simp_all
    then have "gets_through a snap 3 L"
      using gets_through_step [OF retry_timer [OF Retrying]] by (simp add: eval_nat_numeral)
    then show ?thesis using mono by simp
  qed (use assms(3) in simp_all)
qed


section \<open>A session follows the service\<close>

text \<open>The events of a session that neither refreshes nor ends, what they bring and what is read.\<close>

fun follows :: "lk_event \<Rightarrow> bool" where
  "follows (Signalled _) = True"
| "follows (Delivered _) = True"
| "follows (Retold _ _) = True"
| "follows _ = False"

fun heard :: "lk_event \<Rightarrow> change list" where
  "heard (Signalled c) = [c]" | "heard _ = []"

fun told :: "lk_event \<Rightarrow> change list" where
  "told (Delivered c) = [c]" | "told (Retold _ _) = [CapabilityTier]" | "told _ = []"

definition all_heard :: "lk_event list \<Rightarrow> change list" where
  "all_heard es = concat (map heard es)"

definition all_told :: "lk_event list \<Rightarrow> change list" where
  "all_told es = concat (map told es)"

lemma pull_stream:
  "pull s q = Some (c, q') \<Longrightarrow> stream_of c = s
     \<and> filter (\<lambda>x. stream_of x = k) q = (if k = s then [c] else []) @ filter (\<lambda>x. stream_of x = k) q'"
proof (induction q arbitrary: q')
  case (Cons d q)
  show ?case
  proof (cases "stream_of d = s")
    case False
    then obtain q'' where q: "pull s q = Some (c, q'')" "q' = d # q''" using Cons.prems by auto
    then show ?thesis using Cons.IH [OF q(1)] False by auto
  qed (use Cons.prems in auto)
qed simp

lemma tray_is_restate [simp]: "tray_is (restate info m) f = tray_is m f"
  by (simp add: tray_is_def restate_def split: link.split)

definition caught_up_to :: "linker \<Rightarrow> follower \<Rightarrow> change list \<Rightarrow> change list \<Rightarrow> bool" where
  "caught_up_to L f cs ds =
     (\<not> lk_gone L \<and> lk_phase L = Session \<and> tray_is (lk_tray L) (foldl follow f ds)
      \<and> (\<forall>k. filter (\<lambda>x. stream_of x = k) (ds @ lk_signals L) = filter (\<lambda>x. stream_of x = k) cs))"

lemma pull_all:
  assumes "pull s q = Some (c, q')"
  shows "filter (\<lambda>x. stream_of x = k) ((ds @ [c]) @ q') = filter (\<lambda>x. stream_of x = k) (ds @ q)"
  using pull_stream [OF assms, of k] by auto

lemma follow_step:
  assumes "lk_step L e L'" "follows e" "lk_phase L' = Session" "caught_up_to L f cs ds"
  shows "caught_up_to L' f (cs @ heard e) (ds @ told e)"
  using assms(1)
proof (cases rule: lk_step.cases)
  case (delivered c q)
  have "filter (\<lambda>x. stream_of x = k) ((ds @ [c]) @ q) = filter (\<lambda>x. stream_of x = k) cs" for k
    using assms(4) unfolding caught_up_to_def pull_all [OF delivered(4)] by blast
  moreover have "tray_is (lk_tray L') (foldl follow f (ds @ [c]))"
    using assms(4) tray_is_follow [of "lk_tray L"] by (simp add: delivered caught_up_to_def unless_gone_def)
  moreover have "\<not> lk_gone L'" "lk_signals L' = q"
    using assms(4) by (simp_all add: delivered caught_up_to_def unless_gone_def)
  ultimately show ?thesis using assms(3) by (simp add: delivered(1) caught_up_to_def)
next
  case (retold q took a info)
  have "filter (\<lambda>x. stream_of x = k) ((ds @ [CapabilityTier]) @ q) = filter (\<lambda>x. stream_of x = k) cs" for k
    using assms(4) unfolding caught_up_to_def pull_all [OF retold(4)] by blast
  moreover have "tray_is (lk_tray L') (foldl follow f (ds @ [CapabilityTier]))"
    using assms(4) by (simp add: retold caught_up_to_def unless_gone_def)
  moreover have "\<not> lk_gone L'" "lk_signals L' = q"
    using assms(4) by (simp_all add: retold caught_up_to_def unless_gone_def)
  ultimately show ?thesis using assms(3) by (simp add: retold(1) caught_up_to_def)
qed (use assms(2-4) in \<open>auto simp: caught_up_to_def unless_gone_def give_up_def split: if_splits\<close>)

lemma follow_run:
  assumes "lk_runs L es L'" "list_all follows es" "lk_phase L' = Session" "caught_up_to L f cs ds"
  shows "caught_up_to L' f (cs @ all_heard es) (ds @ all_told es)"
  using assms
proof (induction rule: run_of.induct)
  case (more L es L1 e L2)
  have "lk_phase L1 = Session"
    using more.hyps(2) more.prems(1) by (cases rule: lk_step.cases) auto
  then have "caught_up_to L1 f (cs @ all_heard es) (ds @ all_told es)"
    using more by simp
  from follow_step [OF more.hyps(2) _ more.prems(2) this] more.prems(1)
  show ?case by (simp add: all_heard_def all_told_def)
qed (simp add: all_heard_def all_told_def)

lemma attach_told:
  assumes "attach a owner = Inr (p, info, rows, readings)" "sa_mounts (aa_tell a) = Inr rows'"
    "sa_reading (aa_tell a) = (\<lambda>n. get_transfer_state c (later n) n)"
  shows "rows = rows'" "readings = handed_readings c later rows'"
  using assms
  by (auto simp: attach_def and_then_def attaching_def in_time_def gather_def handed_readings_def
      split: sum.splits option.splits if_splits)

lemma shows_same:
  assumes "shows_service r m" "tray_is m f" "tray_is m' f'" "fo_mounts f' = fo_mounts f"
    "\<And>n. bt_get n (fo_transfers f') = bt_get n (fo_transfers f)"
  shows "shows_service r m'"
proof -
  have "tm_transfer n m' = tm_transfer n m" for n
    using assms(2,3,5) by (simp add: tray_is_def tm_transfer_def bt_get_map)
  moreover from this have "keeps_reading r m' v = keeps_reading r m v" for v
    by (cases "reg_transfer (mv_name v) r") (simp_all add: keeps_reading_def)
  moreover have "tm_mount_list m' = tm_mount_list m" using assms(2-4) by (simp add: tray_is_def tm_mount_list_def)
  ultimately show ?thesis using assms(1) by (simp add: shows_service_def list_all_iff)
qed

text \<open>What is drawn is the snapshot with everything heard since, read in some order of the streams.\<close>

lemma session_told:
  assumes "attach a owner = Inr (p, info, rows, readings)" "lk_phase L = Attaching owner" "\<not> lk_gone L"
    "lk_step L (Tried a cs) L1" "lk_runs L1 es L2" "list_all follows es" "lk_phase L2 = Session"
    "lk_signals L2 = []"
  obtains g ds where "tray_is (attached info rows readings (lk_tray L)) g" "bt_wf (fo_mounts g)"
    "delivers (cs @ all_heard es) ds" "tray_is (lk_tray L2) (foldl follow g ds)"
proof -
  define g where "g = \<lparr>fo_mounts = rows_of rows, fo_transfers = foldl (\<lambda>acc v. bt_insert (tv_mount v) v acc) [] readings\<rparr>"
  have L1: "L1 = go_to Session (edit (attached info rows readings)
      (L\<lparr>lk_backoff := backoff_reset (lk_backoff L), lk_proxy := Some p, lk_signals := cs\<rparr>))"
    using assms(4) by (cases rule: lk_step.cases) (use assms(1-3) in \<open>auto simp: unless_gone_def\<close>)
  have g: "tray_is (attached info rows readings (lk_tray L)) g" unfolding g_def by (rule attached_is)
  then have "caught_up_to L1 g cs []" using assms(3) by (simp add: caught_up_to_def L1)
  from follow_run [OF assms(5-7) this] have up: "caught_up_to L2 g (cs @ all_heard es) (all_told es)" by simp
  then have told: "delivers (cs @ all_heard es) (all_told es)"
    using assms(8) by (simp add: caught_up_to_def delivers_def)
  have wf: "bt_wf (fo_mounts g)" by (simp add: g_def rows_of_def bt.wf_foldl_put)
  from up have "tray_is (lk_tray L2) (foldl follow g (all_told es))" by (simp add: caught_up_to_def)
  then show thesis by (rule that [OF g wf told])
qed

lemma session_shows:
  assumes "attach a owner = Inr (p, info, rows, readings)" "lk_phase L = Attaching owner" "\<not> lk_gone L"
    "lk_step L (Tried a cs) L1" "lk_runs L1 es L2" "list_all follows es" "lk_phase L2 = Session"
    "lk_signals L2 = []"
  defines "m \<equiv> foldl tray_follow (attached info rows readings (lk_tray L)) (cs @ all_heard es)"
  shows "untangled (cs @ all_heard es) \<Longrightarrow> shows_service r m \<Longrightarrow> shows_service r (lk_tray L2)"
    and "calm n (cs @ all_heard es) \<Longrightarrow> shows_name r m n \<Longrightarrow> shows_name r (lk_tray L2) n"
proof -
  obtain g ds where g: "tray_is (attached info rows readings (lk_tray L)) g" "bt_wf (fo_mounts g)"
    and ds: "delivers (cs @ all_heard es) ds" "tray_is (lk_tray L2) (foldl follow g ds)"
    by (rule session_told [OF assms(1-8)])
  have m: "tray_is m (foldl follow g (cs @ all_heard es))" unfolding m_def by (rule tray_is_foldl [OF g(1)])
  show "shows_service r (lk_tray L2)" if "untangled (cs @ all_heard es)" "shows_service r m"
    by (rule shows_same [OF that(2) m ds(2)]) (rule interleaved_follow [OF ds(1) that(1) g(2)])+
  show "shows_name r (lk_tray L2) n" if "calm n (cs @ all_heard es)" "shows_name r m n"
    by (rule shows_name_same [OF that(2) m ds(2)])
      (simp_all only: row_after reading_after interleaved [OF ds(1) that(1)])
qed

text \<open>
  Over any run of the watcher: the tray subscribes, attaches to what the service lists and answers
  meanwhile, and follows the signals of its session in whatever order it reads its streams. Once it
  has read everything that was published since it subscribed, the row and the reading of every name
  that was not both taken away and otherwise spoken of are the service's, a reading as far as it
  vouches for itself; and if there was no such name, its rows are exactly the service's.
\<close>

theorem a_linked_tray_shows_the_watch:
  assumes "list_all (step_agrees c) (ss0 @ ss1 @ ss2)" "watch_run c ss0 (watch_new t) = (w0, c0)"
    "watch_run c ss1 w0 = (w1, c1)" "watch_run c ss2 w1 = (w2, c2)"
    and told: "sa_mounts (aa_tell a) = Inr (list_mounts (wt_registry w1))"
      "sa_reading (aa_tell a) = (\<lambda>n. get_transfer_state c (wt_registry (fst (watch_run c (take (b n) ss2) w1))) n)"
    and "attach a owner = Inr (p, snap)" "lk_phase L = Attaching owner" "\<not> lk_gone L"
    and "lk_step L (Tried a cs) L1" "lk_runs L1 es L2" "list_all follows es" "lk_phase L2 = Session"
      "lk_signals L2 = []" "cs @ all_heard es = c1 @ c2"
  shows "(\<forall>n. calm n (c1 @ c2) \<longrightarrow> shows_name (wt_registry w2) (lk_tray L2) n)
    \<and> (untangled (c1 @ c2) \<longrightarrow> shows_service (wt_registry w2) (lk_tray L2))"
proof -
  obtain info rows readings where snap: "attach a owner = Inr (p, info, rows, readings)"
    using assms(7) by (metis prod_cases3)
  note known = attach_told [OF snap told]
  let ?m = "foldl tray_follow (attached info rows readings (lk_tray L)) (cs @ all_heard es)"
  have "shows_service (wt_registry w2) ?m \<and> (\<forall>n. shows_name (wt_registry w2) ?m n)"
    unfolding known assms(15) by (rule watcher_catch_up [OF assms(1-4) refl])
  then show ?thesis using session_shows [OF snap assms(8-14)] assms(15) by simp
qed


section \<open>Samples\<close>

theorem nothing_is_shown_without_a_session_witness:
  "\<exists>L. lk_runs linker_new [Dialed (Inl (OtherZbus ''no bus'')), Timer] L
     \<and> lk_phase L = Dialing \<and> tm_mount_list (lk_tray L) = [] \<and> lk_proxy L = None
     \<and> (\<exists>L1 err. lk_runs linker_new [Dialed (Inl (OtherZbus ''no bus''))] L1
          \<and> tm_link (lk_tray L1) = Down (down_from_error err))"
proof -
  define L1 where "L1 = unless_gone (wait_as Redialing) (down_link (NoSessionBus (OtherZbus ''no bus'')) linker_new)"
  have "lk_runs linker_new [Dialed (Inl (OtherZbus ''no bus''))] L1"
    unfolding L1_def by (rule lk_one, rule dial_failed) (simp add: linker_new_def)
  note first = this
  have here: "lk_phase L1 = Redialing 1" "\<not> lk_gone L1"
    by (simp_all add: L1_def unless_gone_def linker_new_def backoff_new_def FIRST_def)
  have run: "lk_runs linker_new ([Dialed (Inl (OtherZbus ''no bus''))] @ [Timer]) (go_to Dialing L1)"
    by (rule lk_more [OF first redial_timer [OF here(1)]])
  have "\<not> lk_gone (go_to Dialing L1)" using here by simp
  note shown = nothing_is_shown_without_a_session [OF run this]
  have "waiting L1" by (simp add: waiting_def here)
  then have "\<exists>err. tm_link (lk_tray L1) = Down (down_from_error err)"
    using nothing_is_shown_without_a_session [OF first here(2)] by blast
  then show ?thesis using shown run first by (intro exI [of _ "go_to Dialing L1"]) auto
qed

theorem attempts_are_paced_witness:
  "\<exists>L. lk_runs linker_new [Dialed (Inr ()), Listened (Inr ()), Asked (Inr '':1.5'')] L
     \<and> length (filter asks [Dialed (Inr ()), Listened (Inr ()), Asked (Inr '':1.5'')]) \<le> 0 + 1"
proof -
  let ?L1 = "go_to Listening linker_new"
  have d: "lk_step linker_new (Dialed (Inr ())) ?L1" by (rule dialed) (simp add: linker_new_def)
  have l: "lk_step ?L1 (Listened (Inr ())) (go_to Asking ?L1)" by (rule listening) simp
  have a: "lk_step (go_to Asking ?L1) (Asked (Inr '':1.5'')) (go_to (Attaching '':1.5'') (go_to Asking ?L1))"
    by (rule owned) simp
  have "lk_runs linker_new ((([] @ [Dialed (Inr ())]) @ [Listened (Inr ())]) @ [Asked (Inr '':1.5'')])
      (go_to (Attaching '':1.5'') (go_to Asking ?L1))"
    by (rule lk_more [OF lk_more [OF lk_more [OF run_of.stay d] l] a])
  from attempts_are_paced [OF this] this show ?thesis by auto
qed

definition sample_tell :: tell_answers where
  "sample_tell =
     \<lparr>sa_interface = Inr 2, sa_service = Inr ''0.1.0'', sa_rclone = Inr ''1.75.0'', sa_tier = Inr ''T1'',
      sa_mounts = Inr [], sa_reading = (\<lambda>_. Inl (IpcUnknownMount []))\<rparr>"

definition sample_attach :: "tell_answers \<Rightarrow> attach_answers" where
  "sample_attach s =
     \<lparr>aa_listen = sample_bus, aa_listen_took = Some 1, aa_call = sample_bus, aa_call_took = Some 1,
      aa_states = Inr (), aa_removals = Inr (), aa_transfers = Inr (), aa_properties = Inr (),
      aa_tell = s, aa_tell_took = Some 20\<rparr>"

lemma sample_attach:
  "gather s = Inr snap \<Longrightarrow> attach (sample_attach s) owner = Inr (Some owner, snap)"
  by (simp add: attach_def sample_attach_def and_then_def attaching_def in_time_def open_owner_def Link.build_def
      sample_bus_def MIN_INTERFACE_def)

lemma sample_gather:
  "gather (sample_tell\<lparr>sa_mounts := Inr rows, sa_reading := f\<rparr>)
     = Inr (\<lparr>si_service_version = ''0.1.0'', si_interface_version = 2, si_rclone_version = ''1.75.0'',
             si_capability_tier = ''T1''\<rparr>, rows,
         concat (map (\<lambda>m. case f (mv_name m) of Inr t \<Rightarrow> [t] | Inl _ \<Rightarrow> []) rows))"
  by (simp add: gather_def describe_def and_then_def sample_tell_def)

theorem a_good_answer_attaches_witness:
  "\<exists>snap. gets_through (sample_attach (sample_tell\<lparr>sa_mounts := Inr [sample_row Mounted], sa_reading := \<lambda>_. Inl (IpcUnknownMount [])\<rparr>))
     snap 5 linker_new"
proof -
  let ?s = "sample_tell\<lparr>sa_mounts := Inr [sample_row Mounted], sa_reading := \<lambda>_. Inl (IpcUnknownMount [])\<rparr>"
  obtain snap where snap: "gather ?s = Inr snap" using sample_gather by blast
  have "good_answers (sample_attach ?s) snap" using sample_attach [OF snap] by (auto simp: good_answers_def)
  moreover have "\<not> lk_gone linker_new" "lk_phase linker_new \<noteq> Session" by (simp_all add: linker_new_def)
  ultimately show ?thesis using a_good_answer_attaches [OF run_of.stay] by blast
qed

text \<open>Whatever waits can be read.\<close>

lemma drain:
  "lk_phase L = Session \<Longrightarrow> \<not> lk_gone L \<Longrightarrow> \<exists>es L'. lk_runs L es L' \<and> list_all follows es \<and> all_heard es = []
     \<and> lk_phase L' = Session \<and> lk_signals L' = []"
proof (induction "lk_signals L" arbitrary: L)
  case Nil
  then show ?case by (intro exI [of _ "[]"] exI [of _ L]) (auto intro: run_of.stay simp: all_heard_def)
next
  case (Cons c q)
  have "pull (stream_of c) (lk_signals L) = Some (c, q)" using Cons.hyps(2) by (simp flip: Cons.hyps(2))
  moreover have "attaching (Some 0) (describe sample_tell) = Inr \<lparr>si_service_version = ''0.1.0'',
      si_interface_version = 2, si_rclone_version = ''1.75.0'', si_capability_tier = ''T1''\<rparr>"
    by (simp add: attaching_def in_time_def describe_def and_then_def sample_tell_def)
  ultimately obtain e L1 where e: "lk_step L e L1" "follows e" "heard e = []"
      "lk_phase L1 = Session" "\<not> lk_gone L1" "lk_signals L1 = q"
    using delivered [OF Cons.prems(1), of c q] retold [OF Cons.prems(1), of q "Some 0" sample_tell] Cons.prems
    by (cases "c = CapabilityTier") (fastforce simp: unless_gone_def)+
  obtain es L2 where rest: "lk_runs L1 es L2" "list_all follows es" "all_heard es = []"
      "lk_phase L2 = Session" "lk_signals L2 = []"
    using Cons.hyps(1) [of L1] e by blast
  have "lk_runs L ([e] @ es) L2" by (rule run_of_append [OF rest(1) lk_one [OF e(1)]])
  then show ?case using e rest by (intro exI [of _ "[e] @ es"] exI [of _ L2]) (simp add: all_heard_def)
qed



lemma poll_one_keeps_rows: "poll_one c T name w = (w', cs) \<Longrightarrow> Removed n \<notin> set cs"
  by (auto simp: poll_one_def Let_def opt_list_def observe_transfer_def note_tier_def split: prod.splits if_splits option.splits)

lemma poll_each_keeps_rows: "poll_each c T names w = (w', cs) \<Longrightarrow> Removed n \<notin> set cs"
  by (induction names arbitrary: w cs) (auto split: prod.splits dest: poll_one_keeps_rows)

lemma sample_changes:
  assumes run: "watch_run c sample_steps (watch_new 0) = (w, cs)"
  shows "Removed n \<notin> set cs" "cs \<noteq> []"
proof -
  obtain w1 c1 k where 1: "tick c (sample_tick 5) (watch_new 0) = (w1, c1, k)" by (metis prod_cases3)
  then have cs: "cs = c1" using run by (simp add: sample_steps_def)
  obtain w2 c2 c3 where parts: "sweep_if_due c (sample_tick 5) (forget_cycled (watch_new 0)) = (w2, c2)"
      "poll_due c (sample_tick 5) w2 = (w1, c3)" "c1 = c2 @ c3"
    using tick_parts [OF 1] by metis
  have "c2 = [MountChange (found_view c (discovered ''m'' Mounted))]"
    using parts(1) by (simp add: sweep_if_due_def sweep_mounts_def forget_cycled_def watch_new_def sample_sweep sample_tick_def)
  moreover have "Removed n \<notin> set c3" using parts(2) unfolding poll_due_def by (rule poll_each_keeps_rows)
  ultimately show "Removed n \<notin> set cs" "cs \<noteq> []" using cs parts(3) by simp_all
qed

lemma untangled_rows: "\<forall>n. Removed n \<notin> set cs \<Longrightarrow> untangled cs"
  by (auto simp: untangled_def list_all_iff split: change.split)

theorem a_linked_tray_shows_the_watch_witness:
  "\<exists>w cs a L1 es L2. watch_run config_default sample_steps (watch_new 0) = (w, cs) \<and> cs \<noteq> []
     \<and> lk_step (go_to (Attaching '':1.5'') linker_new) (Tried a cs) L1 \<and> lk_runs L1 es L2
     \<and> shows_service (wt_registry w) (lk_tray L2)"
proof -
  obtain w cs where run: "watch_run config_default sample_steps (watch_new 0) = (w, cs)" by force
  define s where "s = sample_tell\<lparr>sa_mounts := Inr (list_mounts (wt_registry w)),
    sa_reading := \<lambda>n. get_transfer_state config_default (wt_registry w) n\<rparr>"
  let ?L = "go_to (Attaching '':1.5'') linker_new"
  have L: "lk_phase ?L = Attaching '':1.5''" "\<not> lk_gone ?L" by (simp_all add: linker_new_def)
  obtain info rows readings where snap: "gather s = Inr (info, rows, readings)" unfolding s_def sample_gather by blast
  note att = sample_attach [OF snap, of "'':1.5''"]
  define L1 where "L1 = unless_gone (go_to Session) (edit (attached info rows readings)
    (?L\<lparr>lk_backoff := backoff_reset (lk_backoff ?L), lk_proxy := Some (Some '':1.5''), lk_signals := cs\<rparr>))"
  have step: "lk_step ?L (Tried (sample_attach s) cs) L1" unfolding L1_def by (rule attached_to [OF L(1) att])
  have "lk_phase L1 = Session" "\<not> lk_gone L1" using L(2) by (simp_all add: L1_def unless_gone_def)
  then obtain es L2 where es: "lk_runs L1 es L2" "list_all follows es" "all_heard es = []"
      "lk_phase L2 = Session" "lk_signals L2 = []"
    using drain by blast
  have agree: "list_all (step_agrees config_default) ([] @ sample_steps @ [])"
    using sample_steps_agree [of config_default 5] by (simp add: sample_steps_def)
  have told: "sa_mounts (aa_tell (sample_attach s)) = Inr (list_mounts (wt_registry w))"
      "sa_reading (aa_tell (sample_attach s)) =
        (\<lambda>n. get_transfer_state config_default (wt_registry (fst (watch_run config_default (take 0 []) w))) n)"
    by (simp_all add: sample_attach_def s_def)
  have heard: "cs @ all_heard es = cs @ []" using es(3) by simp
  have tangle: "untangled (cs @ [])" using sample_changes(1) [OF run] by (intro untangled_rows) simp
  have "(\<forall>n. calm n (cs @ []) \<longrightarrow> shows_name (wt_registry w) (lk_tray L2) n)
      \<and> (untangled (cs @ []) \<longrightarrow> shows_service (wt_registry w) (lk_tray L2))"
    by (rule a_linked_tray_shows_the_watch
        [where c = config_default and ?ss0.0 = "[]" and ?ss1.0 = sample_steps and ?ss2.0 = "[]" and t = 0
          and b = "\<lambda>_. 0", OF agree _ run _ told att L step es(1,2,4,5) heard]) simp_all
  then have "shows_service (wt_registry w) (lk_tray L2)" using tangle by blast
  then show ?thesis using run step es(1) sample_changes(2) [OF run] by blast
qed

end
