(* ===== verification/Discovery.thy ===== *)
theory Discovery
  imports Mounting
begin

text \<open>
  What a discovery reports: a row for every configured mount, one for every unit of ours the
  configuration no longer names, one for every rclone mount that is not ours.
\<close>

section \<open>Runs that succeed\<close>

lemma andthen_ok:
  assumes "andthen m f H s = (Inr b, t)"
  obtains a u where "m H s = (Inr a, u)" "f a H u = (Inr b, t)"
  using assms by (auto simp: andthen_def split: prod.splits sum.splits)

lemma behaves_run:
  assumes "behaves P K m" "m H s = (r, t)"
  obtains new where "sy_log t = new @ sy_log s" "list_all P new"
  using assms unfolding behaves_def by (metis snd_conv)

lemma each_all2:
  assumes "each f xs H s = (Inr ys, t)"
    and "\<And>x s y t. x \<in> set xs \<Longrightarrow> f x H s = (Inr y, t) \<Longrightarrow> R x y"
  shows "list_all2 R xs ys"
  using assms
proof (induction xs arbitrary: ys s)
  case (Cons x xs)
  then obtain y u zs v where run: "f x H s = (Inr y, u)" "each f xs H u = (Inr zs, v)" "ys = y # zs" "v = t"
    by (auto simp: ret_def elim!: andthen_ok)
  then have "list_all2 R xs zs" using Cons.IH [of u zs] Cons.prems(2) by simp
  then show ?case using run Cons.prems(2) by simp
qed (simp add: ret_def)

text \<open>The answers the steps rest on stay in the log.\<close>

lemma each_logged:
  assumes "each f xs H s = (Inr ys, t)" "\<And>x. behaves any_event any_error (f x)"
    and "\<And>x s y t. f x H s = (Inr y, t) \<Longrightarrow> \<exists>e. P x y e \<and> sy_log t = e # sy_log s"
  shows "\<exists>new. sy_log t = new @ sy_log s \<and> list_all2 (\<lambda>x y. \<exists>e \<in> set new. P x y e) xs ys"
  using assms(1)
proof (induction xs arbitrary: ys s)
  case (Cons x xs)
  then obtain y u zs where run: "f x H s = (Inr y, u)" "each f xs H u = (Inr zs, t)" "ys = y # zs"
    by (auto simp: ret_def elim!: andthen_ok)
  obtain e where e: "P x y e" "sy_log u = e # sy_log s" using assms(3) [OF run(1)] by blast
  obtain new where new: "sy_log t = new @ sy_log u" "list_all2 (\<lambda>x y. \<exists>e \<in> set new. P x y e) xs zs"
    using Cons.IH [OF run(2)] by blast
  have "list_all2 (\<lambda>x y. \<exists>e \<in> set (new @ [e]). P x y e) xs zs"
    by (rule list_all2_mono [OF new(2)]) auto
  then show ?case using e new(1) run(3) by (intro exI [of _ "new @ [e]"]) auto
qed (simp add: ret_def)

lemma resolved_logged:
  "resolved_point m H s = (Inr p, t) \<Longrightarrow>
     \<exists>e. (\<exists>c. e = EvCanonicalize (mt_point m) c \<and> p = unwrap_or c (mt_point m)) \<and> sy_log t = e # sy_log s"
  by (auto simp: resolved_point_def resolved_def andthen_def ask_def ret_def Let_def)

lemma asks_point: "behaves question is_supervision (resolved_point m)"
  by (simp add: resolved_point_def asks_resolved)

lemma points_logged:
  assumes "each resolved_point ms H s = (Inr ps, t)"
  shows "\<exists>new. sy_log t = new @ sy_log s \<and> list_all2 (\<lambda>m p. \<exists>e \<in> set new. \<exists>c. e = EvCanonicalize (mt_point m) c \<and> p = unwrap_or c (mt_point m)) ms ps"
proof (rule each_logged [OF assms])
  show "behaves any_event any_error (resolved_point x)" for x
    by (rule behaves_weaken [OF asks_point]) simp_all
qed (rule resolved_logged)

lemma asks_row: "behaves question is_supervision (configured_row c os m)"
  by (auto simp: configured_row_def intro!: behave asks_resolve)

lemma asks_reconcile: "behaves question is_supervision (reconcile S)"
  unfolding reconcile_def Let_def
  by (intro behaves_andthen behaves_ret asks_live asks_orphans behaves_each asks_row asks_point)

lemma live_reads:
  assumes "live_mounts H s = (Inr es, t)"
  obtains read where "es = mounts_of read" "sy_log t = EvMountinfo read # sy_log s"
  using assms by (auto simp: live_mounts_def andthen_def ask_def ret_def Let_def)

lemma row_of_mount:
  "configured_row c os m H s = (Inr y, t) \<Longrightarrow> dm_name y = mt_name m \<and> dm_point y = Some (mt_point m)"
  by (auto simp: configured_row_def ret_def dm_at_def discovered_def elim!: andthen_ok)

section \<open>The rows\<close>

lemma strip_prefix_Some: "strip_prefix p s = Some r \<Longrightarrow> s = p @ r"
  by (auto simp: strip_prefix_def starts_with_def split: if_splits) (metis append_take_drop_id)

lemma strip_suffix_Some: "strip_suffix p s = Some r \<Longrightarrow> s = r @ p"
  by (auto simp: strip_suffix_def ends_with_def split: if_splits) (metis append_take_drop_id)

lemma orphan_name_inv: "orphan_name u = Some n \<Longrightarrow> u = UNIT_PREFIX @ n @ ''.service''"
  by (auto simp: orphan_name_def dest!: strip_prefix_Some strip_suffix_Some split: option.splits if_splits)

definition configured_name :: "config \<Rightarrow> string \<Rightarrow> bool" where
  "configured_name c n = list_ex (\<lambda>m. mt_name m = n) (cf_mounts c)"

lemma orphan_row_name:
  assumes "config_ok U c" "list_all named_as_ours os" "r \<in> set (orphan_rows c os)"
  shows "dm_state r = Orphaned \<and> \<not> configured_name c (dm_name r)"
proof -
  from assms(3) obtain t where t: "t \<in> set os" "r = dm_at (tg_point t) (discovered (tg_name t) Orphaned)"
      "\<not> list_ex (\<lambda>m. unit_name m = tg_unit t) (cf_mounts c)"
    by (auto simp: orphan_rows_def)
  have "tg_unit t = UNIT_PREFIX @ tg_name t @ ''.service''"
    using assms(2) t(1) by (intro orphan_name_inv) (auto simp: list_all_iff named_as_ours_def)
  moreover have "unit_name m = UNIT_PREFIX @ mt_name m @ ''.service''" if "m \<in> set (cf_mounts c)" for m
    using assms(1) that by (intro unit_name_valid) (auto simp: config_ok_def list_all_iff mount_ok_def)
  ultimately show ?thesis using t(2,3)
    by (auto simp: configured_name_def list_ex_iff dm_at_def discovered_def)
qed

lemma foreign_row_state: "r \<in> set (foreign_rows claimed live) \<Longrightarrow> dm_state r = Foreign"
  by (auto simp: foreign_rows_def dm_at_def discovered_def)

text \<open>Where a live rclone mount of the table appears in the answer.\<close>

definition listed_at :: "string \<Rightarrow> discovered_mount list \<Rightarrow> bool" where
  "listed_at p rows = list_ex (\<lambda>r. is_some_and (dm_point r) (\<lambda>q. path_eq q p)) rows"

definition configured_at :: "config \<Rightarrow> log \<Rightarrow> string \<Rightarrow> bool" where
  "configured_at c l p =
     (\<exists>m answer. m \<in> set (cf_mounts c) \<and> EvCanonicalize (mt_point m) answer \<in> set l
        \<and> path_eq (unwrap_or answer (mt_point m)) p)"

definition moved_at :: "config \<Rightarrow> target list \<Rightarrow> string \<Rightarrow> bool" where
  "moved_at c os p =
     list_ex (\<lambda>t. path_eq (tg_point t) p \<and> list_ex (\<lambda>m. unit_name m = tg_unit t) (cf_mounts c)) os"

lemma every_mount_listed:
  assumes "e \<in> set live" "is_rclone e"
    "list_all2 (\<lambda>m p. \<exists>e \<in> set l. \<exists>c. e = EvCanonicalize (mt_point m) c \<and> p = unwrap_or c (mt_point m))
       (cf_mounts c) claimed"
  shows "configured_at c l (me_point e) \<or> moved_at c os (me_point e)
    \<or> listed_at (me_point e) (orphan_rows c os @ foreign_rows (claimed @ map tg_point os) live)"
proof (cases "list_ex (\<lambda>p. path_eq p (me_point e)) (claimed @ map tg_point os)")
  case False
  then have "dm_at (me_point e) (discovered (foreign_name e) Foreign) \<in> set (foreign_rows (claimed @ map tg_point os) live)"
    using assms(1,2) by (auto simp: foreign_rows_def)
  moreover have "path_eq (me_point e) (me_point e)" by (simp add: path_eq_def)
  ultimately show ?thesis by (force simp: listed_at_def list_ex_iff dm_at_def)
next
  case True
  then consider p where "p \<in> set claimed" "path_eq p (me_point e)" | t where "t \<in> set os" "path_eq (tg_point t) (me_point e)"
    by (auto simp: list_ex_iff)
  then show ?thesis
  proof cases
    case (1 p)
    with assms(3) have "configured_at c l (me_point e)"
      by (force simp: configured_at_def list_all2_conv_all_nth in_set_conv_nth)
    then show ?thesis ..
  next
    case (2 t)
    show ?thesis
    proof (cases "list_ex (\<lambda>m. unit_name m = tg_unit t) (cf_mounts c)")
      case False
      with 2 have "dm_at (tg_point t) (discovered (tg_name t) Orphaned) \<in> set (orphan_rows c os)"
        by (auto simp: orphan_rows_def)
      with 2 show ?thesis by (force simp: listed_at_def list_ex_iff dm_at_def)
    qed (use 2 in \<open>auto simp: moved_at_def list_ex_iff\<close>)
  qed
qed


section \<open>Every mount is accounted for\<close>

lemma reconcile_run:
  assumes "reconcile S H s = (Inr rows, s')"
  obtains read os s1 s2 crows claimed l where
    "live_mounts H s = (Inr (mounts_of read), s1)" "orphans (sp_config S) H s1 = (Inr os, s2)"
    "sy_log s' = l @ sy_log s" "list_all question l" "EvMountinfo read \<in> set l"
    "list_all2 (\<lambda>m r. dm_name r = mt_name m \<and> dm_point r = Some (mt_point m)) (cf_mounts (sp_config S)) crows"
    "list_all2 (\<lambda>m p. \<exists>e \<in> set l. \<exists>c. e = EvCanonicalize (mt_point m) c \<and> p = unwrap_or c (mt_point m))
       (cf_mounts (sp_config S)) claimed"
    "rows = crows @ orphan_rows (sp_config S) os @ foreign_rows (claimed @ map tg_point os) (mounts_of read)"
proof -
  let ?c = "sp_config S"
  from assms obtain es s1 os s2 crows s3 claimed where run: "live_mounts H s = (Inr es, s1)"
      "orphans ?c H s1 = (Inr os, s2)" "each (configured_row ?c os) (cf_mounts ?c) H s2 = (Inr crows, s3)"
      "each resolved_point (cf_mounts ?c) H s3 = (Inr claimed, s')"
      "rows = crows @ orphan_rows ?c os @ foreign_rows (claimed @ map tg_point os) es"
    by (auto simp: reconcile_def Let_def ret_def elim!: andthen_ok)
  obtain read where read: "es = mounts_of read" "sy_log s1 = EvMountinfo read # sy_log s"
    by (rule live_reads [OF run(1)])
  have row_asks: "behaves question is_supervision (each (configured_row ?c os) (cf_mounts ?c))"
    by (rule behaves_each) (rule asks_row)
  obtain l1 where l1: "sy_log s2 = l1 @ sy_log s1" "list_all question l1"
    by (rule behaves_run [OF asks_orphans run(2)])
  obtain l2 where l2: "sy_log s3 = l2 @ sy_log s2" "list_all question l2"
    by (rule behaves_run [OF row_asks run(3)])
  obtain l where l: "sy_log s' = l @ sy_log s" "list_all question l"
    by (rule behaves_run [OF asks_reconcile assms])
  obtain l3 where l3: "sy_log s' = l3 @ sy_log s3"
      "list_all2 (\<lambda>m p. \<exists>e \<in> set l3. \<exists>c. e = EvCanonicalize (mt_point m) c \<and> p = unwrap_or c (mt_point m))
         (cf_mounts ?c) claimed"
    using points_logged [OF run(4)] by blast
  have "l = l3 @ l2 @ l1 @ [EvMountinfo read]" using l(1) l1(1) l2(1) l3(1) read(2) by simp
  then have "EvMountinfo read \<in> set l" "set l3 \<subseteq> set l" by auto
  moreover have "list_all2 (\<lambda>m r. dm_name r = mt_name m \<and> dm_point r = Some (mt_point m)) (cf_mounts ?c) crows"
    by (rule each_all2 [OF run(3)]) (rule row_of_mount)
  moreover have "list_all2 (\<lambda>m p. \<exists>e \<in> set l. \<exists>c. e = EvCanonicalize (mt_point m) c \<and> p = unwrap_or c (mt_point m))
       (cf_mounts ?c) claimed"
    by (rule list_all2_mono [OF l3(2)]) (use \<open>set l3 \<subseteq> set l\<close> in blast)
  ultimately show thesis using that run read(1) l by blast
qed

text \<open>
  C11: A discovery only asks and leaves nothing out: it lists the configured mounts in order
  under the spelling the user wrote; every further row is an orphan, whose name no configured
  mount has, or a foreign mount; and every rclone mount in the kernel's table is at a configured
  point, belongs to a moved entry's unit, or has a row of its own.
\<close>

theorem a_discovery_leaves_nothing_out:
  assumes "validate U (sp_config S) = Inr ()" "reconcile S H s = (Inr rows, s')"
    "sy_log s' = new @ sy_log s"
  shows "list_all question new
    \<and> (\<exists>configured others read os s1 s2.
         rows = configured @ others
         \<and> map dm_name configured = map mt_name (cf_mounts (sp_config S))
         \<and> map dm_point configured = map (\<lambda>m. Some (mt_point m)) (cf_mounts (sp_config S))
         \<and> list_all (\<lambda>r. dm_state r = Foreign
              \<or> dm_state r = Orphaned \<and> \<not> configured_name (sp_config S) (dm_name r)) others
         \<and> live_mounts H s = (Inr (mounts_of read), s1) \<and> orphans (sp_config S) H s1 = (Inr os, s2)
         \<and> list_all (\<lambda>e. \<not> is_rclone e \<or> configured_at (sp_config S) new (me_point e)
              \<or> moved_at (sp_config S) os (me_point e) \<or> listed_at (me_point e) others) (mounts_of read))"
proof -
  let ?c = "sp_config S"
  from assms(2) obtain read os s1 s2 crows claimed l where run:
    "live_mounts H s = (Inr (mounts_of read), s1)" "orphans ?c H s1 = (Inr os, s2)"
    "sy_log s' = l @ sy_log s" "list_all question l" "EvMountinfo read \<in> set l"
    "list_all2 (\<lambda>m r. dm_name r = mt_name m \<and> dm_point r = Some (mt_point m)) (cf_mounts ?c) crows"
    "list_all2 (\<lambda>m p. \<exists>e \<in> set l. \<exists>c. e = EvCanonicalize (mt_point m) c \<and> p = unwrap_or c (mt_point m))
       (cf_mounts ?c) claimed"
    "rows = crows @ orphan_rows ?c os @ foreign_rows (claimed @ map tg_point os) (mounts_of read)"
    by (rule reconcile_run)
  have l: "l = new" using run(3) assms(3) by simp
  have ok: "config_ok U ?c" using assms(1) validate_iff by blast
  have named: "list_all named_as_ours os"
    using orphans_named [of ?c] run(2) unfolding gives_def by (metis fst_conv)
  have "map dm_name crows = map mt_name (cf_mounts ?c)"
    "map dm_point crows = map (\<lambda>m. Some (mt_point m)) (cf_mounts ?c)"
    using run(6) by (auto simp: list_all2_conv_all_nth intro!: nth_equalityI)
  moreover have "list_all (\<lambda>r. dm_state r = Foreign \<or> dm_state r = Orphaned \<and> \<not> configured_name ?c (dm_name r))
      (orphan_rows ?c os @ foreign_rows (claimed @ map tg_point os) (mounts_of read))"
    using orphan_row_name [OF ok named] foreign_row_state by (auto simp: list_all_iff)
  moreover have "list_all (\<lambda>e. \<not> is_rclone e \<or> configured_at ?c new (me_point e) \<or> moved_at ?c os (me_point e)
      \<or> listed_at (me_point e) (orphan_rows ?c os @ foreign_rows (claimed @ map tg_point os) (mounts_of read)))
      (mounts_of read)"
    using every_mount_listed [OF _ _ run(7)] l by (auto simp: list_all_iff)
  ultimately show ?thesis using run(1,2,4,8) l by blast
qed


lemma machine_stale:
  "is_stale p (machine up st) s = (Inr False, s\<lparr>sy_log := EvProbe p StatOk # sy_log s\<rparr>)"
  by (simp add: is_stale_def running machine_def)

lemma sample_mounts: "cf_mounts sample_config = [sample_mount]" "mt_name sample_mount = ''backup''"
  by (simp_all add: sample_config_def sample_mount_def)

lemma sample_reconciled:
  "fst (reconcile sample_supervisor (machine True False) power_on)
     = Inr [dm_at ''/mnt/backup'' (discovered ''backup'' Mounted)]"
proof -
  have "path_eq ''/mnt/backup'' ''/mnt/backup''" by (simp add: path_eq_def)
  then show ?thesis
    by (simp add: reconcile_def sample_supervisor_fields sample_mounts sample_mount_facts Let_def power_on_def
        andthen_def ret_def machine_live machine_orphans configured_row_def resolve_def resolved_point_def
        machine_resolved machine_status points_after points_after [of _ _ _ "[]", unfolded append_Nil2]
        machine_stale backup_mounted resolve_table_def orphan_rows_def foreign_rows_def backup_entry_fields)
qed

theorem a_discovery_leaves_nothing_out_witness:
  "list_all question (sy_log (snd (reconcile sample_supervisor (machine True False) power_on)))
    \<and> (\<exists>configured others. [dm_at ''/mnt/backup'' (discovered ''backup'' Mounted)] = configured @ others
        \<and> map dm_name configured = [''backup''])"
proof -
  let ?run = "reconcile sample_supervisor (machine True False) power_on"
  have ok: "validate no_unicode (sp_config sample_supervisor) = Inr ()"
    using sample_config_ok validate_iff by (simp add: sample_supervisor_fields)
  have run: "?run = (Inr [dm_at ''/mnt/backup'' (discovered ''backup'' Mounted)], snd ?run)"
    using sample_reconciled by (metis prod.collapse)
  from a_discovery_leaves_nothing_out [OF ok run, of "sy_log (snd ?run)"]
  show ?thesis by (auto simp: power_on_def sample_supervisor_fields sample_mounts)
qed

end
