(* ===== verification/Agreement.thy ===== *)
theory Agreement
  imports Discovery Watch
begin

text \<open>
  A discovery never contradicts itself: two of its rows that share a name are the same row. This is
  what the registry and its followers rest on (crates/service/src/supervisor.rs against
  crates/service/src/registry.rs).
\<close>

text \<open>
  What is documented of the two sources: systemd lists a unit once, under a name without a
  slash, and the kernel lists absolute mount points.
\<close>

definition orderly :: "host \<Rightarrow> bool" where
  "orderly H =
     ((\<forall>l p rows. h_list_units H l p = Inr rows \<longrightarrow>
         distinct (map ur_name rows) \<and> list_all (\<lambda>r. CHR ''/'' \<notin> set (ur_name r)) rows)
      \<and> (\<forall>l. list_all (\<lambda>e. is_absolute (me_point e)) (mounts_of (h_mountinfo H l))))"

section \<open>Orphans are told apart\<close>

definition picked :: "loaded_unit list \<Rightarrow> target list \<Rightarrow> bool" where
  "picked us os =
     (set (map tg_unit os) \<subseteq> set (map lu_name us)
      \<and> (distinct (map lu_name us) \<longrightarrow> distinct (map tg_unit os)))"

lemma picked_skip: "picked us os \<Longrightarrow> picked (u # us) os"
  by (auto simp: picked_def)

lemma picked_take: "picked us os \<Longrightarrow> tg_unit t = lu_name u \<Longrightarrow> picked (u # us) (t # os)"
  by (auto simp: picked_def)

lemma gives_weaken: "gives R m \<Longrightarrow> (\<And>a. R a \<Longrightarrow> R' a) \<Longrightarrow> gives R' m"
  by (auto simp: gives_def)

lemma sweep_picked: "gives (picked us) (sweep ms live argv c us)"
proof (induction us arbitrary: c)
  case (Cons u us)
  have skip: "gives (picked (u # us)) (sweep ms live argv c us)" for c
    by (rule gives_weaken [OF Cons.IH]) (rule picked_skip)
  show ?case
  proof (cases "candidate ms u")
    case (Some r)
    obtain sv name where r: "r = (sv, name)" by force
    have push: "gives (picked (u # us)) (andthen (sweep ms live argv (Some c) us) (\<lambda>out.
        ret (\<lparr>tg_name = name, tg_unit = lu_name u, tg_point = point, tg_fs_spec = sv_fs_spec sv\<rparr> # out)))" for c point
      by (rule gives_andthen [OF Cons.IH], rule gives_ret) (simp add: picked_take)
    show ?thesis unfolding sweep.simps Some r option.case prod.case
      by (intro gives_then) (auto intro!: gives_then push skip)
  qed (simp add: skip)
qed (simp add: gives_ret picked_def)

lemma list_units_run:
  assumes "list_units p H s = (Inr loaded, t)"
  obtains l rows where "h_list_units H l (p @ ''*'') = Inr rows" "map lu_name loaded = map ur_name rows"
proof -
  from assms obtain r u rows v where run: "ask (\<lambda>H l. h_list_units H l (p @ ''*'')) (EvListUnits (p @ ''*'')) H u = (Inr r, v)"
    and rows: "or_fail (''listing units matching '' @ p @ ''*'') r H v = (Inr rows, v) \<and> r = Inr rows"
    and each: "each loaded_of rows H v = (Inr loaded, t)"
    by (auto simp: list_units_def or_fail_def ret_def fail_def elim!: andthen_ok split: sum.splits)
  have "list_all2 (\<lambda>row x. lu_name x = ur_name row) rows loaded"
    by (rule each_all2 [OF each]) (auto simp: loaded_of_def ret_def elim!: andthen_ok)
  then have "map lu_name loaded = map ur_name rows" by (auto simp: list_all2_conv_all_nth intro!: nth_equalityI)
  moreover have "h_list_units H (sy_log u) (p @ ''*'') = Inr rows" using run rows by (simp add: ask_def Let_def)
  ultimately show thesis using that by blast
qed

lemma orphans_apart:
  assumes "orderly H" "orphans c H s = (Inr os, t)"
  shows "distinct (map tg_unit os)" "list_all (\<lambda>t. CHR ''/'' \<notin> set (tg_unit t)) os"
proof -
  from assms(2) obtain loaded u live v where run: "list_units UNIT_PREFIX H s = (Inr loaded, u)"
    and sw: "sweep (cf_mounts c) live (serving_argv loaded) None loaded H v = (Inr os, t)"
    by (auto simp: orphans_def elim!: andthen_ok)
  obtain l rows where rows: "h_list_units H l (UNIT_PREFIX @ ''*'') = Inr rows" "map lu_name loaded = map ur_name rows"
    by (rule list_units_run [OF run])
  from assms(1) rows(1) have sane: "distinct (map ur_name rows)" "list_all (\<lambda>r. CHR ''/'' \<notin> set (ur_name r)) rows"
    unfolding orderly_def by blast+
  have p: "picked loaded os" using sweep_picked sw unfolding gives_def by (metis fst_conv)
  then show "distinct (map tg_unit os)" using sane(1) rows(2) by (simp add: picked_def)
  have "CHR ''/'' \<notin> set n" if "n \<in> set (map ur_name rows)" for n using sane(2) that by (auto simp: list_all_iff)
  then show "list_all (\<lambda>t. CHR ''/'' \<notin> set (tg_unit t)) os" using p rows(2) by (auto simp: picked_def list_all_iff)
qed

section \<open>Rows of one name\<close>

lemma lossy_slash: "from_utf8_lossy (CHR ''/'' # s) = CHR ''/'' # from_utf8_lossy s"
  by (subst from_utf8_lossy.simps) (simp add: utf8_unit_def utf8_width_def)

lemma foreign_rows_named:
  assumes "list_all (\<lambda>e. is_absolute (me_point e)) live" "r \<in> set (foreign_rows claimed live)"
  shows "CHR ''/'' \<in> set (dm_name r)"
    "found_view c r = (mount_view_of (discovered (dm_name r) Foreign))
       \<lparr>mv_point := Some (dm_name r), mv_remote := map_option fs_spec (config_mount c (dm_name r))\<rparr>"
proof -
  from assms(2) obtain e where e: "e \<in> set live" "r = dm_at (me_point e) (discovered (foreign_name e) Foreign)"
    by (auto simp: foreign_rows_def)
  have "is_absolute (me_point e)" using assms(1) e(1) by (simp add: list_all_iff)
  then obtain s where "me_point e = CHR ''/'' # s" by (cases "me_point e") (auto simp: is_absolute_def starts_with_def)
  then show "CHR ''/'' \<in> set (dm_name r)"
    by (simp add: e(2) dm_at_def discovered_def foreign_name_def lossy_slash)
  show "found_view c r = (mount_view_of (discovered (dm_name r) Foreign))
       \<lparr>mv_point := Some (dm_name r), mv_remote := map_option fs_spec (config_mount c (dm_name r))\<rparr>"
    by (simp add: e(2) dm_at_def discovered_def foreign_name_def found_view_def mount_view_of_def)
qed

lemma orphan_rows_named:
  assumes "list_all named_as_ours os" "distinct (map tg_unit os)" "list_all (\<lambda>t. CHR ''/'' \<notin> set (tg_unit t)) os"
  shows "distinct (map dm_name (orphan_rows c os))" "\<forall>r \<in> set (orphan_rows c os). CHR ''/'' \<notin> set (dm_name r)"
proof -
  let ?kept = "filter (\<lambda>t. \<not> list_ex (\<lambda>m. unit_name m = tg_unit t) (cf_mounts c)) os"
  have unit: "tg_unit t = UNIT_PREFIX @ tg_name t @ ''.service''" if "t \<in> set os" for t
    using assms(1) that by (intro orphan_name_inv) (auto simp: list_all_iff named_as_ours_def)
  have names: "map dm_name (orphan_rows c os) = map tg_name ?kept"
    by (simp add: orphan_rows_def dm_at_def discovered_def)
  have "distinct (map tg_unit ?kept)" using assms(2) by (rule distinct_map_filter)
  moreover have "map tg_unit ?kept = map (\<lambda>n. UNIT_PREFIX @ n @ ''.service'') (map tg_name ?kept)"
    using unit by simp
  ultimately have "distinct (map tg_name ?kept)" by (metis distinct_map)
  then show "distinct (map dm_name (orphan_rows c os))" by (simp only: names)
  show "\<forall>r \<in> set (orphan_rows c os). CHR ''/'' \<notin> set (dm_name r)"
  proof
    fix r assume "r \<in> set (orphan_rows c os)"
    then obtain t where t: "t \<in> set os" "dm_name r = tg_name t" by (auto simp: orphan_rows_def dm_at_def discovered_def)
    have "CHR ''/'' \<notin> set (tg_unit t)" using assms(3) t(1) by (simp add: list_all_iff)
    then show "CHR ''/'' \<notin> set (dm_name r)" unfolding t(2) unit [OF t(1)] by simp
  qed
qed

lemma config_names:
  assumes "config_ok U c"
  shows "distinct (map mt_name (cf_mounts c))" "\<forall>m \<in> set (cf_mounts c). CHR ''/'' \<notin> set (mt_name m)"
proof -
  show "distinct (map mt_name (cf_mounts c))" using assms by (simp add: config_ok_def)
  have "\<not> name_char (CHR ''/'')"
    by (simp add: name_char_def is_ascii_alnum_def is_ascii_alpha_def is_ascii_digit_def less_eq_char_def)
  then show "\<forall>m \<in> set (cf_mounts c). CHR ''/'' \<notin> set (mt_name m)"
    using assms by (auto simp: config_ok_def mount_ok_def list_all_iff)
qed

text \<open>Over such a host a discovery of a validated configuration agrees with itself.\<close>

lemma discovery_agrees:
  assumes "validate U (sp_config S) = Inr ()" "orderly H" "reconcile S H s = (Inr rows, t)"
  shows "rows_agree (Sweep (map (found_view (sp_config S)) rows))"
proof (rule reconcile_run [OF assms(3)])
  let ?c = "sp_config S"
  fix read os s1 s2 crows claimed l
  assume live: "live_mounts H s = (Inr (mounts_of read), s1)" and os: "orphans ?c H s1 = (Inr os, s2)"
    and crows: "list_all2 (\<lambda>m r. dm_name r = mt_name m \<and> dm_point r = Some (mt_point m)) (cf_mounts ?c) crows"
    and rows: "rows = crows @ orphan_rows ?c os @ foreign_rows (claimed @ map tg_point os) (mounts_of read)"
  let ?F = "foreign_rows (claimed @ map tg_point os) (mounts_of read)" and ?O = "orphan_rows ?c os"
  have ok: "config_ok U ?c" using assms(1) validate_iff by blast
  have "mounts_of read = mounts_of (h_mountinfo H (sy_log s))"
    using live by (auto simp: live_mounts_def andthen_def ask_def ret_def Let_def)
  then have points: "list_all (\<lambda>e. is_absolute (me_point e)) (mounts_of read)" using assms(2) by (simp add: orderly_def)
  have named: "list_all named_as_ours os" using orphans_named [of ?c] os unfolding gives_def by (metis fst_conv)
  note apart = orphan_rows_named [OF named orphans_apart [OF assms(2) os], of ?c]
  have cn: "map dm_name crows = map mt_name (cf_mounts ?c)"
    using crows by (auto simp: list_all2_conv_all_nth intro!: nth_equalityI)
  have others: "mt_name m \<noteq> dm_name r" if "r \<in> set ?O" "m \<in> set (cf_mounts ?c)" for r m
    using orphan_row_name [OF ok named that(1)] that(2) by (auto simp: configured_name_def list_ex_iff)
  have unique: "distinct (map dm_name (crows @ ?O))"
  proof -
    have "set (map mt_name (cf_mounts ?c)) \<inter> set (map dm_name ?O) = {}"
      using others by auto
    then show ?thesis using config_names(1) [OF ok] apart(1) by (simp only: map_append distinct_append cn simp_thms)
  qed
  have plain: "CHR ''/'' \<notin> set (dm_name r)" if "r \<in> set (crows @ ?O)" for r
  proof -
    have "dm_name r \<in> set (map mt_name (cf_mounts ?c)) \<or> r \<in> set ?O" using that cn by (metis Un_iff imageI set_append set_map)
    then show ?thesis using config_names(2) [OF ok] apart(2) by auto
  qed
  have same: "found_view ?c r = found_view ?c r'" if "r \<in> set rows" "r' \<in> set rows" "dm_name r = dm_name r'" for r r'
  proof (cases "CHR ''/'' \<in> set (dm_name r)")
    case True
    then have "r \<notin> set (crows @ ?O)" "r' \<notin> set (crows @ ?O)" using plain that(3) by metis+
    then have "r \<in> set ?F" "r' \<in> set ?F" using that(1,2) unfolding rows by simp_all
    then show ?thesis using foreign_rows_named(2) [OF points] that(3) by metis
  next
    case False
    then have "r \<notin> set ?F" "r' \<notin> set ?F" using foreign_rows_named(1) [OF points] that(3) by metis+
    then have "r \<in> set (crows @ ?O)" "r' \<in> set (crows @ ?O)" using that(1,2) unfolding rows by simp_all
    then show ?thesis using unique that(3) by (metis distinct_map inj_onD)
  qed
  have name: "mv_name (found_view ?c r) = dm_name r" for r by (simp add: found_view_def mount_view_of_def)
  show ?thesis unfolding rows_agree_def observation.case list_all_iff
  proof (intro ballI impI)
    fix v w
    assume "v \<in> set (map (found_view ?c) rows)" "w \<in> set (map (found_view ?c) rows)" and vw: "mv_name v = mv_name w"
    then obtain r r' where "r \<in> set rows" "v = found_view ?c r" "r' \<in> set rows" "w = found_view ?c r'"
      unfolding set_map by blast
    with vw same [of r r'] show "v = w" by (simp only: name)
  qed
qed

end
