(* ===== verification/Actions.thy ===== *)
theory Actions
  imports Linker Rclone
begin

text \<open>
  Carrying out what the menu asked for (the actor of crates/tray/src/watch.rs): which requests
  reach the service, what is run on the desktop, and what is written down about the outcome.
\<close>

section \<open>The dispatcher\<close>

text \<open>Quit ends the loop; a refresh is the linker's; everything else runs on its own.\<close>

datatype errand = Wake | Carry action

fun errands :: "action list \<Rightarrow> errand list" where
  "errands [] = []"
| "errands (a # as) =
     (case a of Quit \<Rightarrow> [] | Refresh \<Rightarrow> Wake # errands as | other \<Rightarrow> Carry other # errands as)"

section \<open>One action\<close>

text \<open>What a call is answered and when, and what became of the programs run.\<close>

record action_answers =
  ac_took :: "nat option"
  ac_call :: "ipc_error + unit"
  ac_open :: "io_error + bool \<times> string"
  ac_unit :: "io_error + program_output"

datatype bus_call = CallMount string | CallUnmount string bool

definition acting :: "nat option \<Rightarrow> link_error + 'a \<Rightarrow> link_error + 'a" where
  "acting = in_time 900000"

definition call_mount :: "action_answers \<Rightarrow> string \<Rightarrow> (link_error + unit) \<times> bus_call list" where
  "call_mount X name = (acting (ac_took X) (map_sum from_ipc id (ac_call X)), [CallMount name])"

definition call_unmount :: "action_answers \<Rightarrow> string \<Rightarrow> (link_error + unit) \<times> bus_call list" where
  "call_unmount X name = (acting (ac_took X) (map_sum from_ipc id (ac_call X)), [CallUnmount name False])"

definition outcome :: "action \<Rightarrow> link_error + unit \<Rightarrow> (string option \<times> string \<times> bool option) option" where
  "outcome a r =
     (case r of
        Inr _ \<Rightarrow> None
      | Inl e \<Rightarrow>
          Some (fst (target a), unwrap_or (fst (target a)) [] @ '': '' @ message e, snd (target a)))"

definition say_outcome :: "action \<Rightarrow> link_error + unit \<Rightarrow> tray_model \<Rightarrow> tray_model" where
  "say_outcome a r m =
     (case outcome a r of None \<Rightarrow> m | Some (mount, text, wanted) \<Rightarrow> set_notice mount text wanted m)"

definition unreachable_now :: "action \<Rightarrow> tray_model \<Rightarrow> tray_model" where
  "unreachable_now a m = set_notice (fst (target a)) ''The service is not reachable'' (snd (target a)) m"

definition ran_well :: "bool \<Rightarrow> string \<Rightarrow> string option" where
  "ran_well success complaint = (if success then None else Some complaint)"

definition COMPLAINT_CAP :: nat where "COMPLAINT_CAP = 200"

definition complaint :: "string \<Rightarrow> string option" where
  "complaint stderr =
     map_option
       (\<lambda>line. if COMPLAINT_CAP < char_count line
          then concat (take COMPLAINT_CAP (chars line)) @ '' '' @ ellipsis else line)
       (find (\<lambda>l. l \<noteq> []) (map trim (rev (lines (from_utf8_lossy stderr)))))"

definition say :: "string option \<Rightarrow> tray_model \<Rightarrow> tray_model" where
  "say words m = (case words of None \<Rightarrow> m | Some text \<Rightarrow> set_notice None text None m)"

definition open_in_file_manager :: "action_answers \<Rightarrow> string \<Rightarrow> tray_model \<Rightarrow> tray_model" where
  "open_in_file_manager X path m =
     say (case ac_open X of
            Inr (success, status) \<Rightarrow> ran_well success (''xdg-open could not open '' @ path @ '': '' @ status)
          | Inl e \<Rightarrow> Some (''could not run xdg-open: '' @ io_text e)) m"

definition unit_verb :: "action_answers \<Rightarrow> string \<Rightarrow> tray_model \<Rightarrow> tray_model" where
  "unit_verb X verb m =
     say (case ac_unit X of
            Inr out \<Rightarrow>
              ran_well (out_ok out)
                (case complaint (out_stderr out) of
                   Some line \<Rightarrow> ''Could not '' @ verb @ '' the service: '' @ line
                 | None \<Rightarrow> ''Could not '' @ verb @ '' the service: systemctl exited with '' @ out_status out)
          | Inl e \<Rightarrow> Some (''could not run systemctl: '' @ io_text e)) m"

fun dispatch :: "action_answers \<Rightarrow> proxy option \<Rightarrow> action \<Rightarrow> tray_model \<Rightarrow> tray_model \<times> bus_call list" where
  "dispatch X p (ActMount name) m =
     (case p of
        Some _ \<Rightarrow> (case call_mount X name of (r, calls) \<Rightarrow> (say_outcome (ActMount name) r m, calls))
      | None \<Rightarrow> (unreachable_now (ActMount name) m, []))"
| "dispatch X p (ActUnmount name) m =
     (case p of
        Some _ \<Rightarrow> (case call_unmount X name of (r, calls) \<Rightarrow> (say_outcome (ActUnmount name) r m, calls))
      | None \<Rightarrow> (unreachable_now (ActUnmount name) m, []))"
| "dispatch X p (Open path) m = (open_in_file_manager X path m, [])"
| "dispatch X p StartService m = (unit_verb X ''start'' m, [])"
| "dispatch X p StopService m = (unit_verb X ''stop'' m, [])"
| "dispatch X p Refresh m = (m, [])"
| "dispatch X p Quit m = (m, [])"

text \<open>All the errands of one queue, whatever each is answered and whatever the link does meanwhile.\<close>

fun carry_all :: "(action_answers \<times> proxy option) list \<Rightarrow> errand list \<Rightarrow> tray_model \<Rightarrow> tray_model \<times> bus_call list" where
  "carry_all ((X, p) # XS) (Carry a # es) m =
     (case dispatch X p a m of (m, calls) \<Rightarrow> (case carry_all XS es m of (m, rest) \<Rightarrow> (m, calls @ rest)))"
| "carry_all (_ # XS) (Wake # es) m = carry_all XS es m"
| "carry_all _ _ m = (m, [])"

section \<open>What is written down\<close>

definition goes_well :: "action_answers \<Rightarrow> proxy option \<Rightarrow> bool" where
  "goes_well X p = (p \<noteq> None \<and> ac_call X = Inr () \<and> (case ac_took X of Some t \<Rightarrow> t \<le> 900000 | None \<Rightarrow> False))"

lemma say_outcome_cases:
  "say_outcome a r m = (case r of Inr _ \<Rightarrow> m
     | Inl e \<Rightarrow> set_notice (fst (target a)) (unwrap_or (fst (target a)) [] @ '': '' @ message e) (snd (target a)) m)"
  by (simp add: say_outcome_def outcome_def split: sum.split)

lemma acted_well:
  "acting (ac_took X) (map_sum from_ipc id (ac_call X)) = Inr u \<longleftrightarrow> ac_call X = Inr () \<and> (case ac_took X of Some t \<Rightarrow> t \<le> 900000 | None \<Rightarrow> False)"
  by (cases "ac_call X") (auto simp: acting_def in_time_def split: option.split)

definition call_of :: "action \<Rightarrow> bus_call list" where
  "call_of a = (case a of ActMount n \<Rightarrow> [CallMount n] | ActUnmount n \<Rightarrow> [CallUnmount n False] | _ \<Rightarrow> [])"

text \<open>Whether an action did what it was for, and what is to be said about one that did not.\<close>

definition done_well :: "action_answers \<Rightarrow> proxy option \<Rightarrow> action \<Rightarrow> bool" where
  "done_well X p a =
     (case a of
        ActMount _ \<Rightarrow> goes_well X p
      | ActUnmount _ \<Rightarrow> goes_well X p
      | Open _ \<Rightarrow> (case ac_open X of Inr (success, _) \<Rightarrow> success | Inl _ \<Rightarrow> False)
      | StartService \<Rightarrow> (case ac_unit X of Inr out \<Rightarrow> out_ok out | Inl _ \<Rightarrow> False)
      | StopService \<Rightarrow> (case ac_unit X of Inr out \<Rightarrow> out_ok out | Inl _ \<Rightarrow> False)
      | _ \<Rightarrow> True)"

definition service_words :: "action_answers \<Rightarrow> string \<Rightarrow> string" where
  "service_words X verb =
     (case ac_unit X of
        Inl e \<Rightarrow> ''could not run systemctl: '' @ io_text e
      | Inr out \<Rightarrow> ''Could not '' @ verb @ '' the service: ''
          @ unwrap_or (complaint (out_stderr out)) (''systemctl exited with '' @ out_status out))"

definition words_for :: "action_answers \<Rightarrow> proxy option \<Rightarrow> action \<Rightarrow> string" where
  "words_for X p a =
     (case a of
        Open path \<Rightarrow>
          (case ac_open X of
             Inl e \<Rightarrow> ''could not run xdg-open: '' @ io_text e
           | Inr (_, status) \<Rightarrow> ''xdg-open could not open '' @ path @ '': '' @ status)
      | StartService \<Rightarrow> service_words X ''start''
      | StopService \<Rightarrow> service_words X ''stop''
      | _ \<Rightarrow>
          if p = None then ''The service is not reachable''
          else unwrap_or (fst (target a)) [] @ '': ''
            @ message (case ac_took X of
                Some t \<Rightarrow> if t \<le> 900000 then (case ac_call X of Inl e \<Rightarrow> from_ipc e | Inr _ \<Rightarrow> Silent) else Silent
              | None \<Rightarrow> Silent))"

text \<open>
  C37: Every action says what became of it and nothing else. One that was done leaves the tray exactly
  as it is, its notice, which may be another action's, included: a mount or unmount the service carried
  out within its quarter of an hour, a file manager or a systemctl that ran and succeeded. Any other
  leaves one notice and changes nothing else: for a mount or unmount under that mount and answered by
  the state that was wanted, in the service's own words after the mount's name, or that it is not
  reachable; for the others what could not be run or done, with the first line there is of why. And the
  service gets the one call the action stands for where there is a link, and none otherwise.
\<close>

theorem an_action_says_what_became_of_it:
  assumes "dispatch X p a m = (m', calls)"
  shows "m' = (if done_well X p a then m
      else m\<lparr>tm_notice := Some \<lparr>no_mount = fst (target a), no_text = words_for X p a, no_answered_by = snd (target a)\<rparr>\<rparr>)
    \<and> calls = (if p = None then [] else call_of a)"
proof (cases a)
  case (ActMount n)
  show ?thesis
    using assms unfolding ActMount
    by (cases p; cases "ac_took X"; cases "ac_call X")
      (auto simp: call_mount_def say_outcome_cases unreachable_now_def goes_well_def done_well_def words_for_def
        call_of_def acting_def in_time_def set_notice_def)
next
  case (ActUnmount n)
  show ?thesis
    using assms unfolding ActUnmount
    by (cases p; cases "ac_took X"; cases "ac_call X")
      (auto simp: call_unmount_def say_outcome_cases unreachable_now_def goes_well_def done_well_def words_for_def
        call_of_def acting_def in_time_def set_notice_def)
qed (use assms in \<open>auto simp: open_in_file_manager_def unit_verb_def say_def done_well_def words_for_def service_words_def
  call_of_def ran_well_def unwrap_or_def set_notice_def split: sum.split option.split prod.split\<close>)

section \<open>From a click to the service\<close>

lemma dispatch_calls: "set (snd (dispatch X p a m)) \<subseteq> set (call_of a)"
  by (cases a; cases p) (simp_all add: call_of_def call_mount_def call_unmount_def)

lemma errands_carry: "Carry a \<in> set (errands as) \<Longrightarrow> a \<in> set as"
  by (induction as) (auto split: action.splits)

lemma carry_all_calls: "made \<in> set (snd (carry_all XS es m)) \<Longrightarrow> \<exists>a. Carry a \<in> set es \<and> made \<in> set (call_of a)"
proof (induction XS es m rule: carry_all.induct)
  case (1 X p XS a es m)
  obtain m1 c1 where d: "dispatch X p a m = (m1, c1)" by force
  obtain m2 c2 where r: "carry_all XS es m1 = (m2, c2)" by force
  have "made \<in> set c1 \<or> made \<in> set c2" using "1.prems" d r by simp
  then show ?case
  proof
    assume "made \<in> set c1"
    then show ?thesis using dispatch_calls [of X p a m] d by auto
  next
    assume "made \<in> set c2"
    then show ?thesis using "1.IH" [OF d [symmetric]] r by auto
  qed
qed auto

text \<open>A call the service may get for a click: unforced, about a mount of its own, for the state it is not in.\<close>

definition fair_call :: "tray_model \<Rightarrow> tray_model \<Rightarrow> bus_call \<Rightarrow> bool" where
  "fair_call m0 m made =
     (case made of
        CallMount n \<Rightarrow> (ours_in m0 n \<or> ours_in m n)
          \<and> (\<exists>v \<in> set (tm_mount_list m). mv_name v = n \<and> settled v \<and> \<not> mv_live v)
      | CallUnmount n force \<Rightarrow> \<not> force \<and> (ours_in m0 n \<or> ours_in m n)
          \<and> (\<exists>v \<in> set (tm_mount_list m). mv_name v = n \<and> settled v \<and> mv_live v))"

text \<open>
  C36: From the menu to the bus: whatever a click on an item of a menu queues, and whatever becomes
  of the link and of each request before it is carried out, every call the service gets for it is
  about a mount of its own, was sensible for the rows the tray held at the click, and never
  forces an unmount.
\<close>

theorem a_click_never_forces:
  assumes "c \<in> set (concat (map callbacks (Menu.build m0)))"
    "made \<in> set (snd (carry_all XS (errands (drop (length (tm_sent m)) (tm_sent (click c m)))) m'))"
  shows "fair_call m0 m made"
proof -
  have "names_ours m0 c"
    using assms(1) harmless_build [of m0] by (auto simp: harmless_def list_all_iff)
  then obtain as where as: "tm_sent (click c m) = tm_sent m @ (if tm_closed m then [] else as)"
      "\<forall>a \<in> set as. sensible m a \<and> (\<forall>n. fst (target a) = Some n \<longrightarrow> ours_in m0 n \<or> ours_in m n)"
    using click_sends [of c m m0] by blast
  obtain a where "Carry a \<in> set (errands (drop (length (tm_sent m)) (tm_sent (click c m))))" and made: "made \<in> set (call_of a)"
    using carry_all_calls [OF assms(2)] by blast
  then have "a \<in> set as" using errands_carry as(1) by (fastforce split: if_splits)
  with as(2) have "sensible m a" "\<forall>n. fst (target a) = Some n \<longrightarrow> ours_in m0 n \<or> ours_in m n" by blast+
  then show ?thesis using made by (cases a) (auto simp: call_of_def fair_call_def sensible_def)
qed

section \<open>Samples\<close>

definition silent_service :: action_answers where
  "silent_service =
     \<lparr>ac_took = None, ac_call = Inr (), ac_open = Inr (True, []),
      ac_unit = Inl (IoNotFound)\<rparr>"

theorem an_action_says_what_became_of_it_witness:
  "map_option no_text (tm_notice (fst (dispatch silent_service (Some None) (ActMount ''films'') films_tray)))
     = Some (''films: '' @ message Silent)"
proof -
  have "\<not> done_well silent_service (Some None) (ActMount ''films'')"
    by (simp add: done_well_def goes_well_def silent_service_def)
  then show ?thesis
    using an_action_says_what_became_of_it [OF prod.collapse [symmetric], of silent_service "Some None" "ActMount ''films''" films_tray]
    by (simp add: words_for_def silent_service_def)
qed

theorem a_click_never_forces_witness:
  "fair_call films_tray films_tray (CallUnmount ''films'' False)"
proof (rule a_click_never_forces)
  show "Ask ''films'' VUnmount \<in> set (concat (map callbacks (Menu.build films_tray)))"
    by (simp add: Menu.build_def connected_def films_tray films_row_def mount_item_def)
  have "tm_sent (click (Ask ''films'' VUnmount) films_tray) = [ActUnmount ''films'']"
    by (simp add: films_tray films_row_def settled_def act_sent)
  then show "CallUnmount ''films'' False \<in> set (snd (carry_all [(silent_service, Some None)]
      (errands (drop (length (tm_sent films_tray)) (tm_sent (click (Ask ''films'' VUnmount) films_tray)))) films_tray))"
    by (simp add: films_tray call_unmount_def)
qed

end
