(* ===== verification/Client.thy ===== *)
theory Client
  imports Actions
begin

text \<open>
  Driving the service from the command line (crates/tray/src/client.rs, and the exit of
  crates/tray/src/main.rs): one subcommand over a connection that may have failed, what it prints
  on either stream and the code it exits with. A document is kept as a value: its text is the JSON
  library's.
\<close>

section \<open>Documents\<close>

datatype json =
    JNull | JBool bool | JNum nat | JStr string | JArr "json list" | JObj "(string \<times> json) list"

definition json_opt :: "('a \<Rightarrow> json) \<Rightarrow> 'a option \<Rightarrow> json" where
  "json_opt f x = (case x of None \<Rightarrow> JNull | Some a \<Rightarrow> f a)"

abbreviation json_u64 :: "u64 \<Rightarrow> json" where "json_u64 n \<equiv> JNum (unat n)"

fun json_get :: "json \<Rightarrow> string \<Rightarrow> json option" where
  "json_get (JObj fs) k = map_of fs k"
| "json_get _ k = None"

text \<open>Assigning to a key an object lacks.\<close>

fun json_set :: "string \<Rightarrow> json \<Rightarrow> json \<Rightarrow> json" where
  "json_set k v (JObj fs) = JObj (fs @ [(k, v)])"
| "json_set k v d = d"

section \<open>A status\<close>

record mount_entry_view =
  en_view :: mount_view
  en_transfer :: "transfer_view option"

record status_snapshot =
  ss_interface_version :: "32 word"
  ss_service_version :: string
  ss_rclone_version :: string
  ss_capability_tier :: string
  ss_mounts :: "mount_entry_view list"

text \<open>A mount whose reading fails is still reported, without its outstanding work.\<close>

definition gather_status :: "bus_answers \<Rightarrow> tell_answers \<Rightarrow> link_error + status_snapshot" where
  "gather_status b s =
     and_then (open_link b) (\<lambda>_.
     and_then (map_sum from_ipc id (sa_interface s)) (\<lambda>interface.
     and_then (map_sum from_ipc id (sa_service s)) (\<lambda>service.
     and_then (map_sum from_ipc id (sa_rclone s)) (\<lambda>rclone.
     and_then (map_sum from_ipc id (sa_tier s)) (\<lambda>tier.
     and_then (map_sum from_ipc id (sa_mounts s)) (\<lambda>mounts.
       Inr \<lparr>ss_interface_version = interface, ss_service_version = service, ss_rclone_version = rclone,
            ss_capability_tier = tier,
            ss_mounts = map (\<lambda>v. \<lparr>en_view = v,
              en_transfer = (case sa_reading s (mv_name v) of Inr t \<Rightarrow> Some t | Inl _ \<Rightarrow> None)\<rparr>) mounts\<rparr>))))))"

definition transfer_file_json :: "transfer_file_view \<Rightarrow> json" where
  "transfer_file_json f =
     JObj [(''name'', JStr (fv_name f)), (''size'', json_opt json_u64 (fv_size f)),
       (''in_flight'', json_opt JBool (fv_in_flight f)), (''tries'', json_opt json_u64 (fv_tries f)),
       (''bytes_sent'', json_opt json_u64 (fv_bytes_sent f))]"

definition transfer_json :: "transfer_view \<Rightarrow> json" where
  "transfer_json t =
     JObj [(''fidelity'', json_opt JStr (tv_fidelity t)),
       (''outstanding_known'', JBool (tv_outstanding_known t)),
       (''has_progress'', JBool (tv_has_progress t)),
       (''pending_files'', json_u64 (tv_pending_files t)),
       (''pending_known_bytes'', json_u64 (tv_pending_known_bytes t)),
       (''pending_unknown_size_files'', json_u64 (tv_pending_unknown_size_files t)),
       (''uploading'', json_opt json_u64 (tv_uploading t)),
       (''errored_files'', json_opt json_u64 (tv_errored_files t)),
       (''out_of_space'', json_opt JBool (tv_out_of_space t)),
       (''rate_bytes_per_sec'', json_opt json_u64 (tv_rate t)),
       (''degraded_reason'', json_opt JStr (tv_degraded_reason t)),
       (''files'', JArr (map transfer_file_json (tv_files t)))]"

definition mount_entry_json :: "mount_entry_view \<Rightarrow> json" where
  "mount_entry_json e =
     JObj [(''name'', JStr (mv_name (en_view e))), (''state'', JStr (mv_state (en_view e))),
       (''live'', JBool (mv_live (en_view e))), (''managed'', JBool (mv_managed (en_view e))),
       (''reason'', json_opt JStr (mv_reason (en_view e))),
       (''mount_point'', json_opt JStr (mv_point (en_view e))),
       (''remote'', json_opt JStr (mv_remote (en_view e))),
       (''transfer'', json_opt transfer_json (en_transfer e))]"

definition status_json :: "status_snapshot \<Rightarrow> json" where
  "status_json snap =
     JObj [(''connected'', JBool True),
       (''service'', JObj [(''service_version'', JStr (ss_service_version snap)),
         (''interface_version'', JNum (unat (ss_interface_version snap))),
         (''client_interface_version'', JNum (unat INTERFACE_VERSION)),
         (''rclone_version'', JStr (ss_rclone_version snap)),
         (''capability_tier'', JStr (ss_capability_tier snap))]),
       (''mounts'', JArr (map mount_entry_json (ss_mounts snap)))]"

fun disconnected_reason :: "link_error \<Rightarrow> string" where
  "disconnected_reason NotRunning = ''service not running''"
| "disconnected_reason (NoSessionBus _) = ''no session bus''"
| "disconnected_reason Incompatible = ''interface incompatible''"
| "disconnected_reason (link_error.TooOld _ _) = ''service too old''"
| "disconnected_reason Silent = ''service did not answer''"
| "disconnected_reason (Transport _) = ''service unreachable''"
| "disconnected_reason (Refused _) = ''service unreachable''"

definition disconnected_json :: "link_error \<Rightarrow> json" where
  "disconnected_json e =
     (let doc = JObj [(''connected'', JBool False), (''reason'', JStr (disconnected_reason e)),
                      (''detail'', JStr (message e)), (''mounts'', JNull)]
      in if e = NotRunning then json_set ''start_hint'' (JStr START_HINT) doc else doc)"

section \<open>For a reader\<close>

text \<open>\<^verbatim>\<open>{:<w$}\<close>: padded to a number of characters, the width itself counted in bytes.\<close>

definition pad :: "nat \<Rightarrow> string \<Rightarrow> string" where
  "pad w s = s @ replicate (w - char_count s) CHR '' ''"

definition name_width :: "nat list \<Rightarrow> nat" where
  "name_width ns = foldr max ns (length ''NAME'')"

definition render_list :: "mount_view list \<Rightarrow> string list" where
  "render_list mounts =
     (if mounts = [] then [''No mounts configured.'']
      else
        (let w = name_width (map (\<lambda>m. length (mv_name m)) mounts) in
         (pad w ''NAME'' @ ''  '' @ pad 10 ''STATE'' @ ''  '' @ pad 7 ''LIVE'' @ ''  '' @ ''MOUNT POINT'')
           # map (\<lambda>m. pad w (mv_name m) @ ''  '' @ pad 10 (mv_state m) @ ''  ''
                    @ pad 7 (if mv_live m then ''live'' else ''-'') @ ''  '' @ unwrap_or (mv_point m) ''-'')
               mounts))"

definition pending_line_of :: "mount_entry_view \<Rightarrow> string" where
  "pending_line_of e =
     (case en_transfer e of
        None \<Rightarrow> ''-''
      | Some t \<Rightarrow>
          if \<not> tv_outstanding_known t then ''unknown''
          else if tv_pending_files t = 0 then ''up to date''
          else show_u64 (tv_pending_files t) @ '' file(s), '' @ show_u64 (tv_pending_known_bytes t) @ '' bytes'')"

definition render_status_human :: "status_snapshot \<Rightarrow> string list" where
  "render_status_human snap =
     [''service '' @ ss_service_version snap @ ''  (interface '' @ show_nat (unat (ss_interface_version snap))
        @ '', client '' @ show_nat (unat INTERFACE_VERSION) @ '')'',
      ''rclone  '' @ ss_rclone_version snap,
      ''capability tier: '' @ ss_capability_tier snap,
      []]
     @ (if ss_mounts snap = [] then [''No mounts configured.'']
        else
          (let w = name_width (map (\<lambda>e. length (mv_name (en_view e))) (ss_mounts snap)) in
           (pad w ''NAME'' @ ''  '' @ pad 10 ''STATE'' @ ''  '' @ ''PENDING'')
             # map (\<lambda>e. pad w (mv_name (en_view e)) @ ''  '' @ pad 10 (mv_state (en_view e)) @ ''  ''
                      @ pending_line_of e) (ss_mounts snap)))"

section \<open>The subcommands\<close>

datatype command = CmdList | CmdMount string | CmdUnmount string bool | CmdStatus bool

text \<open>What the session bus and the service answer.\<close>

record cli_answers =
  ca_session :: "zbus_error + unit"
  ca_open :: bus_answers
  ca_tell :: tell_answers
  ca_call :: "ipc_error + unit"

datatype printed = Line string | Doc json

type_synonym run_result = "(link_error + unit) \<times> printed list \<times> bus_call list"

definition emit_status :: "status_snapshot \<Rightarrow> bool \<Rightarrow> printed list" where
  "emit_status snap json =
     (if json then [Doc (status_json snap)] else map Line (render_status_human snap))"

definition emit_disconnected :: "link_error \<Rightarrow> bool \<Rightarrow> printed list" where
  "emit_disconnected e json = (if json then [Doc (disconnected_json e)] else [])"

definition run_status :: "link_error + unit \<Rightarrow> cli_answers \<Rightarrow> bool \<Rightarrow> run_result" where
  "run_status conn X json =
     (case conn of
        Inr _ \<Rightarrow>
          (case gather_status (ca_open X) (ca_tell X) of
             Inr snap \<Rightarrow> (Inr (), emit_status snap json, [])
           | Inl e \<Rightarrow> (Inl e, emit_disconnected e json, []))
      | Inl e \<Rightarrow> (Inl e, emit_disconnected e json, []))"

definition run_call :: "link_error + unit \<Rightarrow> cli_answers \<Rightarrow> bus_call \<Rightarrow> string \<Rightarrow> run_result" where
  "run_call conn X req said =
     (case and_then conn (\<lambda>_. open_link (ca_open X)) of
        Inl e \<Rightarrow> (Inl e, [], [])
      | Inr _ \<Rightarrow>
          (case map_sum from_ipc id (ca_call X) of
             Inl e \<Rightarrow> (Inl e, [], [req])
           | Inr _ \<Rightarrow> (Inr (), [Line said], [req])))"

fun execute :: "link_error + unit \<Rightarrow> cli_answers \<Rightarrow> command \<Rightarrow> run_result" where
  "execute conn X (CmdStatus json) = run_status conn X json"
| "execute conn X CmdList =
     (case and_then conn (\<lambda>_. and_then (open_link (ca_open X)) (\<lambda>_.
              map_sum from_ipc id (sa_mounts (ca_tell X)))) of
        Inl e \<Rightarrow> (Inl e, [], [])
      | Inr mounts \<Rightarrow> (Inr (), map Line (render_list mounts), []))"
| "execute conn X (CmdMount name) = run_call conn X (CallMount name) (''mounted '' @ name)"
| "execute conn X (CmdUnmount name force) =
     run_call conn X (CallUnmount name force) (''unmounted '' @ name)"

text \<open>What the process makes of it: standard output, standard error, and the exit code.\<close>

record exited =
  ex_out :: "printed list"
  ex_err :: "string list"
  ex_code :: nat

definition main_run :: "cli_answers \<Rightarrow> command \<Rightarrow> exited" where
  "main_run X c =
     (case execute (map_sum NoSessionBus id (ca_session X)) X c of
        (Inr _, out, _) \<Rightarrow> \<lparr>ex_out = out, ex_err = [], ex_code = 0\<rparr>
      | (Inl e, out, _) \<Rightarrow>
          \<lparr>ex_out = out, ex_err = (if c = CmdStatus True then [] else [message e]), ex_code = exit_code e\<rparr>)"

section \<open>Properties\<close>

lemma exit_code_pos [simp]: "exit_code e \<noteq> 0"
  by (cases e) simp_all

lemma exit_code_3 [simp]: "exit_code e = 3 \<longleftrightarrow> e = NotRunning"
  by (cases e) simp_all

text \<open>The reasons \<^verbatim>\<open>docs/CLI.md\<close> lists.\<close>

definition documented_reasons :: "string list" where
  "documented_reasons =
     [''service not running'', ''no session bus'', ''interface incompatible'', ''service too old'',
      ''service did not answer'', ''service unreachable'']"

lemma disconnected_get:
  "json_get (disconnected_json e) ''connected'' = Some (JBool False)"
  "json_get (disconnected_json e) ''mounts'' = Some JNull"
  "json_get (disconnected_json e) ''reason'' = Some (JStr (disconnected_reason e))"
  "json_get (disconnected_json e) ''start_hint'' = (if e = NotRunning then Some (JStr START_HINT) else None)"
  by (simp_all add: disconnected_json_def Let_def)

lemma status_get:
  "json_get (status_json snap) ''connected'' = Some (JBool True)"
  "json_get (status_json snap) ''mounts'' = Some (JArr (map mount_entry_json (ss_mounts snap)))"
  "json_get (status_json snap) ''start_hint'' = None"
  by (simp_all add: status_json_def)

lemma reason_documented: "disconnected_reason e \<in> set documented_reasons"
  by (cases e) (simp_all add: documented_reasons_def)

text \<open>
  C38: A service that could not be asked never reads as one without mounts. Whatever the session
  bus and the service answer, \<^verbatim>\<open>status --json\<close> prints exactly one document and nothing on
  standard error; the document says it is connected exactly when the exit code is 0, its mounts
  are null exactly when it is not, there is a documented reason then, and a hint how to start the
  service exactly on the exit code of a stopped one. Every other subcommand that fails prints
  nothing but one sentence on standard error.
\<close>

theorem a_lost_service_is_not_an_empty_one:
  "(\<exists>doc. main_run X (CmdStatus True) =
        \<lparr>ex_out = [Doc doc], ex_err = [], ex_code = ex_code (main_run X (CmdStatus True))\<rparr>
      \<and> json_get doc ''connected'' = Some (JBool (ex_code (main_run X (CmdStatus True)) = 0))
      \<and> (json_get doc ''mounts'' = Some JNull \<longleftrightarrow> ex_code (main_run X (CmdStatus True)) \<noteq> 0)
      \<and> (json_get doc ''start_hint'' \<noteq> None \<longleftrightarrow> ex_code (main_run X (CmdStatus True)) = 3)
      \<and> (ex_code (main_run X (CmdStatus True)) = 0
         \<or> (\<exists>r. json_get doc ''reason'' = Some (JStr r) \<and> r \<in> set documented_reasons)))
    \<and> (c = CmdStatus True \<or> ex_code (main_run X c) = 0
       \<or> ex_out (main_run X c) = [] \<and> length (ex_err (main_run X c)) = 1)"
proof
  let ?conn = "map_sum NoSessionBus id (ca_session X)"
  show "\<exists>doc. main_run X (CmdStatus True) =
        \<lparr>ex_out = [Doc doc], ex_err = [], ex_code = ex_code (main_run X (CmdStatus True))\<rparr>
      \<and> json_get doc ''connected'' = Some (JBool (ex_code (main_run X (CmdStatus True)) = 0))
      \<and> (json_get doc ''mounts'' = Some JNull \<longleftrightarrow> ex_code (main_run X (CmdStatus True)) \<noteq> 0)
      \<and> (json_get doc ''start_hint'' \<noteq> None \<longleftrightarrow> ex_code (main_run X (CmdStatus True)) = 3)
      \<and> (ex_code (main_run X (CmdStatus True)) = 0
         \<or> (\<exists>r. json_get doc ''reason'' = Some (JStr r) \<and> r \<in> set documented_reasons))"
  proof (cases "and_then ?conn (\<lambda>_. gather_status (ca_open X) (ca_tell X))")
    case (Inl e)
    then have "main_run X (CmdStatus True) = \<lparr>ex_out = [Doc (disconnected_json e)], ex_err = [], ex_code = exit_code e\<rparr>"
      by (auto simp: main_run_def run_status_def and_then_def emit_disconnected_def split: sum.splits)
    then show ?thesis using reason_documented [of e] by (cases e) (simp_all add: disconnected_get)
  next
    case (Inr snap)
    then have "main_run X (CmdStatus True) = \<lparr>ex_out = [Doc (status_json snap)], ex_err = [], ex_code = 0\<rparr>"
      by (auto simp: main_run_def run_status_def and_then_def emit_status_def split: sum.splits)
    then show ?thesis by (simp add: status_get)
  qed
  show "c = CmdStatus True \<or> ex_code (main_run X c) = 0
      \<or> ex_out (main_run X c) = [] \<and> length (ex_err (main_run X c)) = 1"
    by (cases c)
      (auto simp: main_run_def run_status_def run_call_def and_then_def emit_disconnected_def split: sum.splits)
qed

text \<open>
  A mount is called up to date on the command line exactly when it is safe to unmount: for a
  reading the service made of a state, the line says so if and only if the state vouches for its
  total and the total is no file; it says it does not know exactly when the state does not vouch;
  and it is a dash only without a reading.
\<close>

theorem up_to_date_means_safe_to_unmount:
  "(pending_line_of \<lparr>en_view = v, en_transfer = Some (transfer_view_of s)\<rparr> = ''up to date'' \<longleftrightarrow> safe_to_unmount s)
    \<and> (pending_line_of \<lparr>en_view = v, en_transfer = Some (transfer_view_of s)\<rparr> = ''unknown''
       \<longleftrightarrow> \<not> ts_outstanding_known s)
    \<and> (pending_line_of e = ''-'' \<longleftrightarrow> en_transfer e = None)"
proof -
  have counted: "show_u64 n @ '' file(s), '' @ t \<noteq> c # w" if "\<not> is_ascii_digit c" for n t c w
  proof -
    have "show_u64 n \<noteq> []" by (simp add: show_u64_def show_nat_def show_base.simps)
    moreover have "list_all is_ascii_digit (show_u64 n)" by (simp add: show_u64_def show_nat_def show_digits)
    ultimately show ?thesis using that by (cases "show_u64 n") auto
  qed
  have "\<not> is_ascii_digit (CHR ''u'')" "\<not> is_ascii_digit (CHR ''-'')"
    by (simp_all add: is_ascii_digit_def less_eq_char_def)
  note counted = this [THEN counted]
  show ?thesis
    by (auto simp: pending_line_of_def transfer_view_of_def safe_to_unmount_def is_idle_def counted
        split: option.split)
qed

section \<open>Columns\<close>

lemma chars_append: "b = [] \<or> \<not> is_cont (hd b) \<Longrightarrow> chars (a @ b) = chars a @ chars b"
proof (induction a rule: chars.induct)
  case (2 c s)
  show ?case
  proof (cases "list_all is_cont s")
    case True
    then have whole: "takeWhile is_cont s = s" "dropWhile is_cont s = []"
      by (induction s) simp_all
    moreover have "takeWhile is_cont b = []" "dropWhile is_cont b = b" using 2(2) by (cases b; simp)+
    ultimately have joined: "takeWhile is_cont (s @ b) = s" "dropWhile is_cont (s @ b) = b"
      using True by (simp_all add: list_all_iff takeWhile_append2 dropWhile_append2)
    show ?thesis by (simp only: chars.simps append_Cons append_Nil whole joined)
  next
    case False
    then obtain x where "x \<in> set s" "\<not> is_cont x" by (auto simp: list_all_iff)
    then show ?thesis using 2 by (simp add: takeWhile_append1 dropWhile_append1)
  qed
qed simp

lemma count_append: "b = [] \<or> \<not> is_cont (hd b) \<Longrightarrow> char_count (a @ b) = char_count a + char_count b"
  by (simp add: char_count_def chars_append)

lemma count_ascii: "list_all (\<lambda>c. \<not> is_cont c) s \<Longrightarrow> char_count s = length s"
  by (simp add: char_count_def chars_ascii)

lemma count_le_length: "char_count s \<le> length s"
  by (induction s rule: chars.induct) (auto simp: char_count_def intro: le_trans [OF _ length_dropWhile_le])

lemma space_whole: "\<not> is_cont CHR '' ''"
  by (simp add: is_cont_def)

lemma count_pad: "char_count (pad w s) = max w (char_count s)"
proof -
  have "char_count (replicate n CHR '' '') = n" for n
    using count_ascii [of "replicate n CHR '' ''"] space_whole by (simp add: list_all_iff)
  then show ?thesis
    unfolding pad_def by (subst count_append) (auto simp: space_whole hd_replicate replicate_empty)
qed

lemma name_width_bounds: "4 \<le> name_width ns" "n \<in> set ns \<Longrightarrow> n \<le> name_width ns"
  unfolding name_width_def by (induction ns) auto

text \<open>A name of the width, a state and whatever plain text stands between it and the last column.\<close>

lemma row_prefix:
  assumes "char_count name \<le> w" "list_all (\<lambda>c. \<not> is_cont c) st" "length st \<le> 10" "list_all (\<lambda>c. \<not> is_cont c) mid"
  shows "char_count (pad w name @ ''  '' @ pad 10 st @ ''  '' @ mid) = w + 14 + length mid"
proof -
  have tail: "list_all (\<lambda>c. \<not> is_cont c) (''  '' @ pad 10 st @ ''  '' @ mid)"
    using assms space_whole by (auto simp: pad_def list_all_iff)
  have "char_count (''  '' @ pad 10 st @ ''  '' @ mid) = 14 + length mid"
    using count_ascii [OF tail] assms count_ascii [OF assms(2)] by (simp add: pad_def)
  moreover have "char_count (pad w name) = w" using assms(1) by (simp add: count_pad)
  ultimately show ?thesis
    using count_append [of "''  '' @ pad 10 st @ ''  '' @ mid" "pad w name"] by (simp add: space_whole)
qed

lemma state_names: "list_all (\<lambda>c. \<not> is_cont c) (state_name st)" "length (state_name st) \<le> 10"
  by (cases st; simp add: is_cont_def)+

lemma live_cells: "list_all (\<lambda>c. \<not> is_cont c) (pad 7 (if b then ''live'' else ''-''))"
  "length (pad 7 (if b then ''live'' else ''-'')) = 7"
proof -
  have "char_count (if b then ''live'' else ''-'') = length (if b then ''live'' else ''-'')"
    by (rule count_ascii) (simp add: is_cont_def)
  then show "length (pad 7 (if b then ''live'' else ''-'')) = 7" by (cases b) (simp_all add: pad_def)
  show "list_all (\<lambda>c. \<not> is_cont c) (pad 7 (if b then ''live'' else ''-''))"
    by (simp add: pad_def list_all_iff is_cont_def)
qed

lemma line_prefix:
  assumes "char_count name \<le> w" "list_all (\<lambda>c. \<not> is_cont c) st" "length st \<le> 10" "list_all (\<lambda>c. \<not> is_cont c) mid"
    and "n = w + 14 + length mid"
  shows "\<exists>p. pad w name @ ''  '' @ pad 10 st @ ''  '' @ mid @ cell = p @ cell \<and> char_count p = n"
  using row_prefix [OF assms(1-4)] assms(5)
  by (intro exI [of _ "pad w name @ ''  '' @ pad 10 st @ ''  '' @ mid"]) simp

lemma name_fits: "length name \<in> set ns \<Longrightarrow> char_count name \<le> name_width ns"
  using name_width_bounds(2) count_le_length le_trans by blast

lemma headers:
  "char_count ''NAME'' \<le> name_width ns" "list_all (\<lambda>c. \<not> is_cont c) ''STATE''"
  "list_all (\<lambda>c. \<not> is_cont c) (pad 7 ''LIVE'')" "length (pad 7 ''LIVE'') = 7"
  using name_width_bounds(1) [of ns] count_ascii [of "''LIVE''"] count_ascii [of "''NAME''"]
  by (simp_all add: is_cont_def pad_def list_all_iff)

lemma list_columns:
  fixes ds
  defines "w \<equiv> name_width (map (\<lambda>d. length (dm_name d)) ds)"
  assumes "ds \<noteq> []"
  shows "list_all2 (\<lambda>l cell. \<exists>p. l = p @ cell \<and> char_count p = w + 23) (render_list (map mount_view_of ds))
    (''MOUNT POINT'' # map (\<lambda>d. unwrap_or (map_option from_utf8_lossy (dm_point d)) ''-'') ds)"
proof -
  have "\<exists>p. pad w ''NAME'' @ ''  '' @ pad 10 ''STATE'' @ ''  '' @ (pad 7 ''LIVE'' @ ''  '') @ ''MOUNT POINT''
      = p @ ''MOUNT POINT'' \<and> char_count p = w + 23"
    using headers by (intro line_prefix) (simp_all add: w_def space_whole)
  moreover have "\<exists>p. pad w (dm_name d) @ ''  '' @ pad 10 (state_name st) @ ''  ''
      @ (pad 7 (if b then ''live'' else ''-'') @ ''  '') @ cell = p @ cell \<and> char_count p = w + 23"
    if "d \<in> set ds" for d st b cell
    using that state_names live_cells [of b]
    by (intro line_prefix) (simp_all add: w_def name_fits space_whole)
  ultimately show ?thesis
    using assms(2)
    by (simp add: render_list_def Let_def comp_def mount_view_of_def list.rel_map w_def list.rel_refl_strong)
qed

lemma status_columns:
  fixes dts
  defines "w \<equiv> name_width (map (\<lambda>(d, t). length (dm_name d)) dts)"
    and "es \<equiv> map (\<lambda>(d, t). \<lparr>en_view = mount_view_of d, en_transfer = t\<rparr>) dts"
  assumes "dts \<noteq> []"
  shows "list_all2 (\<lambda>l cell. \<exists>p. l = p @ cell \<and> char_count p = w + 14)
    (drop 4 (render_status_human (snap\<lparr>ss_mounts := es\<rparr>))) (''PENDING'' # map pending_line_of es)"
proof -
  have width: "name_width (map (\<lambda>e. length (mv_name (en_view e))) es) = w"
    by (simp add: es_def w_def comp_def case_prod_unfold mount_view_of_def)
  have "\<exists>p. pad w ''NAME'' @ ''  '' @ pad 10 ''STATE'' @ ''  '' @ [] @ ''PENDING'' = p @ ''PENDING'' \<and> char_count p = w + 14"
    using headers by (intro line_prefix) (simp_all add: w_def)
  moreover have "\<exists>p. pad w (dm_name (fst x)) @ ''  '' @ pad 10 (state_name st) @ ''  '' @ [] @ cell = p @ cell
      \<and> char_count p = w + 14" if "x \<in> set dts" for x st cell
    using that state_names
    by (intro line_prefix name_fits [folded w_def]) (auto simp: w_def case_prod_unfold intro!: name_fits)
  ultimately show ?thesis
    using assms(3) unfolding render_status_human_def
    by (simp add: Let_def width)
      (simp add: es_def comp_def case_prod_unfold mount_view_of_def list.rel_map list.rel_refl_strong)
qed

text \<open>
  The columns of both tables line up, whatever the mounts are called and wherever they are:
  over what the service lists, every line is a prefix of one and the same number of characters
  and then its last column, the header's included; there is one line for each mount, in the
  service's order, and only a service that listed none is said to have none.
\<close>

theorem columns_line_up:
  "(if ds = [] then render_list (map mount_view_of ds) = [''No mounts configured.'']
    else list_all2 (\<lambda>l cell. \<exists>p. l = p @ cell \<and> char_count p = name_width (map (\<lambda>d. length (dm_name d)) ds) + 23)
           (render_list (map mount_view_of ds))
           (''MOUNT POINT'' # map (\<lambda>d. unwrap_or (map_option from_utf8_lossy (dm_point d)) ''-'') ds))
    \<and> (let es = map (\<lambda>(d, t). \<lparr>en_view = mount_view_of d, en_transfer = t\<rparr>) dts in
       if dts = [] then drop 4 (render_status_human (snap\<lparr>ss_mounts := es\<rparr>)) = [''No mounts configured.'']
       else list_all2 (\<lambda>l cell. \<exists>p. l = p @ cell
                \<and> char_count p = name_width (map (\<lambda>(d, t). length (dm_name d)) dts) + 14)
              (drop 4 (render_status_human (snap\<lparr>ss_mounts := es\<rparr>))) (''PENDING'' # map pending_line_of es))"
proof (intro conjI)
  show "if ds = [] then render_list (map mount_view_of ds) = [''No mounts configured.'']
    else list_all2 (\<lambda>l cell. \<exists>p. l = p @ cell \<and> char_count p = name_width (map (\<lambda>d. length (dm_name d)) ds) + 23)
           (render_list (map mount_view_of ds))
           (''MOUNT POINT'' # map (\<lambda>d. unwrap_or (map_option from_utf8_lossy (dm_point d)) ''-'') ds)"
    using list_columns [of ds] by (simp add: render_list_def)
  show "let es = map (\<lambda>(d, t). \<lparr>en_view = mount_view_of d, en_transfer = t\<rparr>) dts in
       if dts = [] then drop 4 (render_status_human (snap\<lparr>ss_mounts := es\<rparr>)) = [''No mounts configured.'']
       else list_all2 (\<lambda>l cell. \<exists>p. l = p @ cell
                \<and> char_count p = name_width (map (\<lambda>(d, t). length (dm_name d)) dts) + 14)
              (drop 4 (render_status_human (snap\<lparr>ss_mounts := es\<rparr>))) (''PENDING'' # map pending_line_of es)"
    using status_columns [of dts snap] by (cases "dts = []") (simp_all add: Let_def render_status_human_def)
qed

end
