(* ===== verification/Startup.thy ===== *)
theory Startup
  imports Agreement Client
begin

text \<open>
  The service's own life (crates/service/src/main.rs): what it settles before anything else, the
  command \<^verbatim>\<open>ExecStartPre\<close> runs, the sweep that comes before the name is taken, the loop, and
  the end. What the process is started with and what the outside answers is a parameter.
\<close>

section \<open>What is settled first\<close>

record boot =
  boot_flag :: "string option"
  boot_rust_log :: "string option"
  boot_config :: "string option"
  boot_canonical :: "string \<Rightarrow> string option"
  boot_xdg_config :: "string option"
  boot_home :: "string option"
  boot_xdg_runtime :: "string option"
  boot_unicode :: unicode
  boot_version :: "string \<Rightarrow> string + 32 word"
  boot_reader :: "string \<Rightarrow> string + config"
  boot_file :: "string \<Rightarrow> io_error + string"
  boot_env :: environment
  boot_units :: "string + unit"
  boot_now :: int
  boot_lag :: nat
  boot_tick :: tick_answers
  boot_name :: name_answer

datatype boot_error =
    BootLogLevel string
  | BootConfig config_error
  | BootNoRuntimeDir
  | BootPrepare supervisor_error
  | BootRclone rclone_error
  | BootUnits string
  | BootName string

definition runtime_dir :: "string option \<Rightarrow> boot_error + string" where
  "runtime_dir xdg =
     (case option_filter (\<lambda>v. v \<noteq> []) xdg of
        None \<Rightarrow> Inl BootNoRuntimeDir
      | Some base \<Rightarrow> Inr (path_join base ''rclone-vfsmount-tray''))"

definition config_path_of :: "boot \<Rightarrow> boot_error + string" where
  "config_path_of B =
     (case boot_config B of
        Some p \<Rightarrow> Inr (unwrap_or (boot_canonical B p) p)
      | None \<Rightarrow> map_sum BootConfig id (default_path (boot_xdg_config B) (boot_home B)))"

definition settle :: "boot \<Rightarrow> boot_error + config \<times> string \<times> string" where
  "settle B =
     and_then (map_sum BootLogLevel id (resolve_log_filter (boot_flag B) (boot_rust_log B))) (\<lambda>_.
     and_then (config_path_of B) (\<lambda>path.
     and_then (map_sum BootConfig id
        (load (boot_unicode B) (boot_version B) (boot_reader B) path (boot_file B path))) (\<lambda>c.
     and_then (runtime_dir (boot_xdg_runtime B)) (\<lambda>dir. Inr (c, path, dir)))))"

definition prepare_command :: "boot \<Rightarrow> string \<Rightarrow> host \<Rightarrow> sys \<Rightarrow> (boot_error + unit) \<times> sys" where
  "prepare_command B name H s =
     (case settle B of
        Inl e \<Rightarrow> (Inl e, s)
      | Inr (c, path, dir) \<Rightarrow>
          (case prepare_for_start c dir name H s of (r, s') \<Rightarrow> (map_sum BootPrepare id r, s')))"

section \<open>Serving\<close>

text \<open>One turn of the loop: a sweep that is due asks the host.\<close>

definition turn :: "supervisor \<Rightarrow> tick_answers \<Rightarrow> watch \<Rightarrow> host \<Rightarrow> sys \<Rightarrow> (watch \<times> change list) \<times> sys" where
  "turn S T w H s =
     (if wt_sweep_due w \<le> ti_now T
      then (case reconcile S H s of (found, s') \<Rightarrow>
              (watch_act (sp_config S) (Ticked (T\<lparr>ti_found := found\<rparr>)) w, s'))
      else (watch_act (sp_config S) (Ticked T) w, s))"

text \<open>Asking the bus for the name, which is seen: from then on a client can call.\<close>

definition request_name :: "name_answer \<Rightarrow> sys \<Rightarrow> (string + unit) \<times> sys" where
  "request_name a s = (take_name a, s\<lparr>sy_log := EvRequestName BUS_NAME (a = PrimaryOwner) # sy_log s\<rparr>)"

text \<open>
  The first sweep, and only then the name. The clock does not run backwards, and nobody can be
  listening to what the first turn changed.
\<close>

definition start_service :: "boot \<Rightarrow> host \<Rightarrow> sys \<Rightarrow> (boot_error + supervisor \<times> watch) \<times> sys" where
  "start_service B H s =
     (case and_then (settle B) (\<lambda>(c, path, dir).
        and_then (map_sum BootRclone id (discover (boot_env B) (gc_rclone_path (cf_global c)))) (\<lambda>rc.
        and_then (map_sum BootUnits id (boot_units B)) (\<lambda>_.
          Inr (supervisor_new c (rl_path rc) dir path)))) of
        Inl e \<Rightarrow> (Inl e, s)
      | Inr S \<Rightarrow>
          (case turn S ((boot_tick B)\<lparr>ti_now := boot_now B + int (boot_lag B)\<rparr>) (watch_new (boot_now B)) H s of
             ((w, _), s') \<Rightarrow>
               (case request_name (boot_name B) s' of
                  (Inl e, s'') \<Rightarrow> (Inl (BootName e), s'')
                | (Inr _, s'') \<Rightarrow> (Inr (S, w), s''))))"

section \<open>A start only asks\<close>

abbreviation only_asked :: "sys \<Rightarrow> sys \<Rightarrow> bool" where
  "only_asked s s' \<equiv> \<exists>new. sy_log s' = new @ sy_log s \<and> list_all question new"

lemma only_asked_trans: "only_asked s s' \<Longrightarrow> only_asked s' s'' \<Longrightarrow> only_asked s s''"
  by (metis append.assoc list_all_append)

lemma turn_asks: "only_asked s (snd (turn S T w H s))"
proof -
  obtain found s' where 1: "reconcile S H s = (found, s')" by force
  have "only_asked s (snd (reconcile S H s))" using asks_reconcile [of S] unfolding behaves_def by blast
  then show ?thesis by (simp add: turn_def 1)
qed

lemma request_asks: "request_name a s = (r, s') \<Longrightarrow> only_asked s s'"
  by (auto simp: request_name_def)

text \<open>How a start goes: nothing at all, or the first turn and then the name.\<close>

lemma start_cases:
  assumes "start_service B H s = (r, s')"
  obtains (unsettled) e where "r = Inl e" "s' = s"
  | (looked) S w cs t where
      "turn S ((boot_tick B)\<lparr>ti_now := boot_now B + int (boot_lag B)\<rparr>) (watch_new (boot_now B)) H s = ((w, cs), t)"
      "s' = t\<lparr>sy_log := EvRequestName BUS_NAME (boot_name B = PrimaryOwner) # sy_log t\<rparr>"
      "case r of Inl e \<Rightarrow> boot_name B \<noteq> PrimaryOwner \<and> (\<exists>x. e = BootName x)
         | Inr out \<Rightarrow> boot_name B = PrimaryOwner \<and> out = (S, w)"
proof -
  have "case take_name a of Inl _ \<Rightarrow> a \<noteq> PrimaryOwner | Inr _ \<Rightarrow> a = PrimaryOwner" for a
    by (cases a) (simp_all add: take_name_def)
  note name = this [of "boot_name B"]
  show thesis
    using assms name looked unsettled
    by (cases "take_name (boot_name B)") (fastforce simp: start_service_def request_name_def split: sum.splits prod.splits)+
qed

lemma started_turn:
  assumes "start_service B H s = (Inr (S, w), s')"
  obtains cs t where
    "turn S ((boot_tick B)\<lparr>ti_now := boot_now B + int (boot_lag B)\<rparr>) (watch_new (boot_now B)) H s = ((w, cs), t)"
    "s' = t\<lparr>sy_log := EvRequestName BUS_NAME True # sy_log t\<rparr>" "boot_name B = PrimaryOwner"
  using assms by (cases rule: start_cases) auto

lemma start_asks: "only_asked s (snd (start_service B H s))"
proof (cases "start_service B H s")
  case (Pair r s')
  then show ?thesis
  proof (cases rule: start_cases)
    case (looked S w cs t)
    have "only_asked s t" using turn_asks [where H = H and s = s] looked(1) by (metis snd_conv)
    moreover have "only_asked t s'" using looked(2) by simp
    ultimately show ?thesis using only_asked_trans Pair by simp
  qed (use Pair in simp)
qed

text \<open>The first turn always sweeps.\<close>

lemma first_turn_log:
  assumes "turn S T (watch_new n) H s = (out, s')" "n \<le> ti_now T"
  shows "s' = snd (reconcile S H s)"
  using assms by (auto simp: turn_def watch_new_def split: prod.splits)

section \<open>The first sweep\<close>

lemma tick_rows:
  "rg_mounts (wt_registry (fst (tick c T w))) = rg_mounts (wt_registry (fst (sweep_if_due c T (forget_cycled w))))"
proof -
  obtain w' cs n where t: "tick c T w = (w', cs, n)" by (metis prod_cases3)
  obtain w1 c1 c2 where parts: "sweep_if_due c T (forget_cycled w) = (w1, c1)" "poll_due c T w1 = (w', c2)"
    using tick_parts [OF t] by metis
  show ?thesis
    using poll_each_effect [OF parts(2) [unfolded poll_due_def]]
    by (simp add: t parts(1) keep_pollable_def Let_def)
qed

lemma first_rows:
  assumes "turn S T (watch_new n) H s = ((w, cs), s')" "n \<le> ti_now T"
  shows "case fst (reconcile S H s) of
      Inr found \<Rightarrow> rg_mounts (wt_registry w) = rows_of (map (found_view (sp_config S)) found)
    | Inl _ \<Rightarrow> rg_mounts (wt_registry w) = []"
proof -
  obtain found t where r: "reconcile S H s = (found, t)" by force
  let ?T = "T\<lparr>ti_found := found\<rparr>"
  have w: "w = fst (tick (sp_config S) ?T (watch_new n))"
    using assms by (auto simp: turn_def r watch_new_def split: prod.splits)
  show ?thesis
  proof (cases found)
    case (Inl e)
    then show ?thesis
      using assms(2)
      by (simp add: r w tick_rows sweep_if_due_def sweep_mounts_def forget_cycled_def watch_new_def registry_default_def)
  next
    case (Inr ds)
    obtain rg cs where o: "observe_mounts (map (found_view (sp_config S)) ds) registry_default = (rg, cs)" by force
    then have "rg_mounts rg = rows_of (map (found_view (sp_config S)) ds)" using observe_mounts_rows by blast
    then show ?thesis
      using assms(2) Inr o
      by (simp add: r w tick_rows sweep_if_due_def sweep_mounts_def forget_cycled_def watch_new_def)
  qed
qed

lemma rows_named:
  "list_all2 (\<lambda>m r. dm_name r = mt_name m \<and> dm_point r = Some (mt_point m)) ms rs \<Longrightarrow> mt_name ` set ms \<subseteq> dm_name ` set rs"
  by (induction rule: list_all2_induct) auto

lemma configured_named:
  assumes "reconcile S H s = (Inr ds, t)"
  shows "mt_name ` set (cf_mounts (sp_config S)) \<subseteq> dm_name ` set ds"
proof (rule reconcile_run [OF assms])
  fix crows claimed os mounts
  assume rows: "list_all2 (\<lambda>m r. dm_name r = mt_name m \<and> dm_point r = Some (mt_point m)) (cf_mounts (sp_config S)) crows"
    and ds: "ds = crows @ orphan_rows (sp_config S) os @ foreign_rows (claimed @ map tg_point os) mounts"
  from rows have "mt_name ` set (cf_mounts (sp_config S)) \<subseteq> dm_name ` set crows" by (rule rows_named)
  then show ?thesis unfolding ds set_append image_Un by (rule le_supI1)
qed

lemma rows_of_names: "mv_name ` set (bt_values (rows_of vs)) = mv_name ` set vs"
proof -
  have sub: "set (bt_values (foldl (\<lambda>acc v. bt_insert (mv_name v) v acc) m vs)) \<subseteq> set (bt_values m) \<union> set vs" for m
  proof (induction vs arbitrary: m)
    case (Cons v vs)
    have "set (bt_values (bt_insert (mv_name v) v m)) \<subseteq> insert v (set (bt_values m))"
      by (auto dest: bt_values_insert_subset)
    with Cons.IH [of "bt_insert (mv_name v) v m"] show ?case by auto
  qed simp
  have wf: "bt_wf (rows_of vs)"
    using keyed_rows_fold [of "[]" vs] by (simp add: keyed_rows_def rows_of_def)
  have "mv_name v \<in> mv_name ` set (bt_values (rows_of vs))" if "v \<in> set vs" for v
  proof -
    have "find (\<lambda>x. mv_name x = mv_name v) (rev vs) \<noteq> None" using that by (auto simp: find_None_iff)
    then obtain x where x: "find (\<lambda>x. mv_name x = mv_name v) (rev vs) = Some x" by blast
    then have "bt_get (mv_name v) (rows_of vs) = Some x" by (simp add: rows_of_def bt.get_foldl_put)
    moreover have "mv_name x = mv_name v" using find_SomeD [OF x] by simp
    ultimately show ?thesis using bt_get_values by (metis imageI)
  qed
  then show ?thesis using sub [of "[]"] by (auto simp: rows_of_def bt_values_def)
qed

text \<open>
  C15: A client never meets a service that has not looked: the last thing a start does is to ask
  the bus for the name, straight after the first sweep and everything that sweep asked, and it comes
  up only as the name's primary owner; so a client's first list already names exactly what that
  sweep found, every configured mount among it. A start that fails before that has asked the host
  nothing, and one that fails later failed for the name. Only when the sweep itself could not be
  made does the name go up over an empty list, and there the command line reads it as no mounts
  configured.
\<close>

theorem a_client_never_meets_an_unswept_service:
  "case start_service B H s of
     (Inl e, s') \<Rightarrow>
       s' = s \<or> (\<exists>t S. e = BootName t
         \<and> sy_log s' = EvRequestName BUS_NAME False # sy_log (snd (reconcile S H s)))
   | (Inr (S, w), s') \<Rightarrow>
       boot_name B = PrimaryOwner
       \<and> sy_log s' = EvRequestName BUS_NAME True # sy_log (snd (reconcile S H s))
       \<and> (case fst (reconcile S H s) of
            Inr found \<Rightarrow>
              mv_name ` set (list_mounts (wt_registry w)) = dm_name ` set found
              \<and> mt_name ` set (cf_mounts (sp_config S)) \<subseteq> mv_name ` set (list_mounts (wt_registry w))
          | Inl _ \<Rightarrow> render_list (list_mounts (wt_registry w)) = [''No mounts configured.''])"
proof (cases "start_service B H s")
  case (Pair r s')
  show ?thesis
  proof (cases r)
    case (Inl e)
    from Pair show ?thesis
    proof (cases rule: start_cases)
      case (looked S w cs t)
      then have "t = snd (reconcile S H s)" using first_turn_log [OF looked(1)] by simp
      then show ?thesis using Pair Inl looked(2,3) by auto
    qed (use Pair Inl in simp)
  next
    case (Inr Sw)
    obtain S w where Sw: "Sw = (S, w)" by force
    from Pair Inr Sw have start: "start_service B H s = (Inr (S, w), s')" by simp
    obtain cs t0 where run: "turn S ((boot_tick B)\<lparr>ti_now := boot_now B + int (boot_lag B)\<rparr>) (watch_new (boot_now B)) H s = ((w, cs), t0)"
      and s': "s' = t0\<lparr>sy_log := EvRequestName BUS_NAME True # sy_log t0\<rparr>" and owner: "boot_name B = PrimaryOwner"
      using started_turn [OF start] by metis
    have "t0 = snd (reconcile S H s)" using first_turn_log [OF run] by simp
    then have log: "sy_log s' = EvRequestName BUS_NAME True # sy_log (snd (reconcile S H s))" by (simp add: s')
    have rows: "case fst (reconcile S H s) of
        Inr found \<Rightarrow> rg_mounts (wt_registry w) = rows_of (map (found_view (sp_config S)) found)
      | Inl _ \<Rightarrow> rg_mounts (wt_registry w) = []"
      by (rule first_rows [OF run]) simp
    show ?thesis
    proof (cases "reconcile S H s")
      case (Pair found t)
      show ?thesis
      proof (cases found)
        case (Inl e)
        then show ?thesis using rows Pair start log owner
          by (simp add: render_list_def list_mounts_def reg_mounts_def bt_values_def)
      next
        case F: (Inr ds)
        have "list_mounts (wt_registry w) = bt_values (rows_of (map (found_view (sp_config S)) ds))"
          using rows Pair F by (simp add: list_mounts_def reg_mounts_def)
        then have names: "mv_name ` set (list_mounts (wt_registry w)) = dm_name ` set ds"
          by (simp add: rows_of_names image_image found_view_def mount_view_of_def)
        have "reconcile S H s = (Inr ds, t)" using Pair F by simp
        then have "mt_name ` set (cf_mounts (sp_config S)) \<subseteq> dm_name ` set ds" by (rule configured_named)
        then show ?thesis using names Pair F start log owner by simp
      qed
    qed
  qed
qed

section \<open>Before a start\<close>

text \<open>What releasing a path adds: one or two runs of the helper.\<close>

lemma fusermount_runs:
  "\<exists>runs. sy_log (snd (fusermount p how H s)) = runs @ sy_log s \<and> runs \<noteq> [] \<and> list_all (is_release how p) runs
     \<and> (fst (fusermount p how H s) = Inr () \<longleftrightarrow> released how p (hd runs))"
  by (auto simp: fusermount_def run_program_def andthen_def ask_def ret_def fail_def Let_def is_release_def released_def
      split: run_result.split)

lemma socket_run:
  "\<exists>s' socket. remove_socket sock_path H s = (Inr (), s') \<and> sy_log s' = socket @ sy_log s
     \<and> socket \<in> {[EvExists sock_path False], [EvRemove sock_path, EvExists sock_path True]}"
  by (simp add: remove_socket_def andthen_def ask_def ret_def Let_def)

lemma looked_run:
  "\<exists>s' canon read answer.
     andthen (resolved_point m) (\<lambda>point. andthen live_mounts (\<lambda>live. andthen (is_stale point) (\<lambda>stale. k point live stale))) H s
       = k (unwrap_or canon (mt_point m)) (mounts_of read) (answer = StatErr (Some ENOTCONN)) H s'
     \<and> sy_log s' = [EvProbe (unwrap_or canon (mt_point m)) answer, EvMountinfo read, EvCanonicalize (mt_point m) canon] @ sy_log s"
  unfolding resolved_point_def resolved_def live_mounts_def is_stale_def andthen_def ask_def ret_def Let_def
  by (simp only: prod.case sum.case) (intro exI conjI, rule refl, simp)

text \<open>
  C16: What runs before a unit starts asks systemd nothing and takes nothing that is alive. For a
  name the settings do not have it does nothing; for any other, it looks for that mount's own
  socket and removes it when it is there, resolves the mount's point, reads the mount table and
  probes the point, and does no more unless the table lists the point and the point answered as a
  dead daemon's leftover; exactly then it asks the kernel to release that point, never lazily, and
  it succeeds only if the release did.
\<close>

theorem a_start_is_prepared_from_the_kernel_alone:
  "case mount_config c name of
     Inl e \<Rightarrow> prepare_for_start c dir name H s = (Inl e, s)
   | Inr m \<Rightarrow>
       (\<exists>canon read answer runs socket.
          sy_log (snd (prepare_for_start c dir name H s)) =
            runs @ [EvProbe (unwrap_or canon (mt_point m)) answer, EvMountinfo read, EvCanonicalize (mt_point m) canon]
              @ socket @ sy_log s
          \<and> socket \<in> {[EvExists (rc_socket_path dir name) False],
                       [EvRemove (rc_socket_path dir name), EvExists (rc_socket_path dir name) True]}
          \<and> list_all (is_release Refuse (unwrap_or canon (mt_point m))) runs
          \<and> (runs \<noteq> [] \<longleftrightarrow> is_mounted_at (mounts_of read) (unwrap_or canon (mt_point m))
                          \<and> answer = StatErr (Some ENOTCONN))
          \<and> (fst (prepare_for_start c dir name H s) = Inr () \<longleftrightarrow>
               runs = [] \<or> released Refuse (unwrap_or canon (mt_point m)) (hd runs)))"
proof (cases "mount_config c name")
  case (Inl e)
  then show ?thesis by (simp add: prepare_for_start_def fail_def)
next
  case (Inr m)
  obtain s1 socket where socket: "remove_socket (rc_socket_path dir name) H s = (Inr (), s1)"
    "sy_log s1 = socket @ sy_log s"
    "socket \<in> {[EvExists (rc_socket_path dir name) False], [EvRemove (rc_socket_path dir name), EvExists (rc_socket_path dir name) True]}"
    using socket_run by blast
  let ?k = "\<lambda>point live stale. if is_mounted_at live point \<and> stale then fusermount point Refuse else ret ()"
  obtain s2 canon read answer where looked:
    "andthen (resolved_point m) (\<lambda>point. andthen live_mounts (\<lambda>live. andthen (is_stale point) (\<lambda>stale. ?k point live stale))) H s1
       = ?k (unwrap_or canon (mt_point m)) (mounts_of read) (answer = StatErr (Some ENOTCONN)) H s2"
    "sy_log s2 = [EvProbe (unwrap_or canon (mt_point m)) answer, EvMountinfo read, EvCanonicalize (mt_point m) canon] @ sy_log s1"
    using looked_run [where k = ?k and m = m and H = H and s = s1] by blast
  let ?p = "unwrap_or canon (mt_point m)"
  let ?stale = "is_mounted_at (mounts_of read) ?p \<and> answer = StatErr (Some ENOTCONN)"
  have run: "prepare_for_start c dir name H s = (if ?stale then fusermount ?p Refuse H s2 else (Inr (), s2))"
    using socket(1) looked(1) Inr by (simp add: prepare_for_start_def andthen_def [of "remove_socket _"] ret_def)
  obtain runs where "sy_log (snd (prepare_for_start c dir name H s)) = runs @ sy_log s2" "list_all (is_release Refuse ?p) runs"
    "runs \<noteq> [] \<longleftrightarrow> ?stale" "fst (prepare_for_start c dir name H s) = Inr () \<longleftrightarrow> runs = [] \<or> released Refuse ?p (hd runs)"
  proof (cases ?stale)
    case True
    then show ?thesis using that fusermount_runs [of ?p Refuse H s2] run by auto
  next
    case False
    then show ?thesis using that [of "[]"] run by auto
  qed
  then show ?thesis using socket(2,3) looked(2) Inr
    by (simp only: sum.case) (intro exI [of _ canon] exI [of _ read] exI [of _ answer] exI [of _ runs] exI [of _ socket], simp)
qed

section \<open>What a service that has come up runs on\<close>

lemma settled_valid:
  assumes "settle B = Inr (c, path, dir)"
  shows "\<exists>U. validate U c = Inr ()"
proof -
  have "config_ok U config_default" for U
    by (simp add: config_ok_def config_default_def global_default_def poll_default_def MAX_POLL_SECS_def)
  then have "validate U config_default = Inr ()" for U using validate_iff by blast
  then show ?thesis using assms
    by (auto simp: settle_def and_then_def load_def split: sum.splits io_error.splits if_splits)
qed

lemma started_valid:
  assumes "start_service B H s = (Inr (S, w), s')"
  shows "\<exists>U. validate U (sp_config S) = Inr ()"
proof -
  obtain c path dir where "settle B = Inr (c, path, dir)" "sp_config S = c"
    using assms by (auto simp: start_service_def and_then_def supervisor_new_def request_name_def split: sum.splits prod.splits)
  then show ?thesis using settled_valid by blast
qed

lemma turn_keyed: "turn S T w H s = ((w', cs), s') \<Longrightarrow> keyed (wt_registry w) \<Longrightarrow> keyed (wt_registry w')"
  unfolding turn_def by (cases "reconcile S H s") (auto simp del: watch_act.simps split: if_splits dest: act_keyed)

section \<open>A sample\<close>

definition sample_env :: environment where
  "sample_env =
     \<lparr>env_path = None, env_is_file = (\<lambda>p. p = ''/usr/bin/rclone''),
      env_output = (\<lambda>_ _. Inr \<lparr>out_ok = True, out_status = ''0'', out_stdout = ''rclone v1.75.0-beta.8'' @ newline # ''- os/arch: linux'', out_stderr = []\<rparr>)\<rparr>"

definition sample_boot :: boot where
  "sample_boot =
     \<lparr>boot_flag = None, boot_rust_log = None, boot_config = Some ''/c/config.toml'', boot_canonical = (\<lambda>_. None),
      boot_xdg_config = None, boot_home = None, boot_xdg_runtime = Some ''/run/u'', boot_unicode = no_unicode,
      boot_version = (\<lambda>_. Inr 1), boot_reader = (\<lambda>_. Inr sample_config), boot_file = (\<lambda>_. Inr ''mounts''),
      boot_env = sample_env, boot_units = Inr (), boot_now = 0, boot_lag = 1, boot_tick = sample_tick 0,
      boot_name = PrimaryOwner\<rparr>"

lemma sample_discovered: "\<exists>r. discover sample_env None = Inr r"
proof -
  let ?out = "''rclone v1.75.0-beta.8'' @ newline # ''- os/arch: linux''"
  have "candidates sample_env = [''/usr/bin/rclone'']"
    by (simp add: candidates_def sample_env_def which_def FALLBACK_PATHS_def push_path_def)
  moreover have "from_utf8_lossy ?out = ?out" by (rule from_utf8_lossy_ascii) simp
  moreover have "\<not> Version 1 75 0 < MINIMUM_VERSION" by code_simp
  ultimately show ?thesis
    using a_printed_version_is_read_witness
    by (simp add: discover_def probe_rclone_def sample_env_def [THEN arg_cong, of env_output] Let_def)
qed

lemma sample_settled: "settle sample_boot = Inr (sample_config, ''/c/config.toml'', ''/run/u/rclone-vfsmount-tray'')"
proof -
  have "validate no_unicode sample_config = Inr ()" using sample_config_ok validate_iff by blast
  then show ?thesis
    by (simp add: settle_def sample_boot_def resolve_log_filter_def and_then_def config_path_of_def load_def
        CURRENT_VERSION_def runtime_dir_def path_join_def starts_with_def)
qed

lemma sample_orderly: "orderly (machine up st)"
proof -
  have "mounts_of (Inr []) = []"
    by (simp add: mounts_of_def read_from_def parse_def from_utf8_lossy.simps lines.simps List.map_filter_simps)
  moreover have "is_absolute (me_point backup_entry)" by (simp add: backup_entry_def is_absolute_def starts_with_def)
  ultimately show ?thesis by (simp add: orderly_def machine_simps backup_line_parsed)
qed

text \<open>The sample service comes up, whatever its first turn is told.\<close>

lemma sample_starts:
  "\<exists>S w s' t cs. start_service (sample_boot\<lparr>boot_tick := T\<rparr>) (machine True False) power_on = (Inr (S, w), s')
     \<and> turn S (T\<lparr>ti_now := 1\<rparr>) (watch_new 0) (machine True False) power_on = ((w, cs), t)
     \<and> sp_config S = sample_config"
proof -
  obtain r where r: "discover sample_env None = Inr r" using sample_discovered by blast
  let ?S = "supervisor_new sample_config (rl_path r) ''/run/u/rclone-vfsmount-tray'' ''/c/config.toml''"
  obtain w cs s' where t: "turn ?S (T\<lparr>ti_now := 1\<rparr>) (watch_new 0) (machine True False) power_on = ((w, cs), s')"
    by (metis prod.collapse)
  have "settle (sample_boot\<lparr>boot_tick := T\<rparr>) = settle sample_boot"
    by (simp add: settle_def config_path_of_def sample_boot_def)
  then have "start_service (sample_boot\<lparr>boot_tick := T\<rparr>) (machine True False) power_on
      = (Inr (?S, w), s'\<lparr>sy_log := EvRequestName BUS_NAME True # sy_log s'\<rparr>)"
    using t unfolding start_service_def sample_settled
    by (simp add: sample_boot_def and_then_def r sample_config_def config_default_def global_default_def take_name_def
        request_name_def)
  then show ?thesis using t by (intro exI conjI) (assumption, assumption, simp add: supervisor_new_def)
qed

lemma sample_started:
  "\<exists>S w s'. start_service sample_boot (machine True False) power_on = (Inr (S, w), s') \<and> keyed (wt_registry w)"
proof -
  have "sample_boot\<lparr>boot_tick := sample_tick 0\<rparr> = sample_boot" by (simp add: sample_boot_def)
  then obtain S w s' t cs where run: "start_service sample_boot (machine True False) power_on = (Inr (S, w), s')"
    "turn S ((sample_tick 0)\<lparr>ti_now := 1\<rparr>) (watch_new 0) (machine True False) power_on = ((w, cs), t)"
    using sample_starts [of "sample_tick 0"] by metis
  then have "keyed (wt_registry w)" using turn_keyed keyed_new by blast
  then show ?thesis using run(1) by blast
qed

end
