(* ===== verification/Serving.thy ===== *)
theory Serving
  imports Startup
begin

text \<open>
  The service at work (crates/service/src/main.rs, watch.rs, dbus.rs): the loop of the watcher with
  the calls of clients between its turns. A call runs to its end where it stands in the list of
  steps; what the host answers meanwhile is a function of everything done before.
\<close>

section \<open>Serving\<close>

datatype serving_step = Turned tick_answers | Nudged | MountCalled string | UnmountCalled string bool

definition serve_step :: "supervisor \<Rightarrow> serving_step \<Rightarrow> watch \<Rightarrow> host \<Rightarrow> sys \<Rightarrow> (watch \<times> change list) \<times> sys" where
  "serve_step S e w H s =
     (case e of
        Turned T \<Rightarrow> turn S T w H s
      | Nudged \<Rightarrow> (watch_act (sp_config S) Woken w, s)
      | MountCalled name \<Rightarrow> (case mm_mount S name w H s of (_, w', s') \<Rightarrow> ((w', []), s'))
      | UnmountCalled name force \<Rightarrow> (case mm_unmount S name force w H s of (_, w', s') \<Rightarrow> ((w', []), s')))"

text \<open>Every turn's changes are published.\<close>

fun serve_loop :: "supervisor \<Rightarrow> serving_step list \<Rightarrow> watch \<Rightarrow> host \<Rightarrow> sys \<Rightarrow> (watch \<times> change list) \<times> sys" where
  "serve_loop S [] w H s = ((w, []), s)"
| "serve_loop S (e # es) w H s =
     (case serve_step S e w H s of
        ((w, cs), s) \<Rightarrow> (case serve_loop S es w H s of ((w, ds), s) \<Rightarrow> ((w, cs @ ds), s)))"

text \<open>Until it is asked to stop; then it returns, and that is all.\<close>

definition service_main :: "boot \<Rightarrow> serving_step list \<Rightarrow> host \<Rightarrow> sys \<Rightarrow> (boot_error + watch \<times> change list) \<times> sys" where
  "service_main B es H s =
     (case start_service B H s of
        (Inl e, s') \<Rightarrow> (Inl e, s')
      | (Inr (S, w), s') \<Rightarrow> (case serve_loop S es w H s' of (out, s'') \<Rightarrow> (Inr out, s'')))"

lemma serve_loop_Cons:
  assumes "serve_loop S (e # es) w H s = ((w', cs), s')"
  obtains w1 c1 s1 c2 where "serve_step S e w H s = ((w1, c1), s1)" "serve_loop S es w1 H s1 = ((w', c2), s')"
    "cs = c1 @ c2"
  using assms by (auto split: prod.splits)

text \<open>What every step keeps the loop keeps; between turns only marks and deadlines of sweeps move.\<close>

lemma serve_loop_keeps:
  assumes "\<And>e w s w' cs s'. e \<in> set es \<Longrightarrow> P w \<Longrightarrow> serve_step S e w H s = ((w', cs), s') \<Longrightarrow> P w'"
  shows "serve_loop S es w H s = ((w', cs), s') \<Longrightarrow> P w \<Longrightarrow> P w'"
  using assms
proof (induction es arbitrary: w s cs)
  case (Cons e es)
  from Cons.prems(1) obtain w1 c1 s1 c2 where 1: "serve_step S e w H s = ((w1, c1), s1)"
    and 2: "serve_loop S es w1 H s1 = ((w', c2), s')" by (rule serve_loop_Cons)
  have "P w1" by (rule Cons.prems(3) [OF _ Cons.prems(2) 1]) simp
  then show ?case using Cons.IH [OF 2] Cons.prems(3) by (meson list.set_intros(2))
qed simp

lemma quiet_step:
  assumes "serve_step S e w H s = ((w', cs), s')"
  obtains (turned) T where "e = Turned T" "turn S T w H s = ((w', cs), s')"
  | (quiet) "cs = []" "wt_registry w' = wt_registry w" "wt_pollers w' = wt_pollers w" "wt_due w' = wt_due w"
proof (cases e)
  case (Turned T)
  then show ?thesis using turned assms by (simp add: serve_step_def)
qed (use quiet assms in \<open>auto simp: serve_step_def mm_mount_def mm_unmount_def act_then_nudge_def acted_on_def
    split: prod.splits sum.splits if_splits\<close>)

section \<open>The lifetime rule\<close>

text \<open>What a call may do to the machine beyond asking it.\<close>

fun asked_for :: "serving_step \<Rightarrow> event \<Rightarrow> bool" where
  "asked_for (MountCalled name) e =
     (case e of
        EvStartUnit u _ _ \<Rightarrow> orphan_name u = Some name
      | EvResetFailed u _ \<Rightarrow> orphan_name u = Some name
      | EvRun _ args _ \<Rightarrow> \<exists>p. args = release_args Refuse p
      | EvMkdirs _ _ \<Rightarrow> True
      | EvChmod _ _ _ \<Rightarrow> True
      | EvRemove _ \<Rightarrow> True
      | _ \<Rightarrow> False)"
| "asked_for (UnmountCalled name force) e =
     (case e of
        EvStopUnit u _ \<Rightarrow> orphan_name u \<noteq> None
      | EvResetFailed u _ \<Rightarrow> orphan_name u \<noteq> None
      | EvRun _ args _ \<Rightarrow> \<exists>p. args = release_args Refuse p \<or> args = release_args Detach p \<and> force
      | _ \<Rightarrow> False)"
| "asked_for _ _ = False"

abbreviation wanted :: "serving_step list \<Rightarrow> event \<Rightarrow> bool" where
  "wanted es e \<equiv> question e \<or> list_ex (\<lambda>k. asked_for k e) es"

lemma mount_wanted:
  assumes "config_ok U (sp_config S)" "sup_mount S name H s = (r, s')"
  shows "\<exists>new. sy_log s' = new @ sy_log s \<and> list_all (wanted [MountCalled name]) new"
proof (cases "mount_config (sp_config S) name")
  case (Inl e)
  then obtain x new where "sy_log s' = new @ sy_log s" "list_all question new"
    using sup_mount_unknown [OF Inl assms(2)] by blast
  then show ?thesis by (auto simp: list_all_iff)
next
  case (Inr m)
  then have m: "mt_name m = name" "m \<in> set (cf_mounts (sp_config S))"
    by (auto simp: mount_config_def find_Some_iff split: option.splits)
  have ours: "orphan_name (unit_name m) = Some name"
    using assms(1) m orphan_name_unit_name by (auto simp: config_ok_def list_all_iff)
  have "triple (since (sy_log s) (list_all question)) (sup_mount S name)
     (ok_then (\<lambda>_. since (sy_log s) (\<lambda>l. mount_inv S m l \<and> seen_up m l)) (\<lambda>e. since (sy_log s) (mount_error S m e)))"
    by (rule sup_mount_triple [OF Inr])
  moreover have "since (sy_log s) (list_all question) s" by (simp add: since_def)
  ultimately have "ok_then (\<lambda>_. since (sy_log s) (\<lambda>l. mount_inv S m l \<and> seen_up m l))
      (\<lambda>e. since (sy_log s) (mount_error S m e)) r s'"
    using assms(2) unfolding triple_def by (metis fst_conv snd_conv)
  then obtain new where new: "sy_log s' = new @ sy_log s" "list_all (mount_allowed S m) new"
    by (cases r) (auto simp: since_def mount_error_def mount_inv_def)
  have "wanted [MountCalled name] e" if "mount_allowed S m e" for e
    using that ours by (auto simp: mount_allowed_def is_release_def)
  then show ?thesis using new by (auto simp: list_all_iff)
qed

lemma unmount_wanted:
  assumes "config_ok U (sp_config S)" "sup_unmount S name force H s = (r, s')"
  shows "\<exists>new. sy_log s' = new @ sy_log s \<and> list_all (wanted [UnmountCalled name force]) new"
  using assms(2)
proof (cases rule: sup_unmount_cases)
  case (early e q)
  then show ?thesis by (auto simp: list_all_iff)
next
  case (down t s1 s2 q)
  have ours: "orphan_name (tg_unit t) = Some (tg_name t)"
    using target_named [OF assms(1)] down(1) unfolding gives_def named_as_ours_def by (metis fst_conv)
  have "since (sy_log s) (list_all question) s2" using down(2,3) by (auto simp: since_def)
  then have "ok_then (\<lambda>_. since (sy_log s) (\<lambda>l. Lifecycle.orderly t force l \<and> list_ex (taken_gone (tg_point t)) l))
      (\<lambda>e. since (sy_log s) (down_error t force e)) r s'"
    using take_down_triple [of "sy_log s" S t force] down(4) unfolding triple_def by (metis fst_conv snd_conv)
  then obtain new where new: "sy_log s' = new @ sy_log s" "Lifecycle.orderly t force new"
    by (cases r) (auto simp: since_def down_error_def)
  have detach: "force" if d: "is_release Detach (tg_point t) e" and e: "e \<in> set new" for e
  proof -
    from split_list [OF e] obtain a b where ab: "new = a @ e # b" by blast
    have "guarded (is_release Detach (tg_point t)) (stopped t force) (a @ e # b)"
      using new(2) unfolding Lifecycle.orderly_def ab by simp
    then have "stopped t force b" using d by (rule guardedD)
    then show ?thesis by (simp add: stopped_def)
  qed
  have "wanted [UnmountCalled name force] e" if e: "e \<in> set new" for e
  proof -
    have "allowed t e" using new(2) e by (auto simp: Lifecycle.orderly_def list_all_iff)
    then show ?thesis using ours detach [OF _ e] by (auto simp: allowed_def is_release_def stop_of_def)
  qed
  then show ?thesis using new(1) by (auto simp: list_all_iff)
qed

lemma nudge_wanted:
  assumes "act_then_nudge S name run w H s = (r, w', s')"
    "\<And>r1 s1. run H s = (r1, s1) \<Longrightarrow> \<exists>new. sy_log s1 = new @ sy_log s \<and> list_all P new"
  shows "\<exists>new. sy_log s' = new @ sy_log s \<and> list_all P new"
  using assms by (auto simp: act_then_nudge_def split: sum.splits prod.splits)

lemma step_wanted:
  assumes "config_ok U (sp_config S)" "serve_step S e w H s = ((w', cs), s')"
  shows "\<exists>new. sy_log s' = new @ sy_log s \<and> list_all (wanted [e]) new"
proof (cases e)
  case (Turned T)
  then show ?thesis using assms(2) turn_asks [where s = s and S = S and T = T and w = w and H = H] by (auto simp: serve_step_def list_all_iff)
next
  case Nudged
  then show ?thesis using assms(2) by (auto simp: serve_step_def)
next
  case (MountCalled name)
  then obtain r where "act_then_nudge S name (sup_mount S name) w H s = (r, w', s')"
    using assms(2) by (auto simp: serve_step_def mm_mount_def split: prod.splits)
  then show ?thesis unfolding MountCalled by (rule nudge_wanted) (rule mount_wanted [OF assms(1)])
next
  case (UnmountCalled name force)
  then obtain r where "act_then_nudge S name (sup_unmount S name force) w H s = (r, w', s')"
    using assms(2) by (auto simp: serve_step_def mm_unmount_def split: prod.splits)
  then show ?thesis unfolding UnmountCalled by (rule nudge_wanted) (rule unmount_wanted [OF assms(1)])
qed

lemma wanted_more: "list_all (wanted es) new \<Longrightarrow> set es \<subseteq> set fs \<Longrightarrow> list_all (wanted fs) new"
  by (auto simp: list_all_iff list_ex_iff)

lemma loop_wanted:
  assumes "config_ok U (sp_config S)"
  shows "serve_loop S es w H s = ((w', cs), s') \<Longrightarrow> \<exists>new. sy_log s' = new @ sy_log s \<and> list_all (wanted es) new"
proof (induction es arbitrary: w s cs)
  case (Cons e es)
  from Cons.prems obtain w1 c1 s1 c2 where first: "serve_step S e w H s = ((w1, c1), s1)"
    and rest: "serve_loop S es w1 H s1 = ((w', c2), s')" by (rule serve_loop_Cons)
  obtain n1 where n1: "sy_log s1 = n1 @ sy_log s" "list_all (wanted [e]) n1"
    using step_wanted [OF assms first] by blast
  obtain n2 where n2: "sy_log s' = n2 @ sy_log s1" "list_all (wanted es) n2" using Cons.IH [OF rest] by blast
  have "list_all (wanted (e # es)) n1" by (rule wanted_more [OF n1(2)]) simp
  moreover have "list_all (wanted (e # es)) n2" by (rule wanted_more [OF n2(2)]) auto
  ultimately have "list_all (wanted (e # es)) (n2 @ n1)" by (simp only: list_all_append)
  moreover have "sy_log s' = (n2 @ n1) @ sy_log s" using n1(1) n2(1) by simp
  ultimately show ?case by blast
qed simp

text \<open>
  C14: The lifetime rule, while the service serves: nothing happens to a mount that nobody asked
  for. Once it has its name, however long it has served and whatever the host answers, a sweep, a
  poll or a nudge only asks, and a call does, beyond asking, only what that very call is for: a unit
  is started or its failure cleared by a call to mount only under that name, a unit is stopped or
  cleared by a call to unmount only if it bears a name of ours, files and directories are made or
  removed only by a call to mount, and a filesystem is detached lazily only by a call to unmount with
  force. What the options for the start and the stop of the service promise is not part of this.
\<close>

theorem nothing_happens_unasked:
  assumes "start_service B H s = (Inr (S, w), s0)" "serve_loop S es w H s0 = ((w1, c1), s1)"
    "serve_step S e w1 H s1 = ((w2, c2), s2)"
  shows "\<exists>new. sy_log s2 = new @ sy_log s1 \<and> list_all (\<lambda>ev. question ev \<or> asked_for e ev) new"
proof -
  obtain U where "config_ok U (sp_config S)" using started_valid [OF assms(1)] validate_iff by blast
  from step_wanted [OF this assms(3)] show ?thesis by simp
qed

theorem nothing_happens_unasked_witness:
  "\<exists>S w s0 s2 new. start_service sample_boot (machine True False) power_on = (Inr (S, w), s0)
     \<and> sy_log s2 = new @ sy_log s0 \<and> snd (serve_step S (UnmountCalled ''backup'' False) w (machine True False) s0) = s2
     \<and> list_all (\<lambda>ev. \<forall>program p out. ev \<noteq> EvRun program (release_args Detach p) out) new"
proof -
  let ?H = "machine True False"
  obtain S w s0 where run: "start_service sample_boot ?H power_on = (Inr (S, w), s0)" using sample_started by blast
  obtain w2 c2 s2 where step: "serve_step S (UnmountCalled ''backup'' False) w ?H s0 = ((w2, c2), s2)"
    by (metis prod.collapse)
  have still: "serve_loop S [] w ?H s0 = ((w, []), s0)" by simp
  obtain new where new: "sy_log s2 = new @ sy_log s0"
      "list_all (\<lambda>ev. question ev \<or> asked_for (UnmountCalled ''backup'' False) ev) new"
    using nothing_happens_unasked [OF run still step] by blast
  have "list_all (\<lambda>ev. \<forall>program p out. ev \<noteq> EvRun program (release_args Detach p) out) new"
    using new(2) by (auto simp: list_all_iff release_args_def)
  then show ?thesis using run new(1) step by auto
qed

text \<open>
  Over a whole life, its start and its end included, all that is done beyond asking was asked for by
  a call. So neither \<^verbatim>\<open>auto_mount\<close> nor \<^verbatim>\<open>unmount_on_service_stop\<close> is
  acted on, whatever they are set to.
\<close>

theorem the_lifetime_options_are_not_acted_on:
  "\<exists>new. sy_log (snd (service_main B es H s)) = new @ sy_log s
     \<and> list_all (\<lambda>e. question e \<or> list_ex (\<lambda>k. asked_for k e) es) new"
proof (cases "start_service B H s")
  case (Pair r s')
  have started: "\<exists>new. sy_log s' = new @ sy_log s \<and> list_all (wanted es) new"
    using start_asks [where s = s and B = B and H = H] Pair by (auto simp: list_all_iff)
  show ?thesis
  proof (cases r)
    case (Inr Sw)
    obtain S w where Sw: "Sw = (S, w)" by force
    obtain w' cs s'' where loop: "serve_loop S es w H s' = ((w', cs), s'')" by (metis prod.collapse)
    obtain U where "config_ok U (sp_config S)"
      using started_valid [of B H s S w s'] Pair Inr Sw validate_iff by blast
    then obtain n2 where n2: "sy_log s'' = n2 @ sy_log s'" "list_all (wanted es) n2"
      using loop_wanted loop by blast
    obtain n1 where n1: "sy_log s' = n1 @ sy_log s" "list_all (wanted es) n1" using started by blast
    have "snd (service_main B es H s) = s''" using Pair Inr Sw loop by (simp add: service_main_def)
    moreover have "list_all (wanted es) (n2 @ n1)" using n1(2) n2(2) by (simp only: list_all_append)
    ultimately show ?thesis using n1(1) n2(1) by (metis append.assoc)
  qed (use started Pair in \<open>simp add: service_main_def\<close>)
qed

section \<open>The loop is the watcher's\<close>

text \<open>
  Whatever the calls do to the machine, the watch only ever takes the watcher's own steps; over an
  orderly host and a configuration that was validated its sweeps agree with themselves.
\<close>

lemma poll_one_found: "poll_one c (T\<lparr>ti_found := x\<rparr>) name w = poll_one c T name w"
  by (cases "bt_get name (wt_pollers w)") (simp_all add: poll_one_def)

lemma poll_each_found: "poll_each c (T\<lparr>ti_found := x\<rparr>) names w = poll_each c T names w"
  by (induction names arbitrary: w) (simp_all add: poll_one_found)

lemma early_tick_found: "ti_now T < wt_sweep_due w \<Longrightarrow> tick c (T\<lparr>ti_found := x\<rparr>) w = tick c T w"
  by (simp add: tick_def sweep_if_due_def forget_cycled_def poll_due_def poll_each_found next_wait_def)

definition proper :: "supervisor \<Rightarrow> host \<Rightarrow> bool" where
  "proper S H = ((\<exists>U. validate U (sp_config S) = Inr ()) \<and> orderly H)"

lemma turn_watches:
  assumes "turn S T w H s = ((w', cs), s')"
  obtains x where "watch_act (sp_config S) (Ticked (T\<lparr>ti_found := x\<rparr>)) w = (w', cs)"
    "proper S H \<longrightarrow> step_agrees (sp_config S) (Ticked (T\<lparr>ti_found := x\<rparr>))"
    "\<And>ds. x = Inr ds \<Longrightarrow> reconcile S H s = (Inr ds, s')"
proof -
  obtain found t where r: "reconcile S H s = (found, t)" by force
  define x where "x = (if wt_sweep_due w \<le> ti_now T then found else Inl (Supervision [] None))"
  show thesis
  proof (rule that [of x])
    show "watch_act (sp_config S) (Ticked (T\<lparr>ti_found := x\<rparr>)) w = (w', cs)"
      using assms by (auto simp: turn_def r x_def early_tick_found split: if_splits prod.splits)
    show "proper S H \<longrightarrow> step_agrees (sp_config S) (Ticked (T\<lparr>ti_found := x\<rparr>))"
      using discovery_agrees [of _ S H s _ t] r by (auto simp: proper_def step_agrees_def x_def split: sum.split)
    show "reconcile S H s = (Inr ds, s')" if "x = Inr ds" for ds
      using that assms by (auto simp: turn_def r x_def split: if_splits prod.splits)
  qed
qed

abbreviation watches :: "supervisor \<Rightarrow> host \<Rightarrow> watch_step list \<Rightarrow> watch \<Rightarrow> watch \<times> change list \<Rightarrow> bool" where
  "watches S H ss w out \<equiv>
     watch_run (sp_config S) ss w = out \<and> (proper S H \<longrightarrow> list_all (step_agrees (sp_config S)) ss)"

lemma nudge_watches:
  "act_then_nudge S name run w H s = (r, w', s') \<Longrightarrow> \<exists>ss. watches S H ss w (w', [])"
  by (rule exI [of _ "if w' = w then [] else [Acted name]"])
    (auto simp: act_then_nudge_def step_agrees_def split: sum.splits prod.splits if_splits)

lemma step_watches: "serve_step S e w H s = (out, s') \<Longrightarrow> \<exists>ss. watches S H ss w out"
proof (cases e)
  case (Turned T)
  assume "serve_step S e w H s = (out, s')"
  then have "turn S T w H s = ((fst out, snd out), s')" using Turned by (simp add: serve_step_def)
  then obtain x where "watch_act (sp_config S) (Ticked (T\<lparr>ti_found := x\<rparr>)) w = out"
    "proper S H \<longrightarrow> step_agrees (sp_config S) (Ticked (T\<lparr>ti_found := x\<rparr>))"
    using turn_watches by (metis prod.collapse)
  then show ?thesis
    by (intro exI [of _ "[Ticked (T\<lparr>ti_found := x\<rparr>)]"]) (simp del: watch_act.simps split: prod.split)
next
  case Nudged
  assume "serve_step S e w H s = (out, s')"
  then show ?thesis using Nudged
    by (intro exI [of _ "[Woken]"]) (auto simp: serve_step_def step_agrees_def)
next
  case (MountCalled name)
  assume "serve_step S e w H s = (out, s')"
  then show ?thesis using MountCalled nudge_watches [of S name "sup_mount S name" w H s]
    by (auto simp: serve_step_def mm_mount_def split: prod.splits)
next
  case (UnmountCalled name force)
  assume "serve_step S e w H s = (out, s')"
  then show ?thesis using UnmountCalled nudge_watches [of S name "sup_unmount S name force" w H s]
    by (auto simp: serve_step_def mm_unmount_def split: prod.splits)
qed

lemma watch_run_append:
  "watch_run c (ss @ ts) w =
     (case watch_run c ss w of (w1, c1) \<Rightarrow> (case watch_run c ts w1 of (w2, c2) \<Rightarrow> (w2, c1 @ c2)))"
  by (induction ss arbitrary: w) (simp_all split: prod.split)

text \<open>Every state the service passes through is one the watcher passes through.\<close>

lemma loop_watches:
  "serve_loop S es w H s = (out, s') \<Longrightarrow>
     \<exists>ss. watches S H ss w out
       \<and> (\<forall>k. \<exists>j. fst (fst (serve_loop S (take k es) w H s)) = fst (watch_run (sp_config S) (take j ss) w))"
proof (induction es arbitrary: w s out)
  case Nil
  then show ?case by (intro exI [of _ "[]"]) auto
next
  case (Cons e es)
  obtain w1 c1 s1 where first: "serve_step S e w H s = ((w1, c1), s1)" by (metis prod.collapse)
  obtain w2 c2 where rest: "serve_loop S es w1 H s1 = ((w2, c2), s')" and out: "out = (w2, c1 @ c2)"
    using Cons.prems first by (auto split: prod.splits)
  obtain ts where ts: "watches S H ts w (w1, c1)" using step_watches [OF first] by blast
  obtain ss where ss: "watches S H ss w1 (w2, c2)"
    "\<And>k. \<exists>j. fst (fst (serve_loop S (take k es) w1 H s1)) = fst (watch_run (sp_config S) (take j ss) w1)"
    using Cons.IH [OF rest] by blast
  have "\<exists>j. fst (fst (serve_loop S (take k (e # es)) w H s)) = fst (watch_run (sp_config S) (take j (ts @ ss)) w)" for k
  proof (cases k)
    case 0
    then show ?thesis by (intro exI [of _ 0]) simp
  next
    case (Suc i)
    obtain j where "fst (fst (serve_loop S (take i es) w1 H s1)) = fst (watch_run (sp_config S) (take j ss) w1)"
      using ss(2) by blast
    moreover have "fst (fst (serve_loop S (take k (e # es)) w H s)) = fst (fst (serve_loop S (take i es) w1 H s1))"
      using first Suc by (simp split: prod.split)
    moreover have "fst (watch_run (sp_config S) (take (length ts + j) (ts @ ss)) w)
        = fst (watch_run (sp_config S) (take j ss) w1)"
      using ts by (simp add: watch_run_append split: prod.split)
    ultimately show ?thesis by metis
  qed
  moreover have "watches S H (ts @ ss) w out" using ts ss(1) by (simp add: watch_run_append out)
  ultimately show ?case by blast
qed

section \<open>The service and its followers\<close>

lemma started_proper: "start_service B H s = (Inr (S, w), s') \<Longrightarrow> orderly H \<Longrightarrow> proper S H"
  using started_valid by (auto simp: proper_def)

text \<open>
  C17: A running service and whoever listens to it stay in step, with nothing assumed of the
  service's own sweeps: over a systemd that lists a unit once, under a name without a slash, and a
  kernel that lists absolute mount points, whatever calls it carries out meanwhile, a client that
  was in step with a service that has come up and applies what it publishes from then on has exactly
  its rows, every reading it holds, and no other reading that could be taken as safe to unmount.
\<close>

theorem a_service_and_its_followers_stay_in_step:
  assumes "orderly H" "start_service B H s = (Inr (S, w), s')" "serve_loop S es w H s' = ((w', cs), s'')"
    "in_step (wt_registry w) f"
  shows "fo_mounts (foldl follow f cs) = rg_mounts (wt_registry w')
    \<and> (\<forall>n v. reg_transfer n (wt_registry w') = Some v \<longrightarrow> bt_get n (fo_transfers (foldl follow f cs)) = Some v)
    \<and> (\<forall>n v. bt_get n (fo_transfers (foldl follow f cs)) = Some v
          \<longrightarrow> safe_to_unmount (transfer_of_view v) \<longrightarrow> reg_transfer n (wt_registry w') = Some v)"
proof -
  obtain ss where "list_all (step_agrees (sp_config S)) ss" "watch_run (sp_config S) ss w = (w', cs)"
    using loop_watches [OF assms(3)] started_proper [OF assms(2,1)] by blast
  then obtain obs where obs: "list_all rows_agree obs" "feed.run obs (wt_registry w) = (wt_registry w', cs)"
    using run_publishes unfolding publishes_def by blast
  show ?thesis by (rule in_step_shows [OF feed.run_rel [OF assms(4) obs]])
qed

theorem a_service_and_its_followers_stay_in_step_witness:
  "\<exists>S w s'. start_service sample_boot (machine True False) power_on = (Inr (S, w), s')
     \<and> (\<forall>es. \<exists>w' cs s''. serve_loop S (UnmountCalled ''backup'' False # es) w (machine True False) s' = ((w', cs), s'')
         \<and> fo_mounts (foldl follow \<lparr>fo_mounts = rg_mounts (wt_registry w), fo_transfers = rg_transfers (wt_registry w)\<rparr> cs)
             = rg_mounts (wt_registry w'))"
proof -
  let ?H = "machine True False"
  obtain S w s' where run: "start_service sample_boot ?H power_on = (Inr (S, w), s')" and k: "keyed (wt_registry w)"
    using sample_started by blast
  let ?f = "\<lparr>fo_mounts = rg_mounts (wt_registry w), fo_transfers = rg_transfers (wt_registry w)\<rparr>"
  have f: "in_step (wt_registry w) ?f" using k by (simp add: in_step_def readings_agree_def keyed_def keyed_rows_def)
  have "\<exists>w' cs s''. serve_loop S es w ?H s' = ((w', cs), s'')
      \<and> fo_mounts (foldl follow ?f cs) = rg_mounts (wt_registry w')" for es
    using a_service_and_its_followers_stay_in_step [OF sample_orderly run _ f] by (metis prod.collapse)
  then show ?thesis using run by blast
qed

end
