(* ===== verification/Together.thy ===== *)
theory Together
  imports Linker Serving
begin

text \<open>
  The parts in company: what the service's whole life means to the ones who follow it over the bus
  (crates/service/src with crates/tray/src/watch.rs and model.rs).
\<close>

section \<open>What stays listed\<close>

text \<open>A sweep, if it was made, found the name.\<close>

definition finds :: "string \<Rightarrow> supervisor_error + discovered_mount list \<Rightarrow> bool" where
  "finds n found = (case found of Inr ds \<Rightarrow> n \<in> dm_name ` set ds | Inl _ \<Rightarrow> True)"

lemma sweep_row_removes:
  "foldl (sweep_row old) (ts, seen, cs) found = (ts', seen', cs') \<Longrightarrow> Removed n \<in> set cs' \<Longrightarrow> Removed n \<in> set cs"
proof (induction found arbitrary: ts seen cs)
  case (Cons v found)
  obtain t1 s1 c1 where 1: "sweep_row old (ts, seen, cs) v = (t1, s1, c1)" by (metis prod_cases3)
  then have "Removed n \<in> set c1" using Cons.IH [of t1 s1 c1] Cons.prems by simp
  then show ?case using 1 by (auto simp: sweep_row_def Let_def split: if_splits)
qed simp

lemma sweep_gone_removes:
  "foldl (sweep_gone seen) (ts, cs) names = (ts', cs') \<Longrightarrow> Removed n \<in> set cs'
     \<Longrightarrow> Removed n \<in> set cs \<or> bt_get n seen = None"
proof (induction names arbitrary: ts cs)
  case (Cons name names)
  obtain t1 c1 where 1: "sweep_gone seen (ts, cs) name = (t1, c1)" by force
  then have "Removed n \<in> set c1 \<or> bt_get n seen = None" using Cons.IH [of t1 c1] Cons.prems by simp
  then show ?case using 1 by (auto simp: sweep_gone_def split: if_splits)
qed simp

lemma found_listed: "bt_get n (rows_of vs) = None \<longleftrightarrow> n \<notin> mv_name ` set vs"
proof -
  have "bt_get n (rows_of vs) = find (\<lambda>x. mv_name x = n) (rev vs)"
    unfolding rows_of_def bt.get_foldl_put by (simp add: bt_get_def split: option.split)
  then show ?thesis by (auto simp: find_None_iff)
qed

lemma observed_removes:
  assumes "observe_mounts vs r = (r', cs)" "Removed n \<in> set cs"
  shows "n \<notin> mv_name ` set vs"
proof -
  obtain ts seen cs1 where 1: "foldl (sweep_row (rg_mounts r)) (rg_transfers r, [], []) vs = (ts, seen, cs1)"
    by (metis prod_cases3)
  obtain ts2 cs2 where 2: "foldl (sweep_gone seen) (ts, cs1) (bt_keys (rg_mounts r)) = (ts2, cs2)" by force
  have r': "rg_mounts r' = seen" "cs = cs2" using assms(1) 1 2 by (auto simp: observe_mounts_def)
  have "Removed n \<notin> set cs1" using sweep_row_removes [OF 1] by auto
  moreover have "Removed n \<in> set cs2" using assms(2) r'(2) by simp
  ultimately have "bt_get n seen = None" using sweep_gone_removes [OF 2, of n] by simp
  then show ?thesis using observe_mounts_rows [of vs r] assms(1) r' found_listed by metis
qed

lemma tick_keeps:
  assumes "tick c T w = (w', cs, k)" "finds n (ti_found T)"
  shows "Removed n \<notin> set cs"
    "reg_mount n (wt_registry w) \<noteq> None \<longrightarrow> reg_mount n (wt_registry w') \<noteq> None"
proof -
  obtain w1 c1 c2 where parts: "sweep_if_due c T (forget_cycled w) = (w1, c1)" "poll_due c T w1 = (w', c2)"
      "cs = c1 @ c2"
    using tick_parts [OF assms(1)] by metis
  have rows: "rg_mounts (wt_registry w') = rg_mounts (wt_registry w1)"
    using tick_rows [of c T w] assms(1) parts(1) by simp
  have "Removed n \<notin> set c2" using parts(2) unfolding poll_due_def by (rule poll_each_keeps_rows)
  moreover have "Removed n \<notin> set c1
      \<and> (bt_get n (rg_mounts (wt_registry w)) \<noteq> None \<longrightarrow> bt_get n (rg_mounts (wt_registry w1)) \<noteq> None)"
  proof (cases "wt_sweep_due w \<le> ti_now T \<and> (\<exists>ds. ti_found T = Inr ds)")
    case True
    then obtain ds where ds: "ti_found T = Inr ds" by blast
    obtain rg c3 where o: "observe_mounts (map (found_view c) ds) (wt_registry w) = (rg, c3)" by force
    have "n \<in> mv_name ` set (map (found_view c) ds)"
      using assms(2) ds by (auto simp: finds_def found_view_def mount_view_of_def image_image)
    moreover have "c1 = c3" "wt_registry w1 = rg"
      using parts(1) True ds o by (auto simp: sweep_if_due_def sweep_mounts_def forget_cycled_def)
    ultimately show ?thesis
      using observed_removes [OF o, of n] observe_mounts_rows [of "map (found_view c) ds" "wt_registry w"] o found_listed
      by (metis fst_conv)
  next
    case False
    then show ?thesis using parts(1)
      by (auto simp: sweep_if_due_def sweep_mounts_def forget_cycled_def split: sum.splits if_splits)
  qed
  ultimately show "Removed n \<notin> set cs"
      "reg_mount n (wt_registry w) \<noteq> None \<longrightarrow> reg_mount n (wt_registry w') \<noteq> None"
    using parts(3) rows by (auto simp: reg_mount_def)
qed

lemma turn_keeps:
  assumes "turn S T w H s = ((w', cs), s')" "m \<in> set (cf_mounts (sp_config S))"
  shows "Removed (mt_name m) \<notin> set cs
    \<and> (reg_mount (mt_name m) (wt_registry w) \<noteq> None \<longrightarrow> reg_mount (mt_name m) (wt_registry w') \<noteq> None)"
proof -
  obtain x where act: "watch_act (sp_config S) (Ticked (T\<lparr>ti_found := x\<rparr>)) w = (w', cs)"
    and found: "\<And>ds. x = Inr ds \<Longrightarrow> reconcile S H s = (Inr ds, s')"
    using turn_watches [OF assms(1)] by metis
  have "finds (mt_name m) x"
    using configured_named [OF found] assms(2) by (auto simp: finds_def split: sum.split)
  moreover from act obtain k where "tick (sp_config S) (T\<lparr>ti_found := x\<rparr>) w = (w', cs, k)" by (auto split: prod.splits)
  ultimately show ?thesis using tick_keeps by simp
qed

lemma step_keeps:
  assumes "serve_step S e w H s = ((w', cs), s')" "m \<in> set (cf_mounts (sp_config S))"
  shows "Removed (mt_name m) \<notin> set cs
    \<and> (reg_mount (mt_name m) (wt_registry w) \<noteq> None \<longrightarrow> reg_mount (mt_name m) (wt_registry w') \<noteq> None)"
  using assms(1)
proof (cases rule: quiet_step)
  case (turned T)
  then show ?thesis using turn_keeps assms(2) by blast
qed simp

lemma loop_keeps_listed:
  assumes "serve_loop S es w H s = ((w', cs), s')" "m \<in> set (cf_mounts (sp_config S))"
  shows "Removed (mt_name m) \<notin> set cs
    \<and> (reg_mount (mt_name m) (wt_registry w) \<noteq> None \<longrightarrow> reg_mount (mt_name m) (wt_registry w') \<noteq> None)"
  using assms(1)
proof (induction es arbitrary: w s cs)
  case (Cons e es)
  from Cons.prems obtain w1 c1 s1 c2 where "serve_step S e w H s = ((w1, c1), s1)"
    "serve_loop S es w1 H s1 = ((w', c2), s')" "cs = c1 @ c2" by (rule serve_loop_Cons)
  then show ?case using step_keeps [OF _ assms(2)] Cons.IH by (metis Un_iff set_append)
qed simp

lemma configured_kept:
  assumes "serve_loop S es w H s = ((w', cs), s')"
  shows "n \<in> mt_name ` set (cf_mounts (sp_config S)) \<Longrightarrow> Removed n \<notin> set cs"
  using loop_keeps_listed [OF assms] by blast

text \<open>
  C19: A configured mount never vanishes: whatever the host answers and whatever is called, as long
  as the service runs it never says that a mount of its settings is gone, and one it lists stays
  listed. Only the rows of others, foreign mounts and leftovers, come and go.
\<close>

theorem configured_mounts_never_vanish:
  assumes "serve_loop S es w H s = ((w', cs), s')" "m \<in> set (cf_mounts (sp_config S))"
  shows "Removed (mt_name m) \<notin> set cs
    \<and> (reg_mount (mt_name m) (wt_registry w) \<noteq> None \<longrightarrow> reg_mount (mt_name m) (wt_registry w') \<noteq> None)"
  by (rule loop_keeps_listed [OF assms])

section \<open>What the service answers\<close>

definition SERVICE_VERSION :: string where "SERVICE_VERSION = ''0.1.0''"

text \<open>
  The four properties, the list and the reading of a name, each from the registry as it is when the
  call is served.
\<close>

definition service_answers ::
  "config \<Rightarrow> string \<Rightarrow> registry \<Rightarrow> registry \<Rightarrow> (string \<Rightarrow> registry) \<Rightarrow> tell_answers"
where
  "service_answers c rclone described listed read =
     \<lparr>sa_interface = Inr INTERFACE_VERSION,
      sa_service = Inr SERVICE_VERSION,
      sa_rclone = Inr rclone,
      sa_tier = Inr (capability_tier described),
      sa_mounts = Inr (list_mounts listed),
      sa_reading = (\<lambda>n. get_transfer_state c (read n) n)\<rparr>"

section \<open>The tray and the service\<close>

lemma started_watches:
  assumes "start_service B H s = (Inr (S, w), s')"
  obtains ss t c where "watch_run (sp_config S) ss (watch_new t) = (w, c)"
    "proper S H \<longrightarrow> list_all (step_agrees (sp_config S)) ss"
proof -
  obtain cs t where run: "turn S ((boot_tick B)\<lparr>ti_now := boot_now B + int (boot_lag B)\<rparr>) (watch_new (boot_now B)) H s = ((w, cs), t)"
    using started_turn [OF assms(1)] by metis
  then have "serve_step S (Turned ((boot_tick B)\<lparr>ti_now := boot_now B + int (boot_lag B)\<rparr>)) (watch_new (boot_now B)) H s
      = ((w, cs), t)" by (simp add: serve_step_def)
  from step_watches [OF this] show thesis using that by blast
qed

text \<open>The state after the first \<open>k\<close> steps.\<close>

definition life_at :: "supervisor \<Rightarrow> serving_step list \<Rightarrow> nat \<Rightarrow> watch \<Rightarrow> host \<Rightarrow> sys \<Rightarrow> registry" where
  "life_at S es k w H s = wt_registry (fst (fst (serve_loop S (take k es) w H s)))"

text \<open>
  C18: What the tray draws is what the service knows, end to end: a service comes up over any orderly
  host and serves for as long as it likes, sweeping, polling and carrying out calls; meanwhile the
  tray subscribes, attaches to what the service describes, lists and answers, each at its own moment,
  and follows the signals of its session, in which it is not asked to refresh, in whatever order it
  reads its streams. Once it has read everything the service has published since it subscribed, it
  shows of every configured mount, and of every other name that was not both taken away and
  otherwise spoken of in that time, just the row the service has, or none if it has none, and the
  reading the service has, as far as a reading vouches for itself; and if no name was both taken
  away and otherwise spoken of, its list is exactly the service's.
\<close>

theorem the_tray_shows_what_the_service_knows:
  assumes "orderly H" "start_service B H s = (Inr (S, w), t0)"
    and "serve_loop S es0 w H t0 = ((w0, c0), t1)" "serve_loop S es1 w0 H t1 = ((w1, c1), t2)"
      "serve_loop S es2 w1 H t2 = ((w2, c2), t3)"
    and "aa_tell a = service_answers (sp_config S) version (life_at S es1 d w0 H t1) (wt_registry w1)
           (\<lambda>n. life_at S es2 (b n) w1 H t2)"
    and "attach a owner = Inr (p, snap)" "lk_phase L = Attaching owner" "\<not> lk_gone L"
    and "lk_step L (Tried a cs) L1" "lk_runs L1 es L2" "list_all follows es" "lk_phase L2 = Session"
      "lk_signals L2 = []" "cs @ all_heard es = c1 @ c2"
  shows "(\<forall>n. n \<in> mt_name ` set (cf_mounts (sp_config S)) \<or> calm n (c1 @ c2)
        \<longrightarrow> shows_name (wt_registry w2) (lk_tray L2) n)
    \<and> (untangled (c1 @ c2) \<longrightarrow> shows_service (wt_registry w2) (lk_tray L2))"
proof -
  let ?c = "sp_config S"
  have proper: "proper S H" by (rule started_proper [OF assms(2,1)])
  obtain ss t c where start: "watch_run ?c ss (watch_new t) = (w, c)" "list_all (step_agrees ?c) ss"
    using started_watches [OF assms(2)] proper by metis
  obtain ss0 where 0: "watch_run ?c ss0 w = (w0, c0)" "list_all (step_agrees ?c) ss0"
    using loop_watches [OF assms(3)] proper by blast
  obtain ss1 where 1: "watch_run ?c ss1 w0 = (w1, c1)" "list_all (step_agrees ?c) ss1"
    using loop_watches [OF assms(4)] proper by blast
  obtain ss2 where 2: "watch_run ?c ss2 w1 = (w2, c2)" "list_all (step_agrees ?c) ss2"
    and at2: "\<forall>k. \<exists>j. fst (fst (serve_loop S (take k es2) w1 H t2)) = fst (watch_run ?c (take j ss2) w1)"
    using loop_watches [OF assms(5)] proper by blast
  from at2 obtain j where j: "\<And>k. fst (fst (serve_loop S (take k es2) w1 H t2)) = fst (watch_run ?c (take (j k) ss2) w1)"
    by metis
  have before: "watch_run ?c (ss @ ss0) (watch_new t) = (w0, c @ c0)" using start(1) 0(1) by (simp add: watch_run_append)
  have agree: "list_all (step_agrees ?c) ((ss @ ss0) @ ss1 @ ss2)" using start(2) 0(2) 1(2) 2(2) by simp
  have listed: "sa_mounts (aa_tell a) = Inr (list_mounts (wt_registry w1))"
    by (simp add: assms(6) service_answers_def)
  have read: "sa_reading (aa_tell a)
      = (\<lambda>n. get_transfer_state ?c (wt_registry (fst (watch_run ?c (take ((j \<circ> b) n) ss2) w1))) n)"
    by (simp add: assms(6) service_answers_def life_at_def j)
  have "calm n (c1 @ c2)" if "n \<in> mt_name ` set (cf_mounts (sp_config S))" for n
    using configured_kept [OF assms(4)] configured_kept [OF assms(5)] that by (auto simp: calm_def)
  then show ?thesis
    using a_linked_tray_shows_the_watch [OF agree before 1(1) 2(1) listed read assms(7-15)] by blast
qed

section \<open>A sample\<close>

lemma quiet_call:
  "snd (fst (serve_loop S [MountCalled n] w H s)) = []" "snd (fst (serve_loop S [UnmountCalled n force] w H s)) = []"
  by (simp_all add: serve_step_def split: prod.split)

theorem the_tray_shows_what_the_service_knows_witness:
  "\<exists>S w t0 w1 t1 w2 t2 a L1 es L2. start_service sample_boot (machine True False) power_on = (Inr (S, w), t0)
     \<and> serve_loop S [MountCalled ''backup''] w (machine True False) t0 = ((w1, []), t1)
     \<and> serve_loop S [UnmountCalled ''backup'' False] w1 (machine True False) t1 = ((w2, []), t2)
     \<and> lk_step (go_to (Attaching '':1.5'') linker_new) (Tried a []) L1 \<and> lk_runs L1 es L2
     \<and> shows_service (wt_registry w2) (lk_tray L2)"
proof -
  let ?H = "machine True False"
  obtain S w t0 where start: "start_service sample_boot ?H power_on = (Inr (S, w), t0)" using sample_started by blast
  obtain w1 t1 where 1: "serve_loop S [MountCalled ''backup''] w ?H t0 = ((w1, []), t1)"
    by (metis quiet_call(1) prod.collapse)
  obtain w2 t2 where 2: "serve_loop S [UnmountCalled ''backup'' False] w1 ?H t1 = ((w2, []), t2)"
    by (metis quiet_call(2) prod.collapse)
  let ?tell = "service_answers (sp_config S) ''1.75.0'' (life_at S [MountCalled ''backup''] 0 w ?H t0)
    (wt_registry w1) (\<lambda>n. life_at S [UnmountCalled ''backup'' False] 1 w1 ?H t1)"
  define tell where "tell = ?tell"
  let ?L = "go_to (Attaching '':1.5'') linker_new"
  have L: "lk_phase ?L = Attaching '':1.5''" "\<not> lk_gone ?L" by (simp_all add: linker_new_def)
  obtain info rows readings where snap: "gather tell = Inr (info, rows, readings)"
    by (simp add: tell_def service_answers_def gather_def describe_def and_then_def)
  note att = sample_attach [OF snap, of "'':1.5''"]
  define L1 where "L1 = unless_gone (go_to Session) (edit (attached info rows readings)
    (?L\<lparr>lk_backoff := backoff_reset (lk_backoff ?L), lk_proxy := Some (Some '':1.5''), lk_signals := []\<rparr>))"
  have step: "lk_step ?L (Tried (sample_attach tell) []) L1" unfolding L1_def by (rule attached_to [OF L(1) att])
  have "lk_phase L1 = Session" "\<not> lk_gone L1" using L(2) by (simp_all add: L1_def unless_gone_def)
  then obtain es L2 where es: "lk_runs L1 es L2" "list_all follows es" "all_heard es = []"
      "lk_phase L2 = Session" "lk_signals L2 = []"
    using drain by blast
  have told: "aa_tell (sample_attach tell) = ?tell" by (simp add: sample_attach_def tell_def)
  have heard: "[] @ all_heard es = [] @ []" using es(3) by simp
  have "(\<forall>n. n \<in> mt_name ` set (cf_mounts (sp_config S)) \<or> calm n ([] @ [])
        \<longrightarrow> shows_name (wt_registry w2) (lk_tray L2) n)
    \<and> (untangled ([] @ []) \<longrightarrow> shows_service (wt_registry w2) (lk_tray L2))"
    by (rule the_tray_shows_what_the_service_knows [where b = "\<lambda>_. 1" and ?es0.0 = "[]",
        OF sample_orderly start _ 1 2 told att L step es(1,2,4,5) heard]) simp
  then have "shows_service (wt_registry w2) (lk_tray L2)" by (simp add: untangled_def)
  then show ?thesis using start 1 2 step es(1) by blast
qed

theorem configured_mounts_never_vanish_witness:
  "\<exists>S w s'. start_service sample_boot (machine True False) power_on = (Inr (S, w), s')
     \<and> (\<forall>es. Removed ''backup'' \<notin> set (snd (fst (serve_loop S es w (machine True False) s'))))"
proof -
  obtain S w s' where run: "start_service sample_boot (machine True False) power_on = (Inr (S, w), s')"
    using sample_started by blast
  have "sp_config S = sample_config"
    using run by (auto simp: start_service_def and_then_def sample_settled supervisor_new_def request_name_def split: sum.splits prod.splits)
  then have m: "sample_mount \<in> set (cf_mounts (sp_config S))" by (simp add: sample_config_def)
  have "Removed ''backup'' \<notin> set (snd (fst (serve_loop S es w (machine True False) s')))" for es
    using configured_mounts_never_vanish [OF _ m, of es w "machine True False" s'] by (metis prod.collapse sample_mounts(2))
  then show ?thesis using run by blast
qed

end
