(* ===== verification/Evidence.thy ===== *)
theory Evidence
  imports Together
begin

text \<open>
  What a user is told rests on: from the words on the command line and in the tray's menu back
  through the bus, the registry and the watcher to the poll that read rclone or its cache.
\<close>

section \<open>What counts as evidence\<close>

text \<open>
  Either the answers name the cache and a mode that queues every write and report nothing queued,
  or rclone is out of reach and a finished walk of its cache found no unwritten file.
\<close>

definition live_evidence :: "answers \<Rightarrow> poller \<Rightarrow> bool" where
  "live_evidence a p =
     (\<exists>st c m. has (po_caps p) ''vfs/stats'' \<and> an_stats a = Inr st
        \<and> vs_disk_cache st = Some c \<and> cache_mode_of st = Some m \<and> all_writes_queued m
        \<and> (has (po_caps p) ''vfs/queue'' \<and> (\<exists>q. an_queue a = Inr q \<and> vq_queue q = Some [])
           \<or> (\<exists>e. fetch_queue a p = Inl e \<and> is_404 e)
              \<and> dc_uploads_in_progress c + dc_uploads_queued c = 0))"

definition disk_evidence :: "answers \<Rightarrow> poller \<Rightarrow> bool" where
  "disk_evidence a p =
     (\<exists>meta data found m. po_meta_path p = Some meta \<and> po_cache_path p = Some data
        \<and> po_mode p = Some m \<and> all_writes_queued m \<and> an_join a = Finished
        \<and> scan (an_fs a) (components meta) (components data) = Inr found
        \<and> (\<forall>q. \<not> dirty_at (an_fs a) (components meta) q))"

text \<open>A report of a queue has fewer entries than a machine has addresses.\<close>

definition bounded_queues :: "tick_answers \<Rightarrow> bool" where
  "bounded_queues T = (\<forall>n q. an_queue (ti_poll T n) = Inr q \<longrightarrow> length (items q) < 2 ^ 64)"

section \<open>Where the readings come from\<close>

text \<open>Whatever holds of all a mount's polls holds of the reading the registry keeps for it.\<close>

definition readings_are :: "(string \<Rightarrow> transfer_view \<Rightarrow> bool) \<Rightarrow> watch \<Rightarrow> bool" where
  "readings_are E w = (own_pollers w \<and> (\<forall>n v. reg_transfer n (wt_registry w) = Some v \<longrightarrow> E n v))"

definition polls_give :: "(string \<Rightarrow> transfer_view \<Rightarrow> bool) \<Rightarrow> tick_answers \<Rightarrow> bool" where
  "polls_give E T =
     (\<forall>n p0 s p. po_name p0 = n \<longrightarrow> poll (ti_poll T n) p0 = (s, p) \<longrightarrow> E n (transfer_view_of s))"

lemma observed_readings:
  assumes "observe_mounts vs r = (r', cs)" "reg_transfer n r' = Some v"
  shows "reg_transfer n r = Some v"
proof -
  obtain ts seen cs1 where 1: "foldl (sweep_row (rg_mounts r)) (rg_transfers r, [], []) vs = (ts, seen, cs1)"
    by (metis prod_cases3)
  obtain ts2 cs2 where 2: "foldl (sweep_gone seen) (ts, cs1) (bt_keys (rg_mounts r)) = (ts2, cs2)" by force
  have "bt_get n ts2 = Some v" using assms 1 2 by (auto simp: observe_mounts_def reg_transfer_def)
  then show ?thesis using sweep_kept [OF 1 sweep_gone_kept [OF 2]] by (simp add: reg_transfer_def)
qed

lemma poll_one_readings:
  assumes "polls_give E T" "readings_are E w" "poll_one c T name w = (w', cs)"
  shows "readings_are E w'"
proof (cases "is_some_and (bt_get name (wt_due w)) (\<lambda>due. ti_now T < due)")
  case True
  then show ?thesis using assms(2,3) by (simp add: poll_one_def)
next
  case False
  let ?p = "case bt_get name (wt_pollers w) of Some p \<Rightarrow> p | None \<Rightarrow> connect name (ti_list T name)"
  obtain state p where p: "poll (ti_poll T name) ?p = (state, p)" by force
  have own: "own_pollers w" using assms(2) by (simp add: readings_are_def)
  then have here: "po_name ?p = name" by (auto simp: own_pollers_def connect_def Let_def split: option.split)
  then have named: "ts_mount state = name" "po_name p = name" using poll_name [OF p] by simp_all
  have E: "E name (transfer_view_of state)" using assms(1) here p unfolding polls_give_def by blast
  have pollers: "wt_pollers w' = bt_insert name p (wt_pollers w)"
    and reg: "rg_transfers (wt_registry w') = rg_transfers (wt_registry w)
      \<or> rg_transfers (wt_registry w') = bt_insert name (transfer_view_of state) (rg_transfers (wt_registry w))"
    using assms(3) False p named(1)
    by (auto simp: poll_one_def Let_def observe_transfer_def note_tier_def transfer_view_of_def split: prod.splits if_splits)
  have "own_pollers w'" using own named(2) by (auto simp: own_pollers_def pollers bt_simps)
  moreover have "E n v" if "reg_transfer n (wt_registry w') = Some v" for n v
    using reg that E assms(2) by (auto simp: readings_are_def reg_transfer_def bt_simps split: if_splits)
  ultimately show ?thesis by (simp add: readings_are_def)
qed

lemma poll_each_readings:
  "polls_give E T \<Longrightarrow> readings_are E w \<Longrightarrow> poll_each c T names w = (w', cs) \<Longrightarrow> readings_are E w'"
  by (induction names arbitrary: w cs) (auto split: prod.splits dest: poll_one_readings)

lemma tick_readings:
  assumes "polls_give E T" "readings_are E w" "tick c T w = (w', cs, k)"
  shows "readings_are E w'"
proof -
  obtain w1 c1 c2 where parts: "sweep_if_due c T (forget_cycled w) = (w1, c1)" "poll_due c T w1 = (w', c2)"
    using tick_parts [OF assms(3)] by metis
  have "wt_pollers w1 = wt_pollers (forget_cycled w)" using sweep_keeps_pollers [OF parts(1)] by simp
  then have "own_pollers (keep_pollable w1)"
    using assms(2) unfolding readings_are_def
    by (auto simp: own_pollers_def keep_pollable_def Let_def forget_cycled_def bt_get_retain bt_get_fold_remove split: if_splits)
  moreover have "reg_transfer n (wt_registry w) = Some v" if "reg_transfer n (wt_registry w1) = Some v" for n v
    using that parts(1)
    by (auto simp: sweep_if_due_def sweep_mounts_def forget_cycled_def split: sum.splits if_splits prod.splits
        dest: observed_readings)
  ultimately have "readings_are E (keep_pollable w1)"
    using assms(2) by (auto simp: readings_are_def keep_pollable_def Let_def)
  then show ?thesis using parts(2) assms(1) poll_each_readings unfolding poll_due_def by blast
qed

lemma turn_readings:
  assumes "polls_give E T" "readings_are E w" "turn S T w H s = ((w', cs), s')"
  shows "readings_are E w'"
proof -
  obtain x where "watch_act (sp_config S) (Ticked (T\<lparr>ti_found := x\<rparr>)) w = (w', cs)"
    using turn_watches [OF assms(3)] by metis
  then obtain k where "tick (sp_config S) (T\<lparr>ti_found := x\<rparr>) w = (w', cs, k)" by (auto split: prod.splits)
  moreover have "polls_give E (T\<lparr>ti_found := x\<rparr>)" using assms(1) by (simp add: polls_give_def)
  ultimately show ?thesis using tick_readings assms(2) by blast
qed

lemma step_readings:
  assumes "\<And>T. e = Turned T \<Longrightarrow> polls_give E T" "readings_are E w" "serve_step S e w H s = ((w', cs), s')"
  shows "readings_are E w'"
  using assms(3)
proof (cases rule: quiet_step)
  case (turned T)
  then show ?thesis using turn_readings assms(1,2) by blast
qed (use assms(2) in \<open>simp add: readings_are_def own_pollers_def\<close>)

lemma loop_readings:
  assumes "\<And>T. Turned T \<in> set es \<Longrightarrow> polls_give E T" "readings_are E w" "serve_loop S es w H s = ((w', cs), s')"
  shows "readings_are E w'"
  by (rule serve_loop_keeps [where P = "readings_are E", OF _ assms(3,2)], rule step_readings) (use assms(1) in auto)

section \<open>A life\<close>

text \<open>Every turn of the loop, the one before the name is taken first.\<close>

definition turns_of :: "boot \<Rightarrow> serving_step list \<Rightarrow> tick_answers list" where
  "turns_of B es = boot_tick B # concat (map (\<lambda>e. case e of Turned T \<Rightarrow> [T] | _ \<Rightarrow> []) es)"

text \<open>A poll of the mount in one of the life's turns gave this state, and it had evidence for it.\<close>

definition found_settled :: "boot \<Rightarrow> serving_step list \<Rightarrow> string \<Rightarrow> transfer_state \<Rightarrow> bool" where
  "found_settled B es n t =
     (\<exists>T p0 p. T \<in> set (turns_of B es) \<and> po_name p0 = n \<and> poll (ti_poll T n) p0 = (t, p)
        \<and> (live_evidence (ti_poll T n) p \<or> disk_evidence (ti_poll T n) p))"

lemma turned_in: "Turned T \<in> set es \<Longrightarrow> T \<in> set (turns_of B es)"
  by (auto simp: turns_of_def)

lemma life_readings:
  assumes "start_service B H s = (Inr (S, w), s')" "serve_loop S es w H s' = ((w', cs), s'')"
    "list_all bounded_queues (turns_of B es)"
  shows "readings_are (\<lambda>n v. \<exists>t. v = transfer_view_of t \<and> (safe_to_unmount t \<longrightarrow> found_settled B es n t)) w'"
proof -
  let ?E = "\<lambda>n v. \<exists>t. v = transfer_view_of t \<and> (safe_to_unmount t \<longrightarrow> found_settled B es n t)"
  have gives: "polls_give ?E (T\<lparr>ti_now := now\<rparr>)" if T: "T \<in> set (turns_of B es)" for T now
  proof -
    have "bounded_queues T" using assms(3) T by (simp add: list_all_iff)
    then have "live_evidence (ti_poll T n) p \<or> disk_evidence (ti_poll T n) p"
      if "poll (ti_poll T n) p0 = (t, p)" "safe_to_unmount t" for n p0 t p
      using safe_poll [OF that] unfolding bounded_queues_def live_evidence_def disk_evidence_def by blast
    note seen = this
    show ?thesis unfolding polls_give_def
    proof (intro allI impI)
      fix n p0 t p assume "po_name p0 = n" "poll (ti_poll (T\<lparr>ti_now := now\<rparr>) n) p0 = (t, p)"
      then have run: "po_name p0 = n" "poll (ti_poll T n) p0 = (t, p)" by simp_all
      have "found_settled B es n t" if "safe_to_unmount t"
        unfolding found_settled_def using T run seen [OF run(2) that] by blast
      then show "?E n (transfer_view_of t)" by blast
    qed
  qed
  obtain cs0 t where first: "turn S ((boot_tick B)\<lparr>ti_now := boot_now B + int (boot_lag B)\<rparr>) (watch_new (boot_now B)) H s = ((w, cs0), t)"
    using started_turn [OF assms(1)] by metis
  have "readings_are ?E (watch_new (boot_now B))"
    by (simp add: readings_are_def watch_new_def own_pollers_def reg_transfer_def registry_default_def)
  moreover have "polls_give ?E ((boot_tick B)\<lparr>ti_now := boot_now B + int (boot_lag B)\<rparr>)"
    by (rule gives) (simp add: turns_of_def)
  ultimately have w: "readings_are ?E w" using turn_readings [OF _ _ first] by blast
  have "polls_give ?E T" if "Turned T \<in> set es" for T
    using gives [OF turned_in [OF that], of "ti_now T"] by simp
  then show ?thesis using loop_readings [OF _ w assms(2)] by blast
qed

lemma kept_reading:
  assumes "readings_are (\<lambda>n v. \<exists>t. v = transfer_view_of t \<and> (safe_to_unmount t \<longrightarrow> P n t)) w"
    "reg_transfer n (wt_registry w) = Some v"
  obtains t where "v = transfer_view_of t" "safe_to_unmount t \<longrightarrow> P n t"
  using assms unfolding readings_are_def by blast

lemma told_reading_of:
  assumes "get_transfer_state c r n = Inr v"
  shows "reg_transfer n r = Some v \<or> (\<exists>t. v = transfer_view_of t \<and> \<not> safe_to_unmount t)"
  using assms
  by (auto simp: get_transfer_state_def nothing_to_say_def not_swept_yet_def unmonitored_def ts_empty_def
      safe_to_unmount_def is_idle_def split: sum.splits option.splits)

text \<open>
  C2: What the command line calls up to date was seen to be. Whatever a service was asked and
  answered in its life, if \<^verbatim>\<open>status\<close> prints "up to date" for a mount from what it
  answers, then in one of that life's turns a poll of that very mount gave the state it stands for,
  and had evidence: rclone named the cache and a mode that queues every write and reported nothing
  queued, or rclone was out of reach and a finished walk of its cache found no unwritten file.
\<close>

theorem up_to_date_was_seen:
  assumes "start_service B H s = (Inr (S, w), s')" "serve_loop S es w H s' = ((w', cs), s'')"
    "list_all bounded_queues (turns_of B es)"
    and "get_transfer_state (sp_config S) (wt_registry w') (mv_name row) = Inr v"
      "pending_line_of \<lparr>en_view = row, en_transfer = Some v\<rparr> = ''up to date''"
  shows "\<exists>t. v = transfer_view_of t \<and> safe_to_unmount t \<and> found_settled B es (mv_name row) t"
proof -
  have safe: "safe_to_unmount t" if "v = transfer_view_of t" for t
    using assms(5) up_to_date_means_safe_to_unmount [of row t] that by simp
  then have "reg_transfer (mv_name row) (wt_registry w') = Some v" using told_reading_of [OF assms(4)] by blast
  with life_readings [OF assms(1-3)] obtain t where t: "v = transfer_view_of t"
    "safe_to_unmount t \<longrightarrow> found_settled B es (mv_name row) t" by (rule kept_reading)
  then show ?thesis using safe by blast
qed

text \<open>
  C3: "All synced" and "Up to date" were seen to be so. A tray that shows what the service ended
  with, which one that follows it does, says "All synced" in its menu or has the icon for "Up to
  date" only if for every mount of the service's own that serves there was a poll in that service's
  life with evidence that nothing was waiting.
\<close>

theorem all_synced_was_seen:
  assumes "start_service B H s = (Inr (S, w), s')" "serve_loop S es w H s' = ((w', cs), s'')"
    "list_all bounded_queues (turns_of B es)"
    and "shows_service (wt_registry w') m" "pending_line (summary_of m) = Some ''All synced'' \<or> state_of m = Idle"
      "row \<in> set (tm_mount_list m)" "ours row"
  shows "\<exists>t. reading_of m row = Some t \<and> safe_to_unmount t \<and> found_settled B es (mv_name row) t"
proof -
  obtain t where t: "reading_of m row = Some t" "safe_to_unmount t"
    using all_synced_is_earned [of m] idle_is_earned [of m] assms(5-7) by (auto simp: all_well_def)
  have "keeps_reading (wt_registry w') m row"
    using assms(4,6) by (auto simp: shows_service_def list_all_iff)
  with t obtain v where v: "reg_transfer (mv_name row) (wt_registry w') = Some v" "t = transfer_of_view v"
    by (auto simp: keeps_reading_def reading_of_def safe_to_unmount_def is_idle_def split: option.splits)
  from life_readings [OF assms(1-3)] v(1) obtain u where "v = transfer_view_of u"
    "safe_to_unmount u \<longrightarrow> found_settled B es (mv_name row) u" by (rule kept_reading)
  then show ?thesis using t v(2) by auto
qed

section \<open>A sample life\<close>

definition seen_tick :: tick_answers where
  "seen_tick = (sample_tick 0)\<lparr>ti_list := (\<lambda>_. Inl (NotListening ''/run/m.sock'')), ti_poll := (\<lambda>_. live_answers (Some []))\<rparr>"

definition seen_boot :: boot where
  "seen_boot = sample_boot\<lparr>boot_tick := seen_tick\<rparr>"

definition seen_state :: transfer_state where
  "seen_state = fst (poll (live_answers (Some [])) (connect ''backup'' (Inl (NotListening ''/run/m.sock''))))"

definition seen_row :: mount_view where
  "seen_row = found_view sample_config (dm_at ''/mnt/backup'' (discovered ''backup'' Mounted))"

lemma seen_state_safe: "safe_to_unmount seen_state" "ts_degraded_reason seen_state = None"
  by (simp_all add: seen_state_def sample_poll_simps)

lemma seen_row_fields: "mv_name seen_row = ''backup''" "pollable_view seen_row" "ours seen_row"
  by (simp_all add: seen_row_def found_view_def mount_view_of_def dm_at_def discovered_def pollable_view_def ours_def)

lemma seen_reconciled:
  assumes "sp_config S = sample_config"
  shows "fst (reconcile S (machine True False) power_on) = Inr [dm_at ''/mnt/backup'' (discovered ''backup'' Mounted)]"
proof -
  have "reconcile S = reconcile sample_supervisor"
    by (intro ext) (simp add: reconcile_def assms sample_supervisor_fields)
  then show ?thesis using sample_reconciled by simp
qed

lemma seen_life:
  "\<exists>S w s'. start_service seen_boot (machine True False) power_on = (Inr (S, w), s') \<and> sp_config S = sample_config
     \<and> rg_mounts (wt_registry w) = [(''backup'', seen_row)]
     \<and> rg_transfers (wt_registry w) = [(''backup'', transfer_view_of seen_state)]
     \<and> wt_sweep_due w = 1 + SWEEP_INTERVAL"
proof -
  obtain S w s' u cs where run: "start_service seen_boot (machine True False) power_on = (Inr (S, w), s')"
    "turn S (seen_tick\<lparr>ti_now := 1\<rparr>) (watch_new 0) (machine True False) power_on = ((w, cs), u)"
    "sp_config S = sample_config"
    using sample_starts [of seen_tick] unfolding seen_boot_def by blast
  let ?found = "Inr [dm_at ''/mnt/backup'' (discovered ''backup'' Mounted)] :: supervisor_error + discovered_mount list"
  obtain t where "reconcile S (machine True False) power_on = (?found, t)"
    using seen_reconciled [OF run(3)] by (metis prod.collapse)
  then have w: "w = fst (tick sample_config (seen_tick\<lparr>ti_now := 1, ti_found := ?found\<rparr>) (watch_new 0))"
    using run(2,3) by (auto simp: turn_def watch_new_def seen_tick_def sample_tick_def split: prod.splits)
  have sweep: "observe_mounts [seen_row] registry_default
      = (\<lparr>rg_mounts = [(''backup'', seen_row)], rg_transfers = [], rg_tier = None\<rparr>, [MountChange seen_row])"
    using seen_row_fields by (simp add: observe_mounts_def registry_default_def sweep_row_def bt_keys_def Let_def)
  have "pollable \<lparr>rg_mounts = [(''backup'', seen_row)], rg_transfers = [], rg_tier = None\<rparr> = [''backup'']"
    using seen_row_fields by (simp add: pollable_def bt_values_def)
  moreover have "tv_mount (transfer_view_of seen_state) = ''backup''"
    using poll_name(1) [of "live_answers (Some [])" "connect ''backup'' (Inl (NotListening ''/run/m.sock''))"]
    by (simp add: seen_state_def transfer_view_of_def connect_def Let_def prod_eq_iff)
  ultimately have "rg_mounts (wt_registry w) = [(''backup'', seen_row)]
      \<and> rg_transfers (wt_registry w) = [(''backup'', transfer_view_of seen_state)]
      \<and> wt_sweep_due w = 1 + SWEEP_INTERVAL"
    unfolding w
    by (simp add: tick_def sweep_if_due_def sweep_mounts_def forget_cycled_def watch_new_def seen_tick_def
        sample_tick_def sweep seen_row_def [symmetric] poll_due_def keep_pollable_def poll_one_def split_def Let_def
        bt_remove_def bt_get_def is_some_and_def observe_transfer_def note_tier_def seen_state_def [symmetric])
  then show ?thesis using run by blast
qed

lemma seen_bounded: "list_all bounded_queues (turns_of seen_boot [])"
  by (auto simp: turns_of_def seen_boot_def seen_tick_def bounded_queues_def live_answers_def items_def)

theorem up_to_date_was_seen_witness:
  "\<exists>S w s' v. start_service seen_boot (machine True False) power_on = (Inr (S, w), s')
     \<and> get_transfer_state (sp_config S) (wt_registry w) ''backup'' = Inr v
     \<and> pending_line_of \<lparr>en_view = seen_row, en_transfer = Some v\<rparr> = ''up to date''
     \<and> (\<exists>t. found_settled seen_boot [] ''backup'' t)"
proof -
  obtain S w s' where life: "start_service seen_boot (machine True False) power_on = (Inr (S, w), s')"
    "sp_config S = sample_config" "rg_transfers (wt_registry w) = [(''backup'', transfer_view_of seen_state)]"
    using seen_life by blast
  have told: "get_transfer_state (sp_config S) (wt_registry w) (mv_name seen_row) = Inr (transfer_view_of seen_state)"
    using sample_known by (simp add: get_transfer_state_def life reg_transfer_def bt_get_def seen_row_fields)
  have line: "pending_line_of \<lparr>en_view = seen_row, en_transfer = Some (transfer_view_of seen_state)\<rparr> = ''up to date''"
    using up_to_date_means_safe_to_unmount seen_state_safe(1) by blast
  have "serve_loop S [] w (machine True False) s' = ((w, []), s')" by simp
  from up_to_date_was_seen [OF life(1) this seen_bounded told line]
  show ?thesis using life(1) told line by (auto simp: seen_row_fields)
qed

theorem all_synced_was_seen_witness:
  "\<exists>S w s' m. start_service seen_boot (machine True False) power_on = (Inr (S, w), s')
     \<and> shows_service (wt_registry w) m \<and> pending_line (summary_of m) = Some ''All synced''
     \<and> (\<exists>t. found_settled seen_boot [] ''backup'' t)"
proof -
  obtain S w s' where life: "start_service seen_boot (machine True False) power_on = (Inr (S, w), s')"
    "rg_mounts (wt_registry w) = [(''backup'', seen_row)]"
    "rg_transfers (wt_registry w) = [(''backup'', transfer_view_of seen_state)]"
    using seen_life by blast
  define m where "m = (tray_new [] False)\<lparr>tm_mounts := [(''backup'', seen_row)], tm_transfers := [(''backup'', seen_state)]\<rparr>"
  have rows: "tm_mount_list m = [seen_row]" "reading_of m seen_row = Some seen_state"
    by (simp_all add: m_def tm_mount_list_def bt_values_def reading_of_def tm_transfer_def bt_get_def seen_row_fields)
  then have all: "pending_line (summary_of m) = Some ''All synced''"
    using all_synced_is_earned [of m] seen_state_safe seen_row_fields(3) by auto
  have same: "shows_service (wt_registry w) m"
    using rows by (simp add: shows_service_def keeps_reading_def reg_mounts_def bt_values_def life reg_transfer_def
        bt_get_def seen_row_fields reading_of_def)
  have "serve_loop S [] w (machine True False) s' = ((w, []), s')" by simp
  from all_synced_was_seen [OF life(1) this seen_bounded same disjI1 [OF all], of seen_row]
  show ?thesis using life(1) same all rows(1) seen_row_fields by auto
qed

section \<open>What there are readings of\<close>

lemma life_sound:
  assumes "orderly H" "start_service B H s = (Inr (S, w), s')" "serve_loop S es w H s' = ((w', cs), s'')"
  shows "sound (wt_registry w')"
proof -
  have proper: "proper S H" by (rule started_proper [OF assms(2,1)])
  obtain ss t c where start: "watch_run (sp_config S) ss (watch_new t) = (w, c)" "list_all (step_agrees (sp_config S)) ss"
    using started_watches [OF assms(2)] proper by metis
  obtain ts where "watch_run (sp_config S) ts w = (w', cs)" "list_all (step_agrees (sp_config S)) ts"
    using loop_watches [OF assms(3)] proper by blast
  with start have "watch_run (sp_config S) (ss @ ts) (watch_new t) = (w', c @ cs)"
    "list_all (step_agrees (sp_config S)) (ss @ ts)" by (simp_all add: watch_run_append)
  then show ?thesis using run_leads new_sound leads_sound by blast
qed

text \<open>
  C5: A service has readings only of mounts that are up and its own: over an orderly host, however
  long it has served and whatever calls it has carried out, every row it lists is filed under its own
  name, and every reading it holds is filed under the name it speaks of, of a mount it lists as managed
  by itself and as mounted.
\<close>

theorem readings_are_of_our_mounts:
  assumes "orderly H" "start_service B H s = (Inr (S, w), s')" "serve_loop S es w H s' = ((w', cs), s'')"
  shows "(\<forall>n v. reg_mount n (wt_registry w') = Some v \<longrightarrow> mv_name v = n)
    \<and> (\<forall>n r. reg_transfer n (wt_registry w') = Some r \<longrightarrow> tv_mount r = n
         \<and> (\<exists>v. reg_mount n (wt_registry w') = Some v \<and> mv_managed v \<and> pollable_view v))"
proof -
  have s: "sound (wt_registry w')" by (rule life_sound [OF assms])
  then have k: "keyed (wt_registry w')" by (simp add: sound_def)
  have "tv_mount r = n \<and> (\<exists>v. reg_mount n (wt_registry w') = Some v \<and> mv_managed v \<and> pollable_view v)"
    if "reg_transfer n (wt_registry w') = Some r" for n r
    using s that pollable_get [OF k, of n] unfolding sound_def by blast
  moreover have "mv_name v = n" if "reg_mount n (wt_registry w') = Some v" for n v
    using k that by (simp add: keyed_def keyed_rows_def reg_mount_def)
  ultimately show ?thesis by blast
qed

theorem readings_are_of_our_mounts_witness:
  "\<exists>S w s'. start_service seen_boot (machine True False) power_on = (Inr (S, w), s')
     \<and> reg_transfer ''backup'' (wt_registry w) \<noteq> None
     \<and> (\<exists>v. reg_mount ''backup'' (wt_registry w) = Some v \<and> mv_managed v \<and> pollable_view v)"
proof -
  obtain S w s' where life: "start_service seen_boot (machine True False) power_on = (Inr (S, w), s')"
    "rg_transfers (wt_registry w) = [(''backup'', transfer_view_of seen_state)]"
    using seen_life by blast
  have "serve_loop S [] w (machine True False) s' = ((w, []), s')" by simp
  note shown = readings_are_of_our_mounts [OF sample_orderly life(1) this]
  have "reg_transfer ''backup'' (wt_registry w) = Some (transfer_view_of seen_state)"
    by (simp add: life(2) reg_transfer_def bt_get_def)
  with shown life(1) show ?thesis by blast
qed

end
