(* ===== verification/Freshness.thy ===== *)
theory Freshness
  imports Evidence
begin

text \<open>
  How old a reading can be: after every turn of the watcher each mount it polls has a reading whose
  poll is not due again yet (crates/service/src/watch.rs with the cadence of poller.rs).
\<close>

section \<open>A reading and when it is due\<close>

text \<open>The reading kept for the mount is that of a poll in one of these turns, and this is its deadline.\<close>

definition dated :: "config \<Rightarrow> tick_answers set \<Rightarrow> string \<Rightarrow> registry \<Rightarrow> int \<Rightarrow> bool" where
  "dated c Ts n r due =
     (\<exists>T p0 t p. T \<in> Ts \<and> po_name p0 = n \<and> poll (ti_poll T n) p0 = (t, p)
        \<and> reg_transfer n r = Some (transfer_view_of t)
        \<and> due = ti_polled T n + 1000 * uint (interval t (gc_poll (cf_global c))))"

definition scheduled :: "config \<Rightarrow> tick_answers set \<Rightarrow> watch \<Rightarrow> bool" where
  "scheduled c Ts w =
     (own_pollers w \<and> keyed (wt_registry w)
      \<and> (\<forall>n d. bt_get n (wt_due w) = Some d
            \<longrightarrow> n \<in> set (pollable (wt_registry w)) \<and> dated c Ts n (wt_registry w) d))"

text \<open>Polled in this very turn, or not due by the time it began.\<close>

definition current :: "config \<Rightarrow> tick_answers set \<Rightarrow> tick_answers \<Rightarrow> string \<Rightarrow> watch \<Rightarrow> bool" where
  "current c Ts T n w =
     (\<exists>d. bt_get n (wt_due w) = Some d
        \<and> (if ti_now T < d then dated c Ts n (wt_registry w) d else dated c {T} n (wt_registry w) d))"

lemma dated_mono: "dated c Ts n r d \<Longrightarrow> Ts \<subseteq> Us \<Longrightarrow> dated c Us n r d"
  unfolding dated_def by blast

lemma dated_same: "dated c Ts n r d \<Longrightarrow> reg_transfer n r' = reg_transfer n r \<Longrightarrow> dated c Ts n r' d"
  unfolding dated_def by simp

lemma scheduled_mono: "scheduled c Ts w \<Longrightarrow> Ts \<subseteq> Us \<Longrightarrow> scheduled c Us w"
  unfolding scheduled_def using dated_mono by blast

section \<open>One poll\<close>

lemma poll_one_current:
  assumes "scheduled c Ts w" "T \<in> Ts" "poll_one c T name w = (w', cs)" "name \<in> set (pollable (wt_registry w))"
  shows "scheduled c Ts w'" "pollable (wt_registry w') = pollable (wt_registry w)" "current c Ts T name w'"
    "current c Ts T n w \<Longrightarrow> current c Ts T n w'"
proof -
  have A: "scheduled c Ts w' \<and> pollable (wt_registry w') = pollable (wt_registry w) \<and> current c Ts T name w'
      \<and> (current c Ts T n w \<longrightarrow> current c Ts T n w')"
  proof (cases "is_some_and (bt_get name (wt_due w)) (\<lambda>due. ti_now T < due)")
    case True
    then have "w' = w" using assms(3) by (simp add: poll_one_def)
    moreover from True obtain d where "bt_get name (wt_due w) = Some d" "ti_now T < d" by (auto simp: is_some_and_def split: option.splits)
    ultimately show ?thesis using assms(1) by (auto simp: current_def scheduled_def)
  next
    case False
    let ?p = "case bt_get name (wt_pollers w) of Some p \<Rightarrow> p | None \<Rightarrow> connect name (ti_list T name)"
    obtain t p where p: "poll (ti_poll T name) ?p = (t, p)" by force
    have own: "own_pollers w" using assms(1) by (simp add: scheduled_def)
    then have here: "po_name ?p = name" by (auto simp: own_pollers_def connect_def Let_def split: option.split)
    then have named: "ts_mount t = name" "po_name p = name" using poll_name [OF p] by simp_all
    define d where "d = ti_polled T name + 1000 * uint (interval t (gc_poll (cf_global c)))"
    have pollers: "wt_pollers w' = bt_insert name p (wt_pollers w)" and due: "wt_due w' = bt_insert name d (wt_due w)"
      using assms(3) False p by (auto simp: poll_one_def d_def Let_def split: prod.splits if_splits)
    have rows: "rg_mounts (wt_registry w') = rg_mounts (wt_registry w)" using poll_one_effect(1) [OF assms(3)] .
    have read: "reg_transfer k (wt_registry w') = (if k = name then Some (transfer_view_of t) else reg_transfer k (wt_registry w))" for k
      using assms(3) False p named(1)
      by (auto simp: poll_one_def Let_def observe_transfer_def note_tier_def transfer_view_of_def reg_transfer_def bt_simps
          split: prod.splits if_splits)
    have mine: "dated c {T} name (wt_registry w') d" unfolding dated_def d_def using here p read by auto
    have other: "dated c Us k (wt_registry w') e" if "dated c Us k (wt_registry w) e" "k \<noteq> name" for Us k e
      using that read by (auto intro: dated_same)
    have "pollable (wt_registry w') = pollable (wt_registry w)" by (simp add: pollable_def rows)
    moreover have "scheduled c Ts w'"
      unfolding scheduled_def
    proof (intro conjI allI impI)
      show "own_pollers w'" using own named(2) by (auto simp: own_pollers_def pollers bt_simps)
      show "keyed (wt_registry w')" using assms(1) keyed_mounts [OF rows] by (simp add: scheduled_def)
      fix k e assume k: "bt_get k (wt_due w') = Some e"
      show "k \<in> set (pollable (wt_registry w'))"
        using k assms(1,4) by (auto simp: due bt_simps pollable_def rows scheduled_def split: if_splits)
      show "dated c Ts k (wt_registry w') e"
      proof (cases "k = name")
        case True
        then have "e = d" using k by (simp add: due bt_simps)
        then show ?thesis using dated_mono [OF mine] assms(2) True by simp
      next
        case False
        then show ?thesis using k assms(1) other by (auto simp: due bt_simps scheduled_def)
      qed
    qed
    moreover have now: "current c Ts T name w'"
      unfolding current_def using mine dated_mono [OF mine, of Ts] assms(2) by (auto simp: due bt_simps)
    moreover have "current c Ts T n w'" if "current c Ts T n w" "n \<noteq> name"
      using that other by (auto simp: current_def due bt_simps split: if_splits)
    ultimately show ?thesis by blast
  qed
  from A show "scheduled c Ts w'" "pollable (wt_registry w') = pollable (wt_registry w)" "current c Ts T name w'" by simp_all
  from A show "current c Ts T n w \<Longrightarrow> current c Ts T n w'" by simp
qed

lemma poll_each_current:
  "scheduled c Ts w \<Longrightarrow> T \<in> Ts \<Longrightarrow> poll_each c T names w = (w', cs) \<Longrightarrow> set names \<subseteq> set (pollable (wt_registry w))
     \<Longrightarrow> scheduled c Ts w' \<and> pollable (wt_registry w') = pollable (wt_registry w)
       \<and> (\<forall>n. n \<in> set names \<or> current c Ts T n w \<longrightarrow> current c Ts T n w')"
proof (induction names arbitrary: w cs)
  case (Cons name names)
  obtain w1 c1 c2 where 1: "poll_one c T name w = (w1, c1)" "poll_each c T names w1 = (w', c2)"
    using Cons.prems(3) by (auto split: prod.splits)
  have name: "name \<in> set (pollable (wt_registry w))" using Cons.prems(4) by simp
  note one = poll_one_current [OF Cons.prems(1,2) 1(1) name]
  have "scheduled c Ts w' \<and> pollable (wt_registry w') = pollable (wt_registry w1)
       \<and> (\<forall>n. n \<in> set names \<or> current c Ts T n w1 \<longrightarrow> current c Ts T n w')"
    using Cons.IH [OF one(1) Cons.prems(2) 1(2)] Cons.prems(4) one(2) by simp
  then show ?case using one(2,3,4) by auto
qed auto

section \<open>One turn\<close>

lemma sweep_rows_pollable:
  "foldl (sweep_row M) (ts, seen, cs) vs = (ts', seen', cs') \<Longrightarrow> \<forall>v \<in> set vs. mv_name v = n \<longrightarrow> pollable_view v
     \<Longrightarrow> bt_get n ts' = bt_get n ts"
proof (induction vs arbitrary: ts seen cs)
  case (Cons v vs)
  obtain t1 s1 c1 where 1: "sweep_row M (ts, seen, cs) v = (t1, s1, c1)" by (metis prod_cases3)
  then have "bt_get n ts' = bt_get n t1" using Cons.IH [of t1 s1 c1] Cons.prems by simp
  then show ?case using 1 Cons.prems(2) by (auto simp: sweep_row_def Let_def bt_simps split: if_splits)
qed simp

lemma sweep_gone_listed:
  "foldl (sweep_gone seen) (ts, cs) ks = (ts', cs') \<Longrightarrow> bt_get n seen \<noteq> None \<Longrightarrow> bt_get n ts' = bt_get n ts"
proof (induction ks arbitrary: ts cs)
  case (Cons k ks)
  obtain t1 c1 where 1: "sweep_gone seen (ts, cs) k = (t1, c1)" by force
  then have "bt_get n ts' = bt_get n t1" using Cons.IH [of t1 c1] Cons.prems by simp
  then show ?case using 1 Cons.prems(2) by (auto simp: sweep_gone_def bt_simps split: if_splits)
qed simp

lemma swept_reading:
  assumes "rows_agree (Sweep vs)" "observe_mounts vs r = (r', cs)" "n \<in> set (pollable r')"
  shows "reg_transfer n r' = reg_transfer n r"
proof -
  obtain v where v: "reg_mount n r' = Some v" "pollable_view v"
    using assms(3) pollable_get [OF observe_keyed [OF assms(2)]] by blast
  have get: "bt_get n (rg_mounts r') = Some x \<longleftrightarrow> x \<in> set vs \<and> mv_name x = n" for x
    using observe_mounts_rows [OF assms(2)] rows_of_get [OF assms(1), of n x] by simp
  then have all: "\<forall>x \<in> set vs. mv_name x = n \<longrightarrow> pollable_view x"
    using v get by (metis option.inject reg_mount_def)
  obtain ts seen cs1 where 1: "foldl (sweep_row (rg_mounts r)) (rg_transfers r, [], []) vs = (ts, seen, cs1)"
    by (metis prod_cases3)
  obtain ts2 cs2 where 2: "foldl (sweep_gone seen) (ts, cs1) (bt_keys (rg_mounts r)) = (ts2, cs2)" by force
  have r': "rg_mounts r' = seen" "rg_transfers r' = ts2" using assms(2) 1 2 by (auto simp: observe_mounts_def)
  then have "bt_get n seen \<noteq> None" using v(1) by (simp add: reg_mount_def)
  then show ?thesis using sweep_rows_pollable [OF 1 all] sweep_gone_listed [OF 2] r' by (simp add: reg_transfer_def)
qed

lemma sweep_reading:
  assumes "step_agrees c (Ticked T)" "sweep_if_due c T w = (w', cs)" "n \<in> set (pollable (wt_registry w'))"
  shows "reg_transfer n (wt_registry w') = reg_transfer n (wt_registry w)"
proof (cases "wt_sweep_due w \<le> ti_now T \<and> (\<exists>ds. ti_found T = Inr ds)")
  case True
  then obtain ds where ds: "ti_found T = Inr ds" by blast
  obtain r cs' where o: "observe_mounts (map (found_view c) ds) (wt_registry w) = (r, cs')" by force
  then have "wt_registry w' = r" using assms(2) True ds by (auto simp: sweep_if_due_def sweep_mounts_def)
  moreover have "rows_agree (Sweep (map (found_view c) ds))" using assms(1) ds by (simp add: step_agrees_def)
  ultimately show ?thesis using swept_reading [OF _ o] assms(3) by simp
next
  case False
  then show ?thesis using assms(2)
    by (auto simp: sweep_if_due_def sweep_mounts_def split: sum.splits if_splits)
qed

lemma tick_current:
  assumes "scheduled c Ts w" "T \<in> Ts" "step_agrees c (Ticked T)" "tick c T w = (w', cs, k)"
  shows "scheduled c Ts w' \<and> (\<forall>n \<in> set (pollable (wt_registry w')). current c Ts T n w')"
proof -
  obtain w1 c1 c2 where parts: "sweep_if_due c T (forget_cycled w) = (w1, c1)" "poll_due c T w1 = (w', c2)"
    using tick_parts [OF assms(4)] by metis
  have kept: "wt_pollers w1 = wt_pollers (forget_cycled w)" "wt_due w1 = wt_due (forget_cycled w)"
    using sweep_keeps_pollers [OF parts(1)] by simp_all
  have fields: "own_pollers w" "keyed (wt_registry w)"
    "\<And>n d. bt_get n (wt_due w) = Some d \<Longrightarrow> dated c Ts n (wt_registry w) d"
    using assms(1) by (auto simp: scheduled_def)
  have "scheduled c Ts (keep_pollable w1)"
    unfolding scheduled_def
  proof (intro conjI allI impI)
    show "own_pollers (keep_pollable w1)"
      using fields(1) unfolding own_pollers_def
      by (auto simp: keep_pollable_def Let_def kept forget_cycled_def bt_get_retain bt_get_fold_remove split: if_splits)
    show "keyed (wt_registry (keep_pollable w1))"
      using sweep_keyed [OF parts(1)] fields(2) by (simp add: keep_pollable_def Let_def forget_cycled_def)
    fix n d assume d: "bt_get n (wt_due (keep_pollable w1)) = Some d"
    then have n: "n \<in> set (pollable (wt_registry w1))" and due: "bt_get n (wt_due w) = Some d"
      by (auto simp: keep_pollable_def Let_def kept forget_cycled_def bt_get_retain bt_get_fold_remove split: if_splits)
    then show "n \<in> set (pollable (wt_registry (keep_pollable w1)))" by (simp add: keep_pollable_def Let_def)
    have "reg_transfer n (wt_registry w1) = reg_transfer n (wt_registry w)"
      using sweep_reading [OF assms(3) parts(1) n] by (simp add: forget_cycled_def)
    with fields(3) [OF due] have "dated c Ts n (wt_registry w1) d" by (rule dated_same)
    then show "dated c Ts n (wt_registry (keep_pollable w1)) d" by (simp add: keep_pollable_def Let_def)
  qed
  moreover have "pollable (wt_registry w1) = pollable (wt_registry (keep_pollable w1))"
    by (simp add: keep_pollable_def Let_def)
  ultimately show ?thesis using poll_each_current [OF _ assms(2) parts(2) [unfolded poll_due_def]] by auto
qed

section \<open>A life\<close>

text \<open>What a turn polls does not depend on what its sweep finds, nor on when it begins.\<close>

definition like :: "tick_answers list \<Rightarrow> tick_answers set" where
  "like ts = {U. \<exists>T \<in> set ts. ti_poll U = ti_poll T \<and> ti_polled U = ti_polled T}"

lemma like_mono: "set ts \<subseteq> set us \<Longrightarrow> like ts \<subseteq> like us"
  unfolding like_def by blast

lemma turn_current:
  assumes "proper S H" "scheduled (sp_config S) (like ts) w" "T \<in> like ts" "turn S T w H s = ((w', cs), s')"
  shows "scheduled (sp_config S) (like ts) w'"
    "\<exists>x. \<forall>n \<in> set (pollable (wt_registry w')). current (sp_config S) (like ts) (T\<lparr>ti_found := x\<rparr>) n w'"
proof -
  obtain x where act: "watch_act (sp_config S) (Ticked (T\<lparr>ti_found := x\<rparr>)) w = (w', cs)"
    and agree: "step_agrees (sp_config S) (Ticked (T\<lparr>ti_found := x\<rparr>))"
    using turn_watches [OF assms(4)] assms(1) by metis
  obtain k where "tick (sp_config S) (T\<lparr>ti_found := x\<rparr>) w = (w', cs, k)" using act by (auto split: prod.splits)
  moreover have "T\<lparr>ti_found := x\<rparr> \<in> like ts" using assms(3) by (simp add: like_def)
  ultimately show "scheduled (sp_config S) (like ts) w'"
    "\<exists>x. \<forall>n \<in> set (pollable (wt_registry w')). current (sp_config S) (like ts) (T\<lparr>ti_found := x\<rparr>) n w'"
    using tick_current [OF assms(2) _ agree] by blast+
qed

lemma step_current:
  assumes "proper S H" "scheduled (sp_config S) (like ts) w" "\<And>T. e = Turned T \<Longrightarrow> T \<in> like ts"
    "serve_step S e w H s = ((w', cs), s')"
  shows "scheduled (sp_config S) (like ts) w'"
  using assms(4)
proof (cases rule: quiet_step)
  case (turned T)
  then show ?thesis using turn_current(1) [OF assms(1,2)] assms(3) by blast
qed (use assms(2) in \<open>simp add: scheduled_def own_pollers_def\<close>)

lemma loop_current:
  assumes "proper S H" "\<And>T. Turned T \<in> set es \<Longrightarrow> T \<in> like ts" "scheduled (sp_config S) (like ts) w"
    "serve_loop S es w H s = ((w', cs), s')"
  shows "scheduled (sp_config S) (like ts) w'"
  by (rule serve_loop_keeps [where P = "scheduled (sp_config S) (like ts)", OF _ assms(4,3)], rule step_current [OF assms(1)]) (use assms(2) in auto)

lemma started_current:
  assumes "proper S H" "start_service B H s = (Inr (S, w), s')"
  shows "scheduled (sp_config S) (like [boot_tick B]) w"
proof -
  obtain cs t where first: "turn S ((boot_tick B)\<lparr>ti_now := boot_now B + int (boot_lag B)\<rparr>) (watch_new (boot_now B)) H s = ((w, cs), t)"
    using started_turn [OF assms(2)] by metis
  have "scheduled (sp_config S) (like [boot_tick B]) (watch_new (boot_now B))"
    using keyed_new [of "boot_now B"] by (simp add: scheduled_def own_pollers_def) (simp add: watch_new_def)
  then show ?thesis by (rule turn_current(1) [OF assms(1) _ _ first]) (simp add: like_def)
qed

lemma interval_within:
  assumes "proper S H"
  shows "uint (interval t (gc_poll (cf_global (sp_config S)))) \<le> 86400"
proof -
  obtain U where "config_ok U (sp_config S)" using assms validate_iff by (auto simp: proper_def)
  then have "active_secs (gc_poll (cf_global (sp_config S))) \<le> MAX_POLL_SECS"
    "idle_secs (gc_poll (cf_global (sp_config S))) \<le> MAX_POLL_SECS"
    by (simp_all add: config_ok_def)
  then have "interval t (gc_poll (cf_global (sp_config S))) \<le> MAX_POLL_SECS"
    using interval_cadence [of t "gc_poll (cf_global (sp_config S))"] by auto
  then show ?thesis by (simp add: MAX_POLL_SECS_def word_le_def)
qed

text \<open>
  C4: No reading is stale. After every turn of a service's life over an orderly host, each mount it
  polls has a reading, and it is that of a poll of that mount in one of the life's turns: the last
  one, or one whose interval, settled by the state it gave and never more than a day, had not run
  out when the last turn began. A call to mount or unmount in between changes nothing of that.
\<close>

theorem no_reading_is_stale:
  assumes "orderly H" "start_service B H s = (Inr (S, w), s0)" "serve_loop S es w H s0 = ((w1, c1), s1)"
    "serve_step S (Turned T) w1 H s1 = ((w', c2), s2)" "n \<in> set (pollable (wt_registry w'))"
  shows "\<exists>T0 p0 t p. T0 \<in> set (turns_of B (es @ [Turned T])) \<and> po_name p0 = n \<and> poll (ti_poll T0 n) p0 = (t, p)
    \<and> reg_transfer n (wt_registry w') = Some (transfer_view_of t)
    \<and> (if T0 = T then True
       else ti_now T < ti_polled T0 n + 1000 * uint (interval t (gc_poll (cf_global (sp_config S))))
         \<and> ti_now T < ti_polled T0 n + 86400000)"
proof -
  let ?c = "sp_config S" and ?ts = "turns_of B (es @ [Turned T])"
  have proper: "proper S H" by (rule started_proper [OF assms(2,1)])
  have in_life: "U \<in> like ?ts" if "Turned U \<in> set es \<or> U = T" for U
    using that turned_in [of U "es @ [Turned T]" B] by (auto simp: like_def)
  have "like [boot_tick B] \<subseteq> like ?ts" by (rule like_mono) (simp add: turns_of_def)
  then have "scheduled ?c (like ?ts) w" using scheduled_mono [OF started_current [OF proper assms(2)]] by blast
  then have sched: "scheduled ?c (like ?ts) w1" using loop_current [OF proper _ _ assms(3)] in_life by blast
  have "turn S T w1 H s1 = ((w', c2), s2)" using assms(4) by (simp add: serve_step_def)
  then obtain x where "current ?c (like ?ts) (T\<lparr>ti_found := x\<rparr>) n w'"
    using turn_current(2) [OF proper sched] in_life assms(5) by blast
  then obtain d where d: "if ti_now T < d then dated ?c (like ?ts) n (wt_registry w') d
      else dated ?c {T\<lparr>ti_found := x\<rparr>} n (wt_registry w') d"
    by (auto simp: current_def)
  show ?thesis
  proof (cases "ti_now T < d")
    case True
    then obtain U p0 t p where U: "U \<in> like ?ts" "po_name p0 = n" "poll (ti_poll U n) p0 = (t, p)"
      "reg_transfer n (wt_registry w') = Some (transfer_view_of t)"
      "d = ti_polled U n + 1000 * uint (interval t (gc_poll (cf_global ?c)))"
      using d by (auto simp: dated_def)
    obtain T0 where T0: "T0 \<in> set ?ts" "ti_poll U = ti_poll T0" "ti_polled U = ti_polled T0"
      using U(1) by (auto simp: like_def)
    have "ti_now T < ti_polled T0 n + 1000 * uint (interval t (gc_poll (cf_global ?c)))" using True U(5) T0(3) by simp
    moreover have "\<dots> \<le> ti_polled T0 n + 86400000" using interval_within [OF proper, of t] by simp
    ultimately show ?thesis using U(2-4) T0
      by (intro exI [of _ T0] exI [of _ p0] exI [of _ t] exI [of _ p]) (simp add: U(2))
  next
    case False
    then obtain p0 t p where "po_name p0 = n" "poll (ti_poll T n) p0 = (t, p)"
      "reg_transfer n (wt_registry w') = Some (transfer_view_of t)"
      using d by (auto simp: dated_def)
    moreover have "T \<in> set ?ts" by (rule turned_in) simp
    ultimately show ?thesis by (intro exI [of _ T] exI [of _ p0] exI [of _ t] exI [of _ p]) simp
  qed
qed

lemma quiet_turn_rows:
  assumes "turn S T w H s = ((w', cs), s')" "ti_now T < wt_sweep_due w"
  shows "rg_mounts (wt_registry w') = rg_mounts (wt_registry w)"
  using assms tick_rows [of "sp_config S" T w]
  by (auto simp: turn_def sweep_if_due_def forget_cycled_def split: prod.splits)

theorem no_reading_is_stale_witness:
  "\<exists>S w s' w' c s2 t. start_service seen_boot (machine True False) power_on = (Inr (S, w), s')
     \<and> serve_step S (Turned (seen_tick\<lparr>ti_now := 2\<rparr>)) w (machine True False) s' = ((w', c), s2)
     \<and> reg_transfer ''backup'' (wt_registry w') = Some (transfer_view_of t)"
proof -
  let ?H = "machine True False" and ?T = "seen_tick\<lparr>ti_now := 2\<rparr>"
  obtain S w s' where life: "start_service seen_boot ?H power_on = (Inr (S, w), s')"
    "rg_mounts (wt_registry w) = [(''backup'', seen_row)]" "wt_sweep_due w = 1 + SWEEP_INTERVAL"
    using seen_life by blast
  obtain w' c s2 where step: "serve_step S (Turned ?T) w ?H s' = ((w', c), s2)" by (metis prod.collapse)
  then have "rg_mounts (wt_registry w') = [(''backup'', seen_row)]"
    using quiet_turn_rows [of S ?T w ?H s'] life by (simp add: serve_step_def SWEEP_INTERVAL_def)
  then have n: "''backup'' \<in> set (pollable (wt_registry w'))"
    using seen_row_fields by (simp add: pollable_def bt_values_def)
  have "serve_loop S [] w ?H s' = ((w, []), s')" by simp
  from no_reading_is_stale [OF sample_orderly life(1) this step n] show ?thesis using life(1) step by blast
qed

end
