(* ===== verification/TrayProcess.thy ===== *)
theory TrayProcess
  imports Actions Client
begin

text \<open>
  The tray's own life (crates/tray/src/main.rs): the log level, the choice between a subcommand and
  the icon, raising the icon, and what ends it. What \<^verbatim>\<open>ksni\<close> answers to an attempt
  to put the icon up, and what happens to the process meanwhile, are parameters.
\<close>

section \<open>What may happen\<close>

datatype spawn_answer = IconUp | SpawnDbus string | SpawnOther string

datatype tray_event = Spawned spawn_answer | Signalled | Chosen action | LinkerGone

text \<open>An exit has its code and what it prints on standard error.\<close>

datatype tray_phase = Raising backoff | Showing | Left nat "string list"

section \<open>The icon\<close>

text \<open>
  Without a handler a signal is never heard of (\<^verbatim>\<open>terminated\<close> then waits for ever).
  The result is the phase after the event, the wait it began, and the errands it sent out.
\<close>

definition tray_step :: "bool \<Rightarrow> tray_event \<Rightarrow> tray_phase \<Rightarrow> tray_phase \<times> nat list \<times> errand list" where
  "tray_step handler ev ph =
     (case ph of
        Raising b \<Rightarrow>
          (case ev of
             Spawned a \<Rightarrow>
               (case a of
                  IconUp \<Rightarrow> (Showing, [], [])
                | SpawnDbus t \<Rightarrow> (Left 5 [''Could not raise the tray icon: '' @ t], [], [])
                | SpawnOther _ \<Rightarrow> (case backoff_take b of (wait, b') \<Rightarrow> (Raising b', [wait], [])))
           | Signalled \<Rightarrow> (if handler then Left 0 [] else ph, [], [])
           | _ \<Rightarrow> (ph, [], []))
      | Showing \<Rightarrow>
          (case ev of
             Signalled \<Rightarrow> (if handler then Left 0 [] else ph, [], [])
           | LinkerGone \<Rightarrow> (Left 0 [], [], [])
           | Chosen a \<Rightarrow> (if a = Quit then Left 0 [] else ph, [], errands [a])
           | _ \<Rightarrow> (ph, [], []))
      | Left _ _ \<Rightarrow> (ph, [], []))"

fun tray_run :: "bool \<Rightarrow> tray_event list \<Rightarrow> tray_phase \<Rightarrow> tray_phase \<times> nat list \<times> errand list" where
  "tray_run handler [] ph = (ph, [], [])"
| "tray_run handler (ev # evs) ph =
     (case tray_step handler ev ph of
        (ph, ws, es) \<Rightarrow> (case tray_run handler evs ph of (ph, ws', es') \<Rightarrow> (ph, ws @ ws', es @ es')))"

definition run_tray :: "bool \<Rightarrow> tray_event list \<Rightarrow> exited option" where
  "run_tray handler evs =
     (case fst (tray_run handler evs (Raising backoff_new)) of
        Left code said \<Rightarrow> Some \<lparr>ex_out = [], ex_err = said, ex_code = code\<rparr>
      | _ \<Rightarrow> None)"

section \<open>The process\<close>

definition init_logging :: "string option \<Rightarrow> string option \<Rightarrow> exited option" where
  "init_logging flag env =
     (case resolve_log_filter flag env of
        Inl bad \<Rightarrow>
          Some \<lparr>ex_out = [],
                ex_err = [''--log-level must be one of: off, error, warn, info, debug, trace (got '' @ debug_str bad
                  @ ''). Use RUST_LOG for per-target directives.''],
                ex_code = 2\<rparr>
      | Inr _ \<Rightarrow> None)"

text \<open>
  What \<^verbatim>\<open>clap\<close> makes of the arguments is a parameter: it ends the process itself (for
  help, the version or a usage error), or hands over the level and the subcommand. Nothing while the
  process stays up.
\<close>

definition tray_main ::
  "exited + string option \<times> command option \<Rightarrow> string option \<Rightarrow> cli_answers \<Rightarrow> bool \<Rightarrow> tray_event list \<Rightarrow> exited option"
where
  "tray_main args env X handler evs =
     (case args of
        Inl out \<Rightarrow> Some out
      | Inr (flag, sub) \<Rightarrow>
          (case init_logging flag env of
             Some out \<Rightarrow> Some out
           | None \<Rightarrow> (case sub of None \<Rightarrow> run_tray handler evs | Some c \<Rightarrow> Some (main_run X c))))"

text \<open>The windows are not there yet (crates/gtk/src/main.rs): the process says so and ends.\<close>

definition gtk_main :: "string option \<Rightarrow> exited" where
  "gtk_main pane =
     \<lparr>ex_out = [],
      ex_err = [''not implemented yet '' @ em_dash @ '' see issues #41 to #44 (pane: ''
        @ (case pane of None \<Rightarrow> ''None'' | Some p \<Rightarrow> ''Some('' @ debug_str p @ '')'') @ '')''],
      ex_code = 0\<rparr>"

section \<open>What ends it\<close>

fun settles :: "bool \<Rightarrow> tray_event \<Rightarrow> bool" where
  "settles handler (Spawned a) = (case a of SpawnOther _ \<Rightarrow> False | _ \<Rightarrow> True)"
| "settles handler Signalled = handler"
| "settles handler _ = False"

fun closes :: "bool \<Rightarrow> tray_event \<Rightarrow> bool" where
  "closes handler (Chosen a) = (a = Quit)"
| "closes handler Signalled = handler"
| "closes handler LinkerGone = True"
| "closes handler (Spawned _) = False"

definition tries :: "tray_event list \<Rightarrow> nat" where
  "tries evs = length (filter (\<lambda>e. case e of Spawned _ \<Rightarrow> True | _ \<Rightarrow> False) evs)"

definition chosen :: "tray_event list \<Rightarrow> action list" where
  "chosen evs = concat (map (\<lambda>e. case e of Chosen a \<Rightarrow> [a] | _ \<Rightarrow> []) evs)"

lemma left_stays: "tray_run handler evs (Left code said) = (Left code said, [], [])"
  by (induction evs) (simp_all add: tray_step_def)

lemma showing_run:
  "tray_run handler evs Showing =
     (if list_ex (closes handler) evs then Left 0 [] else Showing, [],
      errands (chosen (takeWhile (\<lambda>e. \<not> closes handler e) evs)))"
proof (induction evs)
  case (Cons e evs)
  then show ?case
    by (cases e) (auto simp: tray_step_def left_stays chosen_def split: action.split)
qed (simp add: chosen_def)

lemma tray_run_append:
  "tray_run handler (es @ fs) ph =
     (case tray_run handler es ph of
        (ph, ws, xs) \<Rightarrow> (case tray_run handler fs ph of (ph, ws', xs') \<Rightarrow> (ph, ws @ ws', xs @ xs')))"
  by (induction es arbitrary: ph) (simp_all split: prod.split)

lemma raising_run:
  "list_all (\<lambda>e. \<not> settles handler e) evs \<Longrightarrow> \<exists>b'. tray_run handler evs (Raising b) = (Raising b', waits (tries evs) b, [])"
proof (induction evs arbitrary: b)
  case (Cons e evs)
  obtain w b1 where take: "backoff_take b = (w, b1)" by force
  show ?case
    using Cons.IH [of b] Cons.IH [of b1] Cons.prems take
    by (cases e) (auto simp: tray_step_def tries_def split: spawn_answer.splits)
qed (simp add: tries_def)

text \<open>Which waits those are.\<close>

definition doubling :: "nat \<Rightarrow> nat list" where
  "doubling n = map (\<lambda>i. min (2 ^ i) 60) [0..<n]"

lemma length_waits: "length (waits n b) = n"
  by (induction n arbitrary: b) (simp_all split: prod.split)

lemma waits_doubling: "waits n backoff_new = doubling n"
  using waits_nth [of _ n backoff_new]
  by (intro nth_equalityI) (simp_all add: doubling_def length_waits backoff_new_def FIRST_def CEILING_def)

text \<open>How the icon's process comes out of what happened, in one place.\<close>

definition tray_outcome :: "bool \<Rightarrow> tray_event list \<Rightarrow> tray_phase option" where
  "tray_outcome handler evs =
     (case dropWhile (\<lambda>e. \<not> settles handler e) evs of
        [] \<Rightarrow> None
      | ev # later \<Rightarrow>
          (case ev of
             Spawned a \<Rightarrow>
               (case a of
                  SpawnDbus t \<Rightarrow> Some (Left 5 [''Could not raise the tray icon: '' @ t])
                | _ \<Rightarrow> if list_ex (closes handler) later then Some (Left 0 []) else None)
           | _ \<Rightarrow> Some (Left 0 [])))"

definition asked_before_the_end :: "bool \<Rightarrow> tray_event list \<Rightarrow> action list" where
  "asked_before_the_end handler evs =
     (case dropWhile (\<lambda>e. \<not> settles handler e) evs of
        Spawned IconUp # later \<Rightarrow> chosen (takeWhile (\<lambda>e. \<not> closes handler e) later)
      | _ \<Rightarrow> [])"

lemma tray_run_parts:
  obtains b where "tray_run handler evs (Raising backoff_new) =
    (case dropWhile (\<lambda>e. \<not> settles handler e) evs of
       [] \<Rightarrow> Raising b
     | _ \<Rightarrow> unwrap_or (tray_outcome handler evs) Showing,
     doubling (tries (takeWhile (\<lambda>e. \<not> settles handler e) evs)),
     errands (asked_before_the_end handler evs))"
proof -
  let ?pre = "takeWhile (\<lambda>e. \<not> settles handler e) evs" and ?rest = "dropWhile (\<lambda>e. \<not> settles handler e) evs"
  have "list_all (\<lambda>e. \<not> settles handler e) ?pre" by (auto simp: list_all_iff dest: set_takeWhileD)
  then obtain b where pre: "tray_run handler ?pre (Raising backoff_new) = (Raising b, doubling (tries ?pre), [])"
    using raising_run waits_doubling by metis
  have "tray_run handler (?pre @ ?rest) (Raising backoff_new) =
    (case ?rest of [] \<Rightarrow> Raising b | _ \<Rightarrow> unwrap_or (tray_outcome handler evs) Showing,
     doubling (tries ?pre), errands (asked_before_the_end handler evs))"
  proof (cases ?rest)
    case Nil
    then show ?thesis
      by (simp add: tray_run_append pre asked_before_the_end_def del: dropWhile_eq_Nil_conv)
  next
    case (Cons e later)
    then have "settles handler e" by (metis dropWhile_eq_Cons_conv)
    then show ?thesis unfolding tray_run_append pre Cons tray_outcome_def asked_before_the_end_def
      by (cases e)
        (auto simp: tray_step_def left_stays showing_run split: spawn_answer.splits if_splits)
  qed
  then show thesis using that by (simp only: takeWhile_dropWhile_id)
qed

lemma exit_code_not_2: "exit_code e \<noteq> 2" by (cases e) simp_all

text \<open>
  C39: Raised as an icon, the tray gives up only for want of a bus. What \<^verbatim>\<open>clap\<close> ends the
  process with stands, and a log level that is none ends it with code 2 and a sentence, before anything
  else is done; with a subcommand it is that subcommand's run, which has codes of its own but never 2.
  Without one a panel that is not ready is asked again after 1, 2, 4 seconds and so on, never more than
  a minute apart, for as long as it takes; only what \<^verbatim>\<open>ksni\<close> reports as a session bus out
  of reach ends it with code 5 and a sentence. Once the icon is up it stays until it is closed, by a
  signal it listens to, by Quit or by the icon going away, and then exits with code 0, having sent on
  exactly what was chosen before that.
\<close>

theorem the_tray_gives_up_only_without_a_bus:
  "case args of
     Inl out \<Rightarrow> tray_main args env X handler evs = Some out
   | Inr (flag, sub) \<Rightarrow>
     (case resolve_log_filter flag env of
        Inl _ \<Rightarrow> map_option (\<lambda>x. (ex_out x, length (ex_err x), ex_code x)) (tray_main args env X handler evs) = Some ([], 1, 2)
      | Inr _ \<Rightarrow>
        (case sub of
           Some c \<Rightarrow> tray_main args env X handler evs = Some (main_run X c) \<and> ex_code (main_run X c) \<noteq> 2
         | None \<Rightarrow>
             tray_main args env X handler evs =
               (case dropWhile (\<lambda>e. \<not> settles handler e) evs of
                  [] \<Rightarrow> None
                | ev # later \<Rightarrow>
                    (case ev of
                       Spawned a \<Rightarrow>
                         (case a of
                            SpawnDbus t \<Rightarrow>
                              Some \<lparr>ex_out = [], ex_err = [''Could not raise the tray icon: '' @ t], ex_code = 5\<rparr>
                          | _ \<Rightarrow> if list_ex (closes handler) later then Some \<lparr>ex_out = [], ex_err = [], ex_code = 0\<rparr> else None)
                     | _ \<Rightarrow> Some \<lparr>ex_out = [], ex_err = [], ex_code = 0\<rparr>))
             \<and> snd (tray_run handler evs (Raising backoff_new)) =
                 (doubling (tries (takeWhile (\<lambda>e. \<not> settles handler e) evs)),
                  errands (asked_before_the_end handler evs))))"
proof (cases args)
  case (Inl out)
  then show ?thesis by (simp add: tray_main_def)
next
  case (Inr parsed)
  obtain flag sub where parsed: "parsed = (flag, sub)" by force
  show ?thesis
  proof (cases "resolve_log_filter flag env")
    case (Inl bad)
    then show ?thesis using Inr parsed by (simp add: tray_main_def init_logging_def \<open>args = Inr parsed\<close>)
  next
    case F: (Inr f)
    show ?thesis
    proof (cases sub)
      case (Some c)
      then show ?thesis using Inr parsed F exit_code_not_2
        by (auto simp: tray_main_def init_logging_def main_run_def split: sum.splits prod.splits)
    next
      case None
      obtain b where run: "tray_run handler evs (Raising backoff_new) =
        (case dropWhile (\<lambda>e. \<not> settles handler e) evs of
           [] \<Rightarrow> Raising b
         | _ \<Rightarrow> unwrap_or (tray_outcome handler evs) Showing,
         doubling (tries (takeWhile (\<lambda>e. \<not> settles handler e) evs)),
         errands (asked_before_the_end handler evs))"
        by (rule tray_run_parts)
      then show ?thesis using Inr parsed F None
        by (cases "dropWhile (\<lambda>e. \<not> settles handler e) evs")
          (simp_all add: tray_main_def init_logging_def run_tray_def tray_outcome_def del: dropWhile_eq_Nil_conv
            split: tray_event.split spawn_answer.split)
    qed
  qed
qed

end
