(* ===== verification/Scratch.thy ===== *)
theory Scratch
  imports Rclone
begin

text \<open>
  The scratch directories the workspace's tests run in (crates/testutil/src/lib.rs): one directory
  of the process under the temporary directory, one numbered directory in it for each live value,
  and both gone when the last value goes. The file system below the temporary directory is the
  state; a test does what it likes inside a directory of its own.
\<close>

section \<open>Trees\<close>

text \<open>A directory's flag says whether its owner can list and change it.\<close>

datatype node = FileNode | LinkNode | DirNode bool "(string \<times> node) list"

text \<open>
  What \<^verbatim>\<open>std::fs::remove_dir_all\<close> does with what is in a directory: it removes in
  the order of the listing up to the first directory it cannot enter; the result is what is left.
\<close>

fun remove_node :: "node \<Rightarrow> node option" and remove_entries :: "(string \<times> node) list \<Rightarrow> (string \<times> node) list" where
  "remove_node FileNode = None"
| "remove_node LinkNode = None"
| "remove_node (DirNode w es) =
     (if \<not> w then Some (DirNode w es)
      else (case remove_entries es of [] \<Rightarrow> None | left \<Rightarrow> Some (DirNode w left)))"
| "remove_entries [] = []"
| "remove_entries ((n, x) # es) =
     (case remove_node x of None \<Rightarrow> remove_entries es | Some y \<Rightarrow> (n, y) # es)"

text \<open>
  At the path it is given it unlinks a symbolic link, but a regular file is an error and stays. It
  succeeds exactly if nothing is left.
\<close>

definition remove_dir_all :: "node \<Rightarrow> node option" where
  "remove_dir_all x = (case x of FileNode \<Rightarrow> Some FileNode | _ \<Rightarrow> remove_node x)"

text \<open>A link is never followed.\<close>

fun make_walkable :: "node \<Rightarrow> node" where
  "make_walkable FileNode = FileNode"
| "make_walkable LinkNode = LinkNode"
| "make_walkable (DirNode w es) = DirNode True (map (map_prod id make_walkable) es)"

text \<open>What is left after the second attempt is reported.\<close>

definition remove_tree :: "node \<Rightarrow> node option" where
  "remove_tree x =
     (case remove_dir_all x of
        None \<Rightarrow> None
      | Some left \<Rightarrow> remove_dir_all (make_walkable left))"

lemma entries_removed: "(\<And>x. x \<in> snd ` set es \<Longrightarrow> remove_node x = None) \<Longrightarrow> remove_entries es = []"
  by (induction es) (auto split: prod.splits)

lemma walkable_removed: "remove_node (make_walkable x) = None"
proof (induction x)
  case (DirNode w es)
  have "remove_entries (map (map_prod id make_walkable) es) = []"
    by (rule entries_removed) (use DirNode.IH in \<open>auto simp: image_image snds.simps\<close>)
  then show ?case by simp
qed simp_all

lemma remove_dir_node: "x \<noteq> FileNode \<Longrightarrow> remove_dir_all x = remove_node x"
  by (cases x) (simp_all add: remove_dir_all_def)

lemma tree_removed: "remove_tree x = (if x = FileNode then Some FileNode else None)"
proof (cases x)
  case (DirNode w es)
  have "remove_dir_all (make_walkable left) = None" if "remove_dir_all x = Some left" for left
  proof -
    have "left \<noteq> FileNode" using that DirNode by (auto simp: remove_dir_all_def split: if_splits list.splits)
    then have "make_walkable left \<noteq> FileNode" by (cases left) simp_all
    then show ?thesis using walkable_removed [of left] remove_dir_node by metis
  qed
  then show ?thesis using DirNode by (simp add: remove_tree_def split: option.split)
qed (simp_all add: remove_tree_def remove_dir_all_def)

section \<open>Names\<close>

definition sanitised :: "string \<Rightarrow> string" where
  "sanitised tag =
     map (\<lambda>p. case p of [c] \<Rightarrow> if is_ascii_alnum c \<or> c = CHR ''-'' \<or> c = CHR ''_'' then c else CHR ''-'' | _ \<Rightarrow> CHR ''-'')
       (chars tag)"

text \<open>At least four digits.\<close>

definition padded :: "nat \<Rightarrow> string" where
  "padded n = replicate (4 - length (show_nat n)) (CHR ''0'') @ show_nat n"

definition scratch_name :: "nat \<Rightarrow> string \<Rightarrow> string" where
  "scratch_name n tag = padded n @ ''-'' @ sanitised tag"

definition root_path :: "string \<Rightarrow> nat \<Rightarrow> u64 \<Rightarrow> string" where
  "root_path temp_dir pid nanos =
     path_join temp_dir (''rvt-test-'' @ show_nat pid @ ''-'' @ show_base 16 (unat nanos mod 2 ^ 32))"

lemma padded_digits: "list_all is_ascii_digit (padded n)"
  using show_digits by (auto simp: padded_def show_nat_def list_all_iff is_ascii_digit_def char_between_def)

lemma parse_zeros: "parse_digits 10 m 0 (replicate k (CHR ''0'') @ s) = parse_digits 10 m 0 s"
  by (induction k) (simp_all add: digit_value_def Let_def)

lemma padded_inj: "padded n = padded m \<Longrightarrow> n = m"
proof -
  assume "padded n = padded m"
  then have "parse_digits 10 (max n m) 0 (padded n) = parse_digits 10 (max n m) 0 (padded m)" by simp
  then show "n = m" by (simp add: padded_def parse_zeros show_nat_def parse_digits_show_base)
qed

lemma scratch_name_number: "scratch_name n t = scratch_name m u \<Longrightarrow> n = m"
proof -
  assume same: "scratch_name n t = scratch_name m u"
  have plain: "\<not> is_ascii_digit (CHR ''-'')" by (simp add: is_ascii_digit_def char_between_def)
  have "takeWhile is_ascii_digit (scratch_name k v) = padded k" for k v
    using padded_digits [of k] plain by (simp add: scratch_name_def list_all_iff takeWhile_append2)
  with same have "padded n = padded m" by metis
  then show "n = m" by (rule padded_inj)
qed

section \<open>Scratch directories\<close>

text \<open>
  The number of live values, the next number, the entries of the process's directory while it
  exists, and what was said on standard error of a directory that was not removed. The counter is
  far from its width.
\<close>

datatype report = Keeping string | LeftBehind string

record scratches =
  sc_live :: nat
  sc_seq :: nat
  sc_root :: "node btree option"
  sc_said :: "report list"

definition fresh_process :: scratches where
  "fresh_process = \<lparr>sc_live = 0, sc_seq = 0, sc_root = None, sc_said = []\<rparr>"

text \<open>An entry that is already there is refused; no name is the panic.\<close>

definition create_exclusive :: "string \<Rightarrow> node btree \<Rightarrow> node btree option" where
  "create_exclusive name es =
     (case bt_get name es of Some _ \<Rightarrow> None | None \<Rightarrow> Some (bt_insert name (DirNode True []) es))"

definition scratch_new :: "string \<Rightarrow> scratches \<Rightarrow> string option \<times> scratches" where
  "scratch_new tag st =
     (let name = scratch_name (sc_seq st) tag;
          es = unwrap_or (sc_root st) [];
          st = st\<lparr>sc_seq := sc_seq st + 1, sc_root := Some es\<rparr>
      in case create_exclusive name es of
           None \<Rightarrow> (None, st)
         | Some es \<Rightarrow> (Some name, st\<lparr>sc_root := Some es, sc_live := sc_live st + 1\<rparr>))"

text \<open>A path where nothing is is not reported.\<close>

definition drop_tree :: "string \<Rightarrow> node btree \<Rightarrow> node btree \<times> report list" where
  "drop_tree name es =
     (case bt_get name es of
        None \<Rightarrow> (es, [])
      | Some x \<Rightarrow>
          (case remove_tree x of
             None \<Rightarrow> (bt_remove name es, [])
           | Some left \<Rightarrow> (bt_insert name left es, [LeftBehind name])))"

definition scratch_drop :: "bool \<Rightarrow> string \<Rightarrow> scratches \<Rightarrow> scratches" where
  "scratch_drop keep name st =
     (let (dir, said) =
            (if keep then (sc_root st, [Keeping name])
             else (case sc_root st of
                     None \<Rightarrow> (None, [])
                   | Some es \<Rightarrow> (case drop_tree name es of (es, said) \<Rightarrow> (Some es, said))));
          live = sc_live st - 1
      in st\<lparr>sc_live := live, sc_root := if live = 0 \<and> dir = Some [] then None else dir,
            sc_said := sc_said st @ said\<rparr>)"

text \<open>What a test leaves at its own path, nothing included.\<close>

definition scratch_touch :: "string \<Rightarrow> node option \<Rightarrow> scratches \<Rightarrow> scratches" where
  "scratch_touch name x st =
     st\<lparr>sc_root := map_option (case x of None \<Rightarrow> bt_remove name | Some y \<Rightarrow> bt_insert name y) (sc_root st)\<rparr>"

section \<open>A process of tests\<close>

text \<open>A value is used and dropped only by whoever holds it, and dropped once.\<close>

datatype scratch_step = Made string | Touched string "node option" | Dropped string

fun scratch_act :: "bool \<Rightarrow> scratch_step \<Rightarrow> string list \<times> scratches \<Rightarrow> string list \<times> scratches" where
  "scratch_act keep (Made tag) (held, st) =
     (case scratch_new tag st of (None, st) \<Rightarrow> (held, st) | (Some name, st) \<Rightarrow> (name # held, st))"
| "scratch_act keep (Touched name x) (held, st) =
     (held, if name \<in> set held then scratch_touch name x st else st)"
| "scratch_act keep (Dropped name) (held, st) =
     (if name \<in> set held then (remove1 name held, scratch_drop keep name st) else (held, st))"

definition scratch_run :: "bool \<Rightarrow> scratch_step list \<Rightarrow> string list \<times> scratches" where
  "scratch_run keep es = foldl (\<lambda>s e. scratch_act keep e s) ([], fresh_process) es"

definition numbered :: "nat \<Rightarrow> string \<Rightarrow> bool" where
  "numbered n name = (\<exists>k tag. k < n \<and> name = scratch_name k tag)"

definition spoken_of :: "scratches \<Rightarrow> string set" where
  "spoken_of st = (\<lambda>x. case x of Keeping n \<Rightarrow> n | LeftBehind n \<Rightarrow> n) ` set (sc_said st)"

abbreviation entries :: "scratches \<Rightarrow> node btree" where
  "entries st \<equiv> unwrap_or (sc_root st) []"

definition tidy :: "bool \<Rightarrow> string list \<Rightarrow> scratches \<Rightarrow> bool" where
  "tidy keep held st =
     (distinct held \<and> sc_live st = length held
      \<and> (\<forall>n \<in> set held \<union> spoken_of st. numbered (sc_seq st) n) \<and> set held \<inter> spoken_of st = {}
      \<and> set (bt_keys (entries st)) \<subseteq> set held \<union> spoken_of st
      \<and> (\<forall>n. LeftBehind n \<in> set (sc_said st) \<longrightarrow> \<not> keep \<and> bt_get n (entries st) = Some FileNode)
      \<and> (\<forall>n. Keeping n \<in> set (sc_said st) \<longrightarrow> keep)
      \<and> (sc_root st = None \<longleftrightarrow> held = [] \<and> entries st = []))"

lemma keys_insert [simp]: "set (bt_keys (bt_insert k v m)) = insert k (set (bt_keys m))"
  by (simp add: bt_keys_def fst_set_bt_insert)

lemma keys_remove [simp]: "set (bt_keys (bt_remove k m)) = set (bt_keys m) - {k}"
  by (auto simp: bt_keys_get bt_get_remove split: if_splits)

lemma numbered_new: "\<not> numbered n (scratch_name n tag)" "numbered (Suc n) (scratch_name n tag)"
  unfolding numbered_def using scratch_name_number by blast+

lemma numbered_mono: "numbered n name \<Longrightarrow> numbered (Suc n) name"
  unfolding numbered_def using less_SucI by blast

lemma tidy_new:
  fixes tag
  assumes "tidy keep held st"
  defines "n \<equiv> scratch_name (sc_seq st) tag"
  shows "scratch_new tag st = (Some n, st\<lparr>sc_seq := sc_seq st + 1, sc_root := Some (bt_insert n (DirNode True []) (entries st)),
      sc_live := sc_live st + 1\<rparr>)"
    and "n \<notin> set held" and "tidy keep (n # held) (snd (scratch_new tag st))"
proof -
  have fresh: "n \<notin> set held \<union> spoken_of st" using assms(1) numbered_new(1) by (auto simp: tidy_def n_def)
  then show "n \<notin> set held" by blast
  have "n \<notin> set (bt_keys (entries st))" using fresh assms(1) by (auto simp: tidy_def)
  then have get: "bt_get n (entries st) = None" by (simp add: bt_keys_get)
  then show new: "scratch_new tag st = (Some n, st\<lparr>sc_seq := sc_seq st + 1,
      sc_root := Some (bt_insert n (DirNode True []) (entries st)), sc_live := sc_live st + 1\<rparr>)"
    by (simp add: scratch_new_def create_exclusive_def Let_def n_def)
  have left: "bt_get k (bt_insert n (DirNode True []) (entries st)) = Some FileNode"
    if "LeftBehind k \<in> set (sc_said st)" for k
  proof -
    have "k \<in> spoken_of st" using that by (force simp: spoken_of_def)
    then have "k \<noteq> n" using fresh by blast
    then show ?thesis using that assms(1) by (simp add: tidy_def bt_simps)
  qed
  have spoken: "spoken_of (st\<lparr>sc_seq := k, sc_root := x, sc_live := l\<rparr>) = spoken_of st" for k x l
    by (simp add: spoken_of_def)
  show "tidy keep (n # held) (snd (scratch_new tag st))"
    using assms(1) fresh left numbered_new(2) [of "sc_seq st" tag] numbered_mono
    unfolding tidy_def new by (auto simp: spoken n_def [symmetric])
qed

lemma tidy_touched:
  assumes "tidy keep held st" "n \<in> set held"
  shows "tidy keep held (scratch_touch n x st)"
proof -
  obtain es where es: "sc_root st = Some es" using assms by (auto simp: tidy_def)
  let ?es = "case x of None \<Rightarrow> bt_remove n es | Some y \<Rightarrow> bt_insert n y es"
  have keys: "set (bt_keys ?es) \<subseteq> set (bt_keys es) \<union> {n}" by (auto split: option.split)
  have get: "bt_get k ?es = bt_get k es" if "LeftBehind k \<in> set (sc_said st)" for k
  proof -
    have "k \<in> spoken_of st" using that by (force simp: spoken_of_def)
    then have "k \<noteq> n" using assms by (auto simp: tidy_def)
    then show ?thesis by (simp add: bt_simps split: option.split)
  qed
  have st': "sc_root (scratch_touch n x st) = Some ?es" "sc_said (scratch_touch n x st) = sc_said st"
    "sc_live (scratch_touch n x st) = sc_live st" "sc_seq (scratch_touch n x st) = sc_seq st"
    by (simp_all add: scratch_touch_def es split: option.split)
  have "spoken_of (scratch_touch n x st) = spoken_of st" by (simp add: spoken_of_def st')
  then show ?thesis using assms keys get es unfolding tidy_def st' by auto
qed

lemma drop_tree_entries:
  assumes "drop_tree name es = (es', said)"
  shows "k \<noteq> name \<Longrightarrow> bt_get k es' = bt_get k es"
    "if bt_get name es = Some FileNode then said = [LeftBehind name] \<and> bt_get name es' = Some FileNode
     else said = [] \<and> bt_get name es' = None"
  using assms by (auto simp: drop_tree_def tree_removed bt_simps split: option.splits if_splits)

lemma tidy_dropped:
  assumes "tidy keep held st" "name \<in> set held"
  shows "tidy keep (remove1 name held) (scratch_drop keep name st)"
proof -
  obtain es where es: "sc_root st = Some es" using assms by (auto simp: tidy_def)
  have said_new: "k \<noteq> name" if "LeftBehind k \<in> set (sc_said st)" for k
  proof -
    have "k \<in> spoken_of st" using that by (force simp: spoken_of_def)
    then show ?thesis using assms by (auto simp: tidy_def)
  qed
  have rest: "distinct (remove1 name held)" "set (remove1 name held) = set held - {name}"
    "length (remove1 name held) = sc_live st - 1"
    using assms by (auto simp: tidy_def length_remove1)
  then have none: "remove1 name held = [] \<longleftrightarrow> sc_live st - 1 = 0" by (metis length_0_conv)
  show ?thesis
  proof (cases keep)
    case True
    then have st': "sc_said (scratch_drop keep name st) = sc_said st @ [Keeping name]"
      "sc_live (scratch_drop keep name st) = sc_live st - 1" "sc_seq (scratch_drop keep name st) = sc_seq st"
      "sc_root (scratch_drop keep name st) = (if sc_live st - 1 = 0 \<and> es = [] then None else Some es)"
      by (simp_all add: scratch_drop_def es Let_def)
    have "spoken_of (scratch_drop keep name st) = insert name (spoken_of st)" by (simp add: spoken_of_def st')
    then show ?thesis using assms True rest none es unfolding tidy_def st' by auto
  next
    case False
    obtain es' said where d: "drop_tree name es = (es', said)" by force
    note e = drop_tree_entries [OF d]
    from False have st': "sc_said (scratch_drop keep name st) = sc_said st @ said"
      "sc_live (scratch_drop keep name st) = sc_live st - 1" "sc_seq (scratch_drop keep name st) = sc_seq st"
      "sc_root (scratch_drop keep name st) = (if sc_live st - 1 = 0 \<and> es' = [] then None else Some es')"
      by (simp_all add: scratch_drop_def es Let_def d)
    have keys: "set (bt_keys es') \<subseteq> (set (bt_keys es) - {name}) \<union> (if said = [] then {} else {name})"
    proof
      fix k assume "k \<in> set (bt_keys es')"
      then have "bt_get k es' \<noteq> None" by (simp add: bt_keys_get)
      then show "k \<in> (set (bt_keys es) - {name}) \<union> (if said = [] then {} else {name})"
        using e(1) [of k] e(2) by (cases "k = name") (auto simp: bt_keys_get split: if_splits)
    qed
    have said: "said = [] \<or> said = [LeftBehind name] \<and> bt_get name es' = Some FileNode" using e(2) by (auto split: if_splits)
    then have "spoken_of (scratch_drop keep name st) = spoken_of st \<union> (if said = [] then {} else {name})"
      by (auto simp: spoken_of_def st')
    note spoken = this
    have t: "set (bt_keys es) \<subseteq> set held \<union> spoken_of st" "set held \<inter> spoken_of st = {}"
      "\<forall>n \<in> set held \<union> spoken_of st. numbered (sc_seq st) n" "\<forall>n. Keeping n \<notin> set (sc_said st)"
      using assms(1) es False by (auto simp: tidy_def)
    have left: "\<not> keep \<and> bt_get k es' = Some FileNode" if "LeftBehind k \<in> set (sc_said st @ said)" for k
      using that assms(1) es False said said_new e(1) by (auto simp: tidy_def)
    have "numbered (sc_seq st) n" if "n \<in> set (remove1 name held) \<union> (spoken_of st \<union> (if said = [] then {} else {name}))" for n
      using that t(3) rest(2) assms(2) by (auto split: if_splits)
    moreover have "set (remove1 name held) \<inter> (spoken_of st \<union> (if said = [] then {} else {name})) = {}"
      using t(2) rest(2) by (auto split: if_splits)
    moreover have "set (bt_keys es') \<subseteq> set (remove1 name held) \<union> (spoken_of st \<union> (if said = [] then {} else {name}))"
      using keys t(1) rest(2) by (auto split: if_splits)
    moreover have "Keeping n \<notin> set (sc_said st @ said)" for n using t(4) said by auto
    moreover have ent: "entries (scratch_drop keep name st) = es'" by (simp add: st')
    moreover have "sc_root (scratch_drop keep name st) = None \<longleftrightarrow> remove1 name held = [] \<and> es' = []"
      by (simp add: st' none)
    ultimately show ?thesis unfolding tidy_def ent unfolding st' spoken using rest(1,3) left by simp
  qed
qed

lemma run_tidy: "case scratch_run keep es of (held, st) \<Rightarrow> tidy keep held st"
proof (induction es rule: rev_induct)
  case Nil
  then show ?case by (simp add: scratch_run_def tidy_def fresh_process_def spoken_of_def bt_keys_def)
next
  case (snoc e es)
  obtain held st where s: "scratch_run keep es = (held, st)" by force
  with snoc have t: "tidy keep held st" by simp
  have "case scratch_act keep e (held, st) of (held, st) \<Rightarrow> tidy keep held st"
    using tidy_new(1,3) [OF t] tidy_touched [OF t] tidy_dropped [OF t] t by (cases e) simp_all
  then show ?case using s by (simp add: scratch_run_def)
qed

text \<open>
  C40: The tests leave nothing behind that they do not own up to, and never meet. Whatever a process's
  tests make, do inside their directories and drop, in whatever order: a new scratch is always made,
  under a path no live one has; the count of live ones is right; and all there is in the process's
  directory belongs to a live scratch or was reported. Without \<^verbatim>\<open>RVT_KEEP_SCRATCH\<close> the
  only thing reported is a regular file a test has put in the place of its directory, so trees nobody
  could enter are gone too; with it a drop says that it keeps the directory and removes nothing. The
  process's own directory is gone exactly when no scratch is live and nothing is left in it.
\<close>

theorem the_tests_leave_nothing_behind:
  "case scratch_run keep es of (held, st) \<Rightarrow>
     distinct held
     \<and> sc_live st = length held
     \<and> fst (scratch_new tag st) = Some (scratch_name (sc_seq st) tag)
     \<and> scratch_name (sc_seq st) tag \<notin> set held
     \<and> set (bt_keys (entries st)) \<subseteq> set held \<union> spoken_of st
     \<and> (if keep
        then \<forall>n. LeftBehind n \<notin> set (sc_said st) \<and> entries (scratch_drop keep n st) = entries st
          \<and> sc_said (scratch_drop keep n st) = sc_said st @ [Keeping n]
        else \<forall>n. Keeping n \<notin> set (sc_said st)
          \<and> (case bt_get n (entries st) of
               Some FileNode \<Rightarrow> True
             | _ \<Rightarrow> LeftBehind n \<notin> set (sc_said st)))
     \<and> (sc_root st = None \<longleftrightarrow> held = [] \<and> entries st = [])"
proof -
  obtain held st where s: "scratch_run keep es = (held, st)" by force
  with run_tidy [of keep es] have t: "tidy keep held st" by simp
  have kept: "entries (scratch_drop True n st) = entries st"
    "sc_said (scratch_drop True n st) = sc_said st @ [Keeping n]" for n
    by (simp_all add: scratch_drop_def Let_def)
  have "LeftBehind n \<notin> set (sc_said st)" if "bt_get n (entries st) \<noteq> Some FileNode" for n
    using t that by (auto simp: tidy_def)
  then have left: "case bt_get n (entries st) of Some FileNode \<Rightarrow> True | _ \<Rightarrow> LeftBehind n \<notin> set (sc_said st)" for n
    by (auto split: option.split node.split)
  show ?thesis using s t tidy_new(1,2) [OF t, of tag] kept left by (auto simp: tidy_def)
qed

end
