(* ===== verification/Spec2Isabelle.thy ===== *)
theory Spec2Isabelle
  imports Poller Waits Squatter Icon Vocabulary Freshness TrayProcess Scratch
begin

text \<open>
  A model of rclone-vfsmount-tray, a Rust workspace that keeps rclone's FUSE mounts for a desktop
  user: a systemd user service starts, stops, adopts and watches the mounts and serves their state
  over D-Bus; a tray icon and a command line show that state and ask for changes. What it must
  never do is call a mount safe to unmount when something still waits to upload, take down or
  across a mount that is not its own, or show as current what it no longer knows.

  \<^bold>\<open>The parts, from the outside in.\<close> rclone answers over a private socket (\<open>Rc\<close>) and leaves a cache
  on disk (\<open>Scan\<close>); the poller (\<open>Poller\<close>) turns either into a transfer state (\<open>TransferState\<close>). The
  supervisor (\<open>Supervisor\<close>) starts and stops units through systemd (\<open>Systemd\<close>) and the kernel's mount
  table (\<open>MountInfo\<close>) for the mounts of the settings (\<open>Config\<close>). The watcher (\<open>Watch\<close>) sweeps with
  the one and polls with the other into a registry (\<open>Registry\<close>), whose every change goes out as a
  signal; the bus interface (\<open>Service\<close>) answers from the registry and acts through the supervisor.
  The tray's linker (\<open>Linker\<close>) attaches to the service (\<open>Link\<close>), lists, reads and then follows the
  signals into the tray model (\<open>TrayModel\<close>), from which the menu (\<open>Menu\<close>) and the icon (\<open>Icon\<close>) are
  drawn; clicks come back as actions (\<open>Actions\<close>). The command line (\<open>Client\<close>) asks once and exits.

  \<^bold>\<open>Which theory models which file\<close> (paths under src/crates):
  \<^item> \<open>Prelude\<close>: shared lemmas on words, options, strings and ordered maps, the locales of keyed
    stores and codecs. Strings are the UTF-8 bytes of the Rust strings; a character is the bytes
    that encode it.
  \<^item> \<open>Rc\<close>: core/src/rc.rs, the client of the rc socket: who may answer, retries, limits.
  \<^item> \<open>Models\<close>, \<open>Capabilities\<close>: core/src/models.rs, capabilities.rs and lib.rs, what rclone reports, with
    integers at their width, and which of its commands a version has.
  \<^item> \<open>Scan\<close>: core/src/scan.rs, the bounded walk of rclone's cache metadata.
  \<^item> \<open>Float64\<close>, \<open>TransferState\<close>: core/src/transfer.rs and the float arithmetic of its rates.
  \<^item> \<open>Poller\<close>: service/src/poller.rs, from the endpoints through the disk fallback to one state.
  \<^item> \<open>Ipc\<close>: core/src/supervisor.rs and ipc.rs, the vocabulary, the errors and the views on the bus.
  \<^item> \<open>Config\<close>, \<open>MountInfo\<close>, \<open>Rclone\<close>: core/src/config.rs, mountinfo.rs, rclone.rs.
  \<^item> \<open>Host\<close>, \<open>Systemd\<close>: service/src/systemd.rs over a host, that is over what systemd, the kernel and
    programs answer. Programs are functions from a host and a log to a result and a longer log;
    \<open>Host\<close> has the rules their behaviour is proved with.
  \<^item> \<open>Supervisor\<close>, with \<open>Lifecycle\<close>, \<open>Mounting\<close>, \<open>Outcomes\<close>, \<open>Waits\<close>, \<open>Discovery\<close>, \<open>Squatter\<close>:
    service/src/supervisor.rs, every operation, and what each of them guarantees.
  \<^item> \<open>Registry\<close>, \<open>Watch\<close>, \<open>Service\<close>, \<open>Vocabulary\<close>, \<open>Agreement\<close>, \<open>Startup\<close>, \<open>Serving\<close>: service/src/registry.rs,
    watch.rs, dbus.rs and main.rs; \<open>Agreement\<close> joins the supervisor's discovery to the registry,
    \<open>Startup\<close> is the service up to taking its name, which is an event of the host's log like any other,
    and \<open>Serving\<close> its life after that: the turns of the watcher's loop with the calls of clients between
    them.
  \<^item> \<open>Link\<close>, \<open>TrayModel\<close>, \<open>Phrases\<close>, \<open>Menu\<close>, \<open>Attach\<close>, \<open>Linker\<close>, \<open>Actions\<close>, \<open>Icon\<close>, \<open>Client\<close>: tray/src/link.rs,
    model.rs, menu.rs, watch.rs, sni.rs, client.rs and the exit of main.rs.
  \<^item> \<open>Together\<close>: the service's whole life with the tray that follows it, and the properties of dbus.rs.
  \<^item> \<open>Evidence\<close>, \<open>Freshness\<close>: from what a user reads, on the command line or in the tray, back to the poll
    it rests on, and how old that poll can be.
  \<^item> \<open>TrayProcess\<close>: tray/src/main.rs, raising the icon and what ends the process; the stub of
    gtk/src/main.rs.
  \<^item> \<open>Scratch\<close>: testutil/src/lib.rs, the directories the tests run in.

  \<^bold>\<open>What the lemmas show.\<close> Of the readings: safe to unmount needs live evidence or a finished,
  complete walk, by source, and what a user reads as "up to date" or "All synced" rests on such a
  poll of that mount; a reading is never older than its interval; a scan is exact; a call is bounded and answered only by a private
  socket. Of the settings: validation is exactly a declarative specification, argv has one private
  endpoint, a save never tears the file. Of the supervisor, over every host and every interleaving
  with others: the kernel is asked before a unit is stopped, a lazy detach comes last and only
  under force, a mount takes nothing away, success rests on a mount table read during the
  operation, a discovery leaves nothing out, no operation waits forever. An unmount takes a table
  that cannot be read for an empty one; the two properties this touches say so. Of the service: while
  it serves nothing happens to a mount that no call asked for, it has swept before it takes its name,
  it never says that a configured mount is gone, it has readings only of its own mounts that are up,
  its sweeps keep their pace, no poller outlives its rclone, an action is followed up, and all it says is in its vocabulary. Of the
  composition: a discovery never contradicts itself over an orderly systemd and kernel, so a client
  that applies the published changes ends with exactly the registry's rows and readings, and a tray
  that attaches while the service goes on and carries out calls ends with those of every configured
  mount, and of every other one that was not removed and otherwise spoken of meanwhile (its signals
  come in separate streams); without a session nothing is shown, and a waiting tray says why; attempts
  to attach are paced, and so are those to raise the icon, which only the want of a bus
  ends. Of what the user sees and does: the menu keeps the meaning
  of every index, no click forces an unmount, a failed action says so in so many words, and a lost
  service is never an empty list. Four theorems record where the code does not do what it or its
  documents say: a failed unit is started over a foreign mount (\<open>Squatter\<close>), an unreadable mount
  table is taken for an empty one (\<open>an_unreadable_table_is_taken_for_empty\<close> in \<open>Outcomes\<close>), a removed
  row can come back on the tray (\<open>Attach\<close>), and the options to mount at the start and unmount at the
  stop of the service are not acted on (\<open>the_lifetime_options_are_not_acted_on\<close> in \<open>Serving\<close>).

  \<^bold>\<open>Interfaces.\<close> The keyed store behind the registry, the codecs of the bus, the feed of changes a
  follower keeps in step with, and what a step relation keeps or pays for are locales, each
  interpreted on the model's own definitions by the theory that provides them.

  \<^bold>\<open>Bounds and termination.\<close> No definition has fuel. Waiting loops (\<open>poll_until\<close>) end at their deadline
  because their clock does not run backwards; an unmount sleeps at most 300 and a mount at most
  460 times. The walk of a scan ends at its entry limit. The linker is a relation, so its runs are
  as long as the tray lives, and the service's loop and the tray's process run over the list of what
  happened, which may be as long as one likes; a session is reached within a bounded number of steps of answers that
  are good.

  \<^bold>\<open>What is a parameter.\<close> Every answer of systemd, the kernel, the file system, the bus and rclone,
  which may differ between any two questions; the TOML reader, the JSON and zbus encodings, the
  Unicode classes, what clap makes of the arguments, the text of other libraries' errors. An attempt to attach is modelled with the
  answers of all its steps, and the signals emitted meanwhile arrive with it; an action that lands
  during a tick is taken to land right after it. A call to mount or unmount runs to its end between
  two turns of the loop; what others do to the machine meanwhile is in the host's answers. The only wait for a lock that is modelled is the
  bounded one of a redirected unmount; the others end when their holder does.

  \<^bold>\<open>Not modelled.\<close> The argument parser and the generated man pages, installing signal handlers (whether
  one is there is a parameter), the journal and its cause chains, the D-Bus proxies zbus generates,
  the fixtures of the tray's tests (tray/src/fixtures.rs) and the tests themselves.
\<close>

end
